(* ===== verification/Prelude.thy ===== *)
theory Prelude
  imports Main "HOL-Library.Word" "HOL-Library.AList"
begin

text \<open>
  The prelude of the development: the names of the types that every component shares, the
  collections of facts that carry the component proofs, and a few generic lemmas on lists, maps and
  association lists.

  A Go string is a sequence of bytes; an Isabelle \<^typ>\<open>char\<close> is exactly one byte, so Go strings are
  \<^typ>\<open>string\<close>. A Go \<open>[]byte\<close> is a list of 8-bit words. Instants are \<^typ>\<open>int\<close>: nanoseconds since
  the Unix epoch, the unit of Go's \<open>time.Duration\<close>.
\<close>

section \<open>Types\<close>

type_synonym byte = "8 word"
type_synonym bytes = "byte list"
type_synonym instant = int
type_synonym duration = int

text \<open>Durations as Go's \<open>time\<close> package writes them.\<close>

definition second :: duration where "second = 1000000000"
definition minute :: duration where "minute = 60 * second"
definition hour :: duration where "hour = 60 * minute"

text \<open>\<open>Time.Unix\<close>: whole seconds, rounded towards minus infinity.\<close>

definition unix :: "instant \<Rightarrow> int" where
  "unix t = t div second"

definition to_bytes :: "string \<Rightarrow> bytes" where
  "to_bytes s = map of_char s"

section \<open>Collections of facts\<close>

named_theorems duration_defs \<open>the duration constants, unfolded\<close>
named_theorems frame \<open>fields an operation leaves alone\<close>
named_theorems inv_intro \<open>an operation keeps a component invariant\<close>

lemmas [duration_defs] = second_def minute_def hour_def

lemma second_pos [simp]: "0 < second"
  by (simp add: second_def)

lemma minute_pos [simp]: "0 < minute"
  by (simp add: minute_def)

lemma hour_pos [simp]: "0 < hour"
  by (simp add: hour_def)

lemma unix_mono: "s \<le> t \<Longrightarrow> unix s \<le> unix t"
  by (simp add: unix_def zdiv_mono1)

text \<open>Adding whole seconds moves \<open>Unix\<close> by exactly that many.\<close>

lemma unix_add_seconds: "unix (t + n * second) = unix t + n"
  by (simp add: unix_def second_def)

text \<open>
  A clock reading that Go's \<open>UnixNano\<close> can hold (until the year 2262); deadlines up to ten years
  after it still have \<open>int64\<close> Unix seconds.
\<close>

definition sane_clock :: "instant \<Rightarrow> bool" where
  "sane_clock t \<longleftrightarrow> 0 \<le> t \<and> t < 2 ^ 63"

definition int64 :: "int \<Rightarrow> bool" where
  "int64 i \<longleftrightarrow> - (2 ^ 63) \<le> i \<and> i < 2 ^ 63"

lemma sane_clock_unix: "sane_clock t \<Longrightarrow> 0 \<le> d \<Longrightarrow> d < 2 ^ 62 \<Longrightarrow> int64 (unix t + d)"
proof -
  assume "sane_clock t" "0 \<le> d" "d < 2 ^ 62"
  moreover from this have "0 \<le> unix t" "unix t < 2 ^ 62"
    by (auto simp: sane_clock_def unix_def second_def)
  ultimately show ?thesis by (simp add: int64_def)
qed

lemma to_bytes_Nil [simp]: "to_bytes [] = []"
  by (simp add: to_bytes_def)

lemma to_bytes_Cons: "to_bytes (c # s) = of_char c # to_bytes s"
  by (simp add: to_bytes_def)

lemma to_bytes_append: "to_bytes (s @ t) = to_bytes s @ to_bytes t"
  by (simp add: to_bytes_def)

lemma of_char_byte_inject: "(of_char c :: byte) = of_char d \<longleftrightarrow> c = d"
proof
  assume eq: "(of_char c :: byte) = of_char d"
  have nat_of: "unat (of_char x :: byte) = of_char x" for x
    by (simp add: of_nat_of_char [symmetric, where 'a = byte] unat_of_nat)
  from eq have "(of_char c :: nat) = of_char d"
    by (metis nat_of)
  then show "c = d" by simp
qed simp

lemma to_bytes_inject [simp]: "to_bytes s = to_bytes t \<longleftrightarrow> s = t"
  unfolding to_bytes_def
  by (rule inj_map_eq_map) (auto intro: injI simp: of_char_byte_inject)

section \<open>Lists\<close>

lemma filter_filter_imp:
  "(\<And>x. x \<in> set xs \<Longrightarrow> P x \<Longrightarrow> Q x) \<Longrightarrow> filter P (filter Q xs) = filter P xs"
  by (induction xs) auto

lemma takeWhile_append_sep [simp]:
  "c \<notin> set xs \<Longrightarrow> takeWhile (\<lambda>x. x \<noteq> c) (xs @ c # ys) = xs"
  by (induction xs) auto

lemma dropWhile_append_sep [simp]:
  "c \<notin> set xs \<Longrightarrow> dropWhile (\<lambda>x. x \<noteq> c) (xs @ c # ys) = c # ys"
  by (induction xs) auto

text \<open>A separator that occurs in neither part splits a concatenation uniquely.\<close>

lemma append_sep_inject:
  assumes "c \<notin> set xs" and "c \<notin> set xs'"
  shows "xs @ c # ys = xs' @ c # ys' \<longleftrightarrow> xs = xs' \<and> ys = ys'"
proof
  assume eq: "xs @ c # ys = xs' @ c # ys'"
  from arg_cong [OF eq, of "takeWhile (\<lambda>x. x \<noteq> c)"] assms have "xs = xs'" by simp
  with eq show "xs = xs' \<and> ys = ys'" by simp
qed simp

text \<open>The same from the right: the last separator.\<close>

lemma append_sep_inject_right:
  assumes "c \<notin> set ys" and "c \<notin> set ys'"
  shows "xs @ c # ys = xs' @ c # ys' \<longleftrightarrow> xs = xs' \<and> ys = ys'"
proof -
  have "xs @ c # ys = xs' @ c # ys' \<longleftrightarrow> rev ys @ c # rev xs = rev ys' @ c # rev xs'"
    using rev_is_rev_conv [of "xs @ c # ys" "xs' @ c # ys'"] by simp
  also have "\<dots> \<longleftrightarrow> rev ys = rev ys' \<and> rev xs = rev xs'"
    by (rule append_sep_inject) (simp_all add: assms)
  finally show ?thesis by auto
qed

section \<open>Association lists\<close>

lemma update_absent: "map_of xs k = None \<Longrightarrow> AList.update k v xs = xs @ [(k, v)]"
  by (induction xs) (auto split: if_splits)

lemma delete_present:
  assumes "distinct (map fst xs)" and "map_of xs k = Some v"
  shows "\<exists>ys zs. xs = ys @ (k, v) # zs \<and> AList.delete k xs = ys @ zs"
proof -
  obtain ys zs where xs: "xs = ys @ (k, v) # zs" using map_of_SomeD [OF assms(2)] by (blast dest: split_list)
  have n: "AList.delete k ws = ws" if "k \<notin> fst ` set ws" for ws
    using that by (induction ws) auto
  have a: "AList.delete k (us @ ws) = AList.delete k us @ AList.delete k ws" for us ws
    by (induction us) auto
  have "AList.delete k xs = ys @ zs"
    using assms(1) unfolding xs a by (auto simp: n)
  with xs show ?thesis by blast
qed

end
