(* ===== verification/GoStrings.thy ===== *)
theory GoStrings
  imports Prelude
begin

text \<open>
  The parts of Go's packages \<open>strings\<close>, \<open>bytes\<close> and \<open>strconv\<close> the bridge calls, on byte strings.
  Lemmas: where a separator splits a string, and that \<open>strconv.ParseInt\<close> inverts the decimal
  \<open>%d\<close> rendering.
\<close>

section \<open>Prefixes, separators and trimming\<close>

definition has_prefix :: "string \<Rightarrow> string \<Rightarrow> bool" where
  "has_prefix s p \<longleftrightarrow> take (length p) s = p"

definition has_suffix :: "string \<Rightarrow> string \<Rightarrow> bool" where
  "has_suffix s p \<longleftrightarrow> has_prefix (rev s) (rev p)"

definition trim_prefix :: "string \<Rightarrow> string \<Rightarrow> string" where
  "trim_prefix s p = (if has_prefix s p then drop (length p) s else s)"

text \<open>\<open>strings.TrimRight(s, cutset)\<close> for a cutset of one byte.\<close>

definition trim_right :: "string \<Rightarrow> char \<Rightarrow> string" where
  "trim_right s c = rev (dropWhile (\<lambda>x. x = c) (rev s))"

text \<open>\<open>strings.IndexByte\<close> and \<open>bytes.IndexByte\<close>: -1 when the byte does not occur.\<close>

fun index_byte :: "string \<Rightarrow> char \<Rightarrow> int" where
  "index_byte [] c = -1"
| "index_byte (x # xs) c =
     (if x = c then 0 else (let i = index_byte xs c in if i < 0 then -1 else i + 1))"

text \<open>\<open>strings.Split(s, sep)\<close> for a separator of one byte.\<close>

fun split_on :: "char \<Rightarrow> string \<Rightarrow> string list" where
  "split_on c [] = [[]]"
| "split_on c (x # xs) =
     (if x = c then [] # split_on c xs
      else (case split_on c xs of [] \<Rightarrow> [[x]] | p # ps \<Rightarrow> (x # p) # ps))"

text \<open>\<open>strings.SplitN(s, sep, n)\<close>, \<open>n \<ge> 0\<close>: the last part keeps the remaining separators.\<close>

fun split_n :: "nat \<Rightarrow> char \<Rightarrow> string \<Rightarrow> string list" where
  "split_n 0 c s = []"
| "split_n (Suc 0) c s = [s]"
| "split_n (Suc (Suc n)) c s =
     (if c \<in> set s
      then takeWhile (\<lambda>x. x \<noteq> c) s # split_n (Suc n) c (tl (dropWhile (\<lambda>x. x \<noteq> c) s))
      else [s])"

text \<open>\<open>strings.Cut(s, sep)\<close>: the parts before and after the first separator, and whether it occurs.\<close>

definition cut :: "string \<Rightarrow> char \<Rightarrow> string \<times> string \<times> bool" where
  "cut s c =
     (if c \<in> set s
      then (takeWhile (\<lambda>x. x \<noteq> c) s, tl (dropWhile (\<lambda>x. x \<noteq> c) s), True)
      else (s, [], False))"

text \<open>\<open>strings.Contains\<close>.\<close>

fun contains :: "string \<Rightarrow> string \<Rightarrow> bool" where
  "contains [] p \<longleftrightarrow> p = []"
| "contains (x # xs) p \<longleftrightarrow> has_prefix (x # xs) p \<or> contains xs p"

lemma has_prefix_append [simp]: "has_prefix (p @ s) p"
  by (simp add: has_prefix_def)

lemma trim_prefix_append [simp]: "trim_prefix (p @ s) p = s"
  by (simp add: trim_prefix_def)

lemma trim_prefix_unchanged: "\<not> has_prefix s p \<Longrightarrow> trim_prefix s p = s"
  by (simp add: trim_prefix_def)

lemma has_prefix_split: "has_prefix s p \<Longrightarrow> s = p @ trim_prefix s p"
  using append_take_drop_id [of "length p" s] by (simp add: trim_prefix_def has_prefix_def)

lemma trim_prefix_changed: "trim_prefix s p \<noteq> s \<Longrightarrow> s = p @ trim_prefix s p"
  using trim_prefix_unchanged has_prefix_split by blast

lemma index_byte_ge: "-1 \<le> index_byte s c"
  by (induction s c rule: index_byte.induct) (auto simp: Let_def)

lemma index_byte_absent: "index_byte s c < 0 \<longleftrightarrow> c \<notin> set s"
  by (induction s c rule: index_byte.induct) (auto simp: Let_def)

lemma index_byte_append [simp]:
  "c \<notin> set xs \<Longrightarrow> index_byte (xs @ c # ys) c = int (length xs)"
  by (induction xs) (auto simp: Let_def)

lemma index_byte_split:
  assumes "index_byte s c = int n"
  shows "s = take n s @ c # drop (Suc n) s \<and> c \<notin> set (take n s)"
  using assms
proof (induction s arbitrary: n)
  case Nil
  then show ?case by simp
next
  case (Cons x xs)
  show ?case
  proof (cases "x = c")
    case True
    with Cons.prems show ?thesis by simp
  next
    case False
    with Cons.prems have i: "0 \<le> index_byte xs c" "int n = index_byte xs c + 1"
      by (auto simp: Let_def split: if_splits)
    then have "n = Suc (nat (index_byte xs c))" by linarith
    then obtain m where "n = Suc m" "index_byte xs c = int m"
      using i(1) by (metis int_nat_eq)
    with Cons.IH [of m] False show ?thesis by auto
  qed
qed

lemma split_on_not_Nil [simp]: "split_on c s \<noteq> []"
  by (induction c s rule: split_on.induct) (auto split: list.splits)

lemma split_on_no_sep: "c \<notin> set s \<Longrightarrow> split_on c s = [s]"
  by (induction s) auto

lemma split_on_append: "c \<notin> set xs \<Longrightarrow> split_on c (xs @ c # ys) = xs # split_on c ys"
  by (induction xs) auto

text \<open>Joining the parts with the separator gives the string back.\<close>

fun join :: "char \<Rightarrow> string list \<Rightarrow> string" where
  "join c [] = []"
| "join c [p] = p"
| "join c (p # q # ps) = p @ c # join c (q # ps)"

lemma join_Cons: "ps \<noteq> [] \<Longrightarrow> join c (p # ps) = p @ c # join c ps"
  by (cases ps) auto

lemma join_split_on: "join c (split_on c s) = s"
proof (induction s)
  case (Cons x xs)
  obtain p ps where s: "split_on c xs = p # ps"
    by (cases "split_on c xs") auto
  with Cons show ?case
    by (cases ps) (auto simp: join_Cons)
qed simp

lemma split_on_no_sep_parts: "\<forall>p \<in> set (split_on c s). c \<notin> set p"
  by (induction c s rule: split_on.induct) (auto split: list.splits)

lemma split_n_append:
  "c \<notin> set xs \<Longrightarrow> split_n (Suc (Suc n)) c (xs @ c # ys) = xs # split_n (Suc n) c ys"
  by simp

lemma split_n_2_append:
  "c \<notin> set xs \<Longrightarrow> split_n 2 c (xs @ c # ys) = [xs, ys]"
  by (simp add: numeral_2_eq_2)

lemma split_n_4_append:
  "c \<notin> set p \<Longrightarrow> c \<notin> set q \<Longrightarrow> c \<notin> set r \<Longrightarrow>
   split_n 4 c (p @ c # q @ c # r @ c # s) = [p, q, r, s]"
  by (simp add: eval_nat_numeral)

lemma split_n_split:
  "split_n (Suc (Suc n)) c s = p # q # ps \<longleftrightarrow>
   (\<exists>s'. s = p @ c # s' \<and> c \<notin> set p \<and> split_n (Suc n) c s' = q # ps)"
proof (cases "c \<in> set s")
  case True
  then obtain xs ys where s: "s = xs @ c # ys" "c \<notin> set xs" by (blast dest: split_list_first)
  then show ?thesis by (auto simp: append_sep_inject)
next
  case False
  then show ?thesis by auto
qed

lemma split_n_2: "split_n 2 c s = [p, q] \<longleftrightarrow> s = p @ c # q \<and> c \<notin> set p"
  by (auto simp: numeral_2_eq_2 split_n_split simp del: split_n.simps(3))

lemma split_n_4:
  "split_n 4 c s = [p, q, r, t] \<longleftrightarrow>
   s = p @ c # q @ c # r @ c # t \<and> c \<notin> set p \<and> c \<notin> set q \<and> c \<notin> set r"
  by (auto simp: eval_nat_numeral split_n_split simp del: split_n.simps(3))

lemma cut_append [simp]: "c \<notin> set xs \<Longrightarrow> cut (xs @ c # ys) c = (xs, ys, True)"
  by (simp add: cut_def)

section \<open>Case and white space\<close>

definition to_lower_char :: "char \<Rightarrow> char" where
  "to_lower_char c =
     (let n = (of_char c :: nat) in if 65 \<le> n \<and> n \<le> 90 then char_of (n + 32) else c)"

text \<open>
  \<open>strings.ToLower\<close>, on the ASCII letters. The code only searches or compares the result with
  lower-case ASCII words without \<open>i\<close> and \<open>k\<close> (the only letters a non-ASCII capital can
  fold to), on which the full Unicode mapping agrees with this one.
\<close>

definition to_lower :: "string \<Rightarrow> string" where
  "to_lower s = map to_lower_char s"

text \<open>
  \<open>strings.EqualFold(s, t)\<close> for an ASCII \<open>t\<close>, as the code always calls it. Besides the
  ASCII letters, simple folding identifies U+017F (bytes C5 BF) with \<open>s\<close> and U+212A (bytes
  E2 84 AA) with \<open>k\<close>; no other rune folds to an ASCII one.
\<close>

fun fold_ascii :: "string \<Rightarrow> string" where
  "fold_ascii [] = []"
| "fold_ascii (a # b # c # s) =
     (if a = CHR 0xE2 \<and> b = CHR 0x84 \<and> c = CHR 0xAA then CHR ''k'' # fold_ascii s
      else if a = CHR 0xC5 \<and> b = CHR 0xBF then CHR ''s'' # fold_ascii (c # s)
      else to_lower_char a # fold_ascii (b # c # s))"
| "fold_ascii [a, b] =
     (if a = CHR 0xC5 \<and> b = CHR 0xBF then ''s'' else [to_lower_char a, to_lower_char b])"
| "fold_ascii [a] = [to_lower_char a]"

definition equal_fold :: "string \<Rightarrow> string \<Rightarrow> bool" where
  "equal_fold s t \<longleftrightarrow> fold_ascii s = to_lower t"

text \<open>
  \<open>strings.TrimSpace\<close>: the ASCII and the Unicode white-space runes, in UTF-8.
\<close>

definition go_spaces :: "string list" where
  "go_spaces =
     [[CHR 0x09], [CHR 0x0A], [CHR 0x0B], [CHR 0x0C], [CHR 0x0D], [CHR 0x20],
      [CHR 0xC2, CHR 0x85], [CHR 0xC2, CHR 0xA0], [CHR 0xE1, CHR 0x9A, CHR 0x80],
      [CHR 0xE2, CHR 0x80, CHR 0x80], [CHR 0xE2, CHR 0x80, CHR 0x81],
      [CHR 0xE2, CHR 0x80, CHR 0x82], [CHR 0xE2, CHR 0x80, CHR 0x83],
      [CHR 0xE2, CHR 0x80, CHR 0x84], [CHR 0xE2, CHR 0x80, CHR 0x85],
      [CHR 0xE2, CHR 0x80, CHR 0x86], [CHR 0xE2, CHR 0x80, CHR 0x87],
      [CHR 0xE2, CHR 0x80, CHR 0x88], [CHR 0xE2, CHR 0x80, CHR 0x89],
      [CHR 0xE2, CHR 0x80, CHR 0x8A], [CHR 0xE2, CHR 0x80, CHR 0xA8],
      [CHR 0xE2, CHR 0x80, CHR 0xA9], [CHR 0xE2, CHR 0x80, CHR 0xAF],
      [CHR 0xE2, CHR 0x81, CHR 0x9F], [CHR 0xE3, CHR 0x80, CHR 0x80]]"

function trim_left_seqs :: "string list \<Rightarrow> string \<Rightarrow> string" where
  "trim_left_seqs seqs s =
     (case find (\<lambda>w. w \<noteq> [] \<and> has_prefix s w) seqs of
        None \<Rightarrow> s
      | Some w \<Rightarrow> trim_left_seqs seqs (drop (length w) s))"
  by pat_completeness auto
termination
proof (relation "measure (\<lambda>(_, s). length s)")
  fix seqs :: "string list" and s w
  assume "find (\<lambda>w. w \<noteq> [] \<and> has_prefix s w) seqs = Some w"
  then have "w \<noteq> []" and "has_prefix s w"
    by (auto simp: find_Some_iff)
  then have w: "0 < length w" and "length w \<le> length s"
    by (auto simp: has_prefix_def dest: arg_cong [where f = length])
  then show "((seqs, drop (length w) s), (seqs, s)) \<in> measure (\<lambda>(_, s). length s)"
    using order.strict_trans2 [of 0 "length w" "length s"] by (simp add: diff_less)
qed simp

declare trim_left_seqs.simps [simp del]

definition trim_space :: "string \<Rightarrow> string" where
  "trim_space s =
     rev (trim_left_seqs (map rev go_spaces) (rev (trim_left_seqs go_spaces s)))"

section \<open>Decimal integers\<close>

definition digit_char :: "nat \<Rightarrow> char" where
  "digit_char n = char_of (48 + n)"

definition is_digit :: "char \<Rightarrow> bool" where
  "is_digit c \<longleftrightarrow> 48 \<le> (of_char c :: nat) \<and> (of_char c :: nat) \<le> 57"

fun nat_digits :: "nat \<Rightarrow> string" where
  "nat_digits n =
     (if n < 10 then [digit_char n] else nat_digits (n div 10) @ [digit_char (n mod 10)])"

declare nat_digits.simps [simp del]

text \<open>\<open>fmt\<close>'s \<open>%d\<close>.\<close>

definition format_int :: "int \<Rightarrow> string" where
  "format_int i = (if i < 0 then CHR ''-'' # nat_digits (nat (- i)) else nat_digits (nat i))"

definition digits_value :: "string \<Rightarrow> int" where
  "digits_value s = foldl (\<lambda>v c. 10 * v + (of_char c - 48)) 0 s"

text \<open>
  \<open>strconv.ParseInt(s, 10, 64)\<close>: an optional sign, at least one digit, nothing else, and the value
  must fit an \<open>int64\<close>; any error is \<open>None\<close>.
\<close>

definition parse_digits :: "string \<Rightarrow> int option" where
  "parse_digits s = (if s \<noteq> [] \<and> list_all is_digit s then Some (digits_value s) else None)"

definition parse_int64 :: "string \<Rightarrow> int option" where
  "parse_int64 s =
     (let neg = (case s of c # _ \<Rightarrow> c = CHR ''-'' | [] \<Rightarrow> False);
          body = (case s of c # r \<Rightarrow> if c = CHR ''-'' \<or> c = CHR ''+'' then r else s | [] \<Rightarrow> s)
      in case parse_digits body of
           None \<Rightarrow> None
         | Some n \<Rightarrow>
             (let v = (if neg then - n else n)
              in if - (2 ^ 63) \<le> v \<and> v < 2 ^ 63 then Some v else None))"

lemma of_char_digit_char [simp]: "n < 10 \<Longrightarrow> (of_char (digit_char n) :: nat) = 48 + n"
  by (simp add: digit_char_def)

lemma of_char_digit_char_int [simp]: "n < 10 \<Longrightarrow> (of_char (digit_char n) :: int) = 48 + int n"
  by (metis of_char_digit_char of_nat_add of_nat_numeral of_nat_of_char)

lemma is_digit_digit_char [simp]: "n < 10 \<Longrightarrow> is_digit (digit_char n)"
  by (simp add: is_digit_def)

lemma nat_digits_not_Nil [simp]: "nat_digits n \<noteq> []"
  by (subst nat_digits.simps) simp

lemma nat_digits_digits: "list_all is_digit (nat_digits n)"
proof (induction n rule: nat_digits.induct)
  case (1 n)
  then show ?case
    by (cases "n < 10") (simp_all add: nat_digits.simps [of n])
qed

lemma digits_value_snoc: "digits_value (s @ [c]) = 10 * digits_value s + (of_char c - 48)"
  by (simp add: digits_value_def)

lemma digits_value_nonneg: "list_all is_digit s \<Longrightarrow> 0 \<le> digits_value s"
proof (induction s rule: rev_induct)
  case (snoc c s)
  then have "48 \<le> int (of_char c)" by (simp add: is_digit_def)
  with snoc show ?case by (simp add: digits_value_snoc of_nat_of_char)
qed (simp add: digits_value_def)

lemma digits_value_nat_digits: "digits_value (nat_digits n) = int n"
proof (induction n rule: nat_digits.induct)
  case (1 n)
  show ?case
  proof (cases "n < 10")
    case True
    then show ?thesis by (simp add: nat_digits.simps [of n] digits_value_def)
  next
    case False
    have "int n = 10 * int (n div 10) + int (n mod 10)" by presburger
    with False 1 show ?thesis by (simp add: nat_digits.simps [of n] digits_value_snoc)
  qed
qed

lemma parse_digits_nat_digits [simp]: "parse_digits (nat_digits n) = Some (int n)"
  by (simp add: parse_digits_def nat_digits_digits digits_value_nat_digits)

lemma is_digit_no_sign: "is_digit c \<Longrightarrow> c \<noteq> CHR ''-'' \<and> c \<noteq> CHR ''+''"
  by (auto simp: is_digit_def)

lemma parse_int64_digits:
  assumes "list_all is_digit s" and "s \<noteq> []"
  shows "parse_int64 s = (if digits_value s < 2 ^ 63 then Some (digits_value s) else None)"
proof -
  obtain c r where s: "s = c # r" using assms(2) by (cases s) auto
  with assms(1) have "c \<noteq> CHR ''-''" "c \<noteq> CHR ''+''"
    by (auto dest: is_digit_no_sign)
  with s assms(1) digits_value_nonneg [of s] show ?thesis
    by (simp add: parse_int64_def parse_digits_def Let_def)
qed

text \<open>The round trip of \<open>%d\<close> and \<open>ParseInt\<close> on every \<open>int64\<close>.\<close>

lemma parse_int64_format_int:
  assumes "int64 i"
  shows "parse_int64 (format_int i) = Some i"
proof (cases "i < 0")
  case True
  then show ?thesis
    using assms by (simp add: parse_int64_def format_int_def int64_def)
next
  case False
  then have "parse_int64 (format_int i) = parse_int64 (nat_digits (nat i))"
    by (simp add: format_int_def)
  also have "\<dots> = Some i"
    using False assms
    by (simp add: parse_int64_digits nat_digits_digits digits_value_nat_digits int64_def)
  finally show ?thesis .
qed

lemma digit_neq:
  "\<not> is_digit c \<Longrightarrow> c \<noteq> CHR ''-'' \<Longrightarrow> c \<notin> set (format_int i)"
  using nat_digits_digits by (auto simp: format_int_def list_all_iff)

lemma format_int_no_sep [simp]:
  "CHR ''.'' \<notin> set (format_int i)" "CHR ''/'' \<notin> set (format_int i)" "CHR ''|'' \<notin> set (format_int i)"
  by (rule digit_neq; simp add: is_digit_def)+

lemma format_int_not_Nil [simp]: "format_int i \<noteq> []"
  by (simp add: format_int_def)

lemma format_int_inject [simp]: "format_int i = format_int j \<longleftrightarrow> i = j"
proof
  assume eq: "format_int i = format_int j"
  have neg: "format_int k = CHR ''-'' # s \<Longrightarrow> k < 0" for k s
  proof (rule ccontr)
    assume h: "format_int k = CHR ''-'' # s" "\<not> k < 0"
    then have "list_all is_digit (CHR ''-'' # s)"
      using nat_digits_digits [of "nat k"] by (simp add: format_int_def)
    then show False by (simp add: is_digit_def)
  qed
  have dig: "nat_digits m = nat_digits n \<Longrightarrow> m = n" for m n
    by (metis digits_value_nat_digits of_nat_eq_iff)
  show "i = j"
  proof (cases "i < 0")
    case True
    with eq neg have "j < 0" by (metis format_int_def)
    with True eq dig have "nat (- i) = nat (- j)" by (simp add: format_int_def)
    with True \<open>j < 0\<close> show ?thesis by simp
  next
    case False
    with eq neg have "\<not> j < 0" by (metis format_int_def)
    with False eq dig have "nat i = nat j" by (simp add: format_int_def)
    with False \<open>\<not> j < 0\<close> show ?thesis by simp
  qed
qed simp

end
