(* ===== verification/Crypto.thy ===== *)
theory Crypto
  imports GoStrings
begin

unbundle bit_operations_syntax

text \<open>
  The parts of Go's \<open>crypto/sha256\<close>, \<open>crypto/hmac\<close>, \<open>encoding/base64\<close> and \<open>encoding/hex\<close> the
  bridge signs with, written out so that tokens are concrete strings, and \<open>DeriveKey\<close> of
  \<open>internal/bridge/secrets.go\<close>. Lemmas: every digest has 32 bytes; the base64 alphabet contains
  none of the separators of tokens and URLs; the encoding is injective.
\<close>

section \<open>SHA-256 and HMAC\<close>

type_synonym u32 = "32 word"

definition sha_k :: "u32 list" where
  "sha_k =
    [1116352408, 1899447441, 3049323471, 3921009573, 961987163, 1508970993, 2453635748, 2870763221,
     3624381080, 310598401, 607225278, 1426881987, 1925078388, 2162078206, 2614888103, 3248222580,
     3835390401, 4022224774, 264347078, 604807628, 770255983, 1249150122, 1555081692, 1996064986,
     2554220882, 2821834349, 2952996808, 3210313671, 3336571891, 3584528711, 113926993, 338241895,
     666307205, 773529912, 1294757372, 1396182291, 1695183700, 1986661051, 2177026350, 2456956037,
     2730485921, 2820302411, 3259730800, 3345764771, 3516065817, 3600352804, 4094571909, 275423344,
     430227734, 506948616, 659060556, 883997877, 958139571, 1322822218, 1537002063, 1747873779,
     1955562222, 2024104815, 2227730452, 2361852424, 2428436474, 2756734187, 3204031479, 3329325298]"

definition sha_init :: "u32 list" where
  "sha_init =
    [1779033703, 3144134277, 1013904242, 2773480762, 1359893119, 2600822924, 528734635, 1541459225]"

definition rotr :: "nat \<Rightarrow> u32 \<Rightarrow> u32" where
  "rotr n w = drop_bit n w OR push_bit (32 - n) w"

definition be32 :: "u32 \<Rightarrow> bytes" where
  "be32 w = [ucast (drop_bit 24 w), ucast (drop_bit 16 w), ucast (drop_bit 8 w), ucast w]"

text \<open>\<open>binary.BigEndian.Uint32\<close> on the first four bytes.\<close>

definition from_be32 :: "bytes \<Rightarrow> u32" where
  "from_be32 bs = foldl (\<lambda>v b. push_bit 8 v OR ucast b) 0 (take 4 bs)"

fun words_of :: "bytes \<Rightarrow> u32 list" where
  "words_of (a # b # c # d # r) = from_be32 [a, b, c, d] # words_of r"
| "words_of _ = []"

fun sha_extend :: "nat \<Rightarrow> u32 list \<Rightarrow> u32 list" where
  "sha_extend 0 w = w"
| "sha_extend (Suc n) w =
     (let t = length w;
          x = w ! (t - 15); s0 = rotr 7 x XOR rotr 18 x XOR drop_bit 3 x;
          y = w ! (t - 2); s1 = rotr 17 y XOR rotr 19 y XOR drop_bit 10 y
      in sha_extend n (w @ [s1 + w ! (t - 7) + s0 + w ! (t - 16)]))"

fun sha_round :: "u32 list \<Rightarrow> u32 \<times> u32 \<Rightarrow> u32 list" where
  "sha_round [a, b, c, d, e, f, g, h] (k, w) =
     (let s1 = rotr 6 e XOR rotr 11 e XOR rotr 25 e;
          ch = (e AND f) XOR (NOT e AND g);
          t1 = h + s1 + ch + k + w;
          s0 = rotr 2 a XOR rotr 13 a XOR rotr 22 a;
          maj = (a AND b) XOR (a AND c) XOR (b AND c);
          t2 = s0 + maj
      in [t1 + t2, a, b, c, d + t1, e, f, g])"
| "sha_round st _ = st"

definition sha_block :: "u32 list \<Rightarrow> bytes \<Rightarrow> u32 list" where
  "sha_block st blk =
     map2 (+) st (foldl sha_round st (zip sha_k (sha_extend 48 (words_of blk))))"

definition be64 :: "nat \<Rightarrow> bytes" where
  "be64 n = map (\<lambda>i. ucast (drop_bit i (word_of_nat n :: 64 word))) [56, 48, 40, 32, 24, 16, 8, 0]"

definition sha_pad :: "bytes \<Rightarrow> bytes" where
  "sha_pad m =
     m @ [0x80] @ replicate ((119 - length m mod 64) mod 64) 0 @ be64 (8 * length m)"

fun sha_blocks :: "nat \<Rightarrow> u32 list \<Rightarrow> bytes \<Rightarrow> u32 list" where
  "sha_blocks 0 st m = st"
| "sha_blocks (Suc n) st m = sha_blocks n (sha_block st (take 64 m)) (drop 64 m)"

text \<open>\<open>sha256.Sum256\<close>\<close>

definition sha256 :: "bytes \<Rightarrow> bytes" where
  "sha256 m = concat (map be32 (sha_blocks (length (sha_pad m) div 64) sha_init (sha_pad m)))"

text \<open>\<open>hmac.New(sha256.New, key)\<close>, one \<open>Write\<close>, then \<open>Sum(nil)\<close>.\<close>

definition hmac_sha256 :: "bytes \<Rightarrow> bytes \<Rightarrow> bytes" where
  "hmac_sha256 key m =
     (let k = (if length key > 64 then sha256 key else key);
          k0 = k @ replicate (64 - length k) 0
      in sha256 (map (\<lambda>b. b XOR 0x5c) k0 @ sha256 (map (\<lambda>b. b XOR 0x36) k0 @ m)))"

lemma length_be32 [simp]: "length (be32 w) = 4"
  by (simp add: be32_def)

lemma length_sha_round [simp]: "length (sha_round st kw) = length st"
  by (induction st kw rule: sha_round.induct) (simp_all only: sha_round.simps Let_def list.size)

lemma length_sha_rounds [simp]: "length (foldl sha_round st kws) = length st"
  by (induction kws arbitrary: st) auto

lemma length_sha_blocks [simp]: "length (sha_blocks n st m) = length st"
  by (induction n st m rule: sha_blocks.induct) (auto simp: sha_block_def)

lemma length_concat_be32: "length (concat (map be32 ws)) = 4 * length ws"
  by (induction ws) auto

lemma length_sha256 [simp]: "length (sha256 m) = 32"
  by (simp add: sha256_def length_concat_be32 sha_init_def)

lemma length_hmac_sha256 [simp]: "length (hmac_sha256 key m) = 32"
  by (simp add: hmac_sha256_def Let_def)

text \<open>The padding fills whole blocks, so no byte of the message is left out.\<close>

lemma pad_arith: "r < (64 :: nat) \<Longrightarrow> \<exists>k. r + 9 + (119 - r) mod 64 = 64 * k"
  by (cases "r \<le> 55"; rule exI [of _ "if r \<le> 55 then 1 else 2"]) (auto simp: mod_if)

lemma dvd_round_up: "(l :: nat) = 64 * d + r \<Longrightarrow> r + 9 + z = 64 * k \<Longrightarrow> 64 dvd l + 9 + z"
  by (metis add.assoc dvd_add dvd_triv_left)

lemma sha_pad_blocks: "64 dvd length (sha_pad m)"
proof -
  define r where "r = length m mod 64"
  have m: "length m = 64 * (length m div 64) + r"
    unfolding r_def by (rule mult_div_mod_eq [symmetric])
  have len: "length (sha_pad m) = length m + 9 + (119 - r) mod 64"
    by (simp add: sha_pad_def be64_def r_def)
  obtain k where k: "r + 9 + (119 - r) mod 64 = 64 * k"
    using pad_arith [of r] by (auto simp: r_def)
  show ?thesis
    unfolding len by (rule dvd_round_up [OF m k])
qed

lemma from_be32_be32 [simp]: "from_be32 (be32 w @ r) = w"
proof -
  have "bit (from_be32 (be32 w @ r)) n = bit w n" if "n < 32" for n
  proof -
    consider "24 \<le> n" | "16 \<le> n" "n < 24" | "8 \<le> n" "n < 16" | "n < 8" by linarith
    then show ?thesis
      using that by cases (auto simp: from_be32_def be32_def bit_simps)
  qed
  then show ?thesis by (intro bit_word_eqI) simp
qed

lemma from_be32_be32_end [simp]: "from_be32 (be32 w) = w"
  using from_be32_be32 [of w "[]"] by simp

section \<open>Base64 and hex\<close>

definition b64_alphabet :: string where
  "b64_alphabet = ''ABCDEFGHIJKLMNOPQRSTUVWXYZabcdefghijklmnopqrstuvwxyz0123456789-_''"

definition b64_char :: "nat \<Rightarrow> char" where
  "b64_char n = b64_alphabet ! n"

text \<open>\<open>base64.RawURLEncoding.EncodeToString\<close>: URL alphabet, no padding.\<close>

fun b64url :: "bytes \<Rightarrow> string" where
  "b64url [] = []"
| "b64url [a] = [b64_char (unat a div 4), b64_char (unat a mod 4 * 16)]"
| "b64url [a, b] =
     [b64_char (unat a div 4), b64_char (unat a mod 4 * 16 + unat b div 16),
      b64_char (unat b mod 16 * 4)]"
| "b64url (a # b # c # r) =
     b64_char (unat a div 4) # b64_char (unat a mod 4 * 16 + unat b div 16) #
     b64_char (unat b mod 16 * 4 + unat c div 64) # b64_char (unat c mod 64) # b64url r"

definition hex_digits :: string where "hex_digits = ''0123456789abcdef''"

text \<open>\<open>hex.EncodeToString\<close>\<close>

definition hex_encode :: "bytes \<Rightarrow> string" where
  "hex_encode bs = concat (map (\<lambda>b. [hex_digits ! (unat b div 16), hex_digits ! (unat b mod 16)]) bs)"

text \<open>\<open>subtle.ConstantTimeCompare(x, y) == 1\<close> and \<open>hmac.Equal\<close>: equal lengths and equal bytes.\<close>

definition ct_equal :: "bytes \<Rightarrow> bytes \<Rightarrow> bool" where
  "ct_equal x y \<longleftrightarrow> x = y"

lemma ct_equal_strings [simp]: "ct_equal (to_bytes s) (to_bytes t) \<longleftrightarrow> s = t"
  by (simp add: ct_equal_def)

lemma unat_byte_less [simp]: "unat (b :: byte) < 256"
  using unsigned_less [of b, where 'a = nat] by simp

lemma length_b64_alphabet: "length b64_alphabet = 64"
  by (simp add: b64_alphabet_def)

lemma b64_char_in: "n < 64 \<Longrightarrow> b64_char n \<in> set b64_alphabet"
  by (simp add: b64_char_def length_b64_alphabet)

lemma b64_char_inject:
  assumes "m < 64" and "n < 64"
  shows "b64_char m = b64_char n \<longleftrightarrow> m = n"
proof -
  have "distinct b64_alphabet" by code_simp
  then show ?thesis
    using assms by (simp add: b64_char_def nth_eq_iff_index_eq length_b64_alphabet)
qed

lemma byte_quotients:
  "unat (b :: byte) div 4 < 64" "unat b div 16 < 16" "unat b div 64 < 4"
  using unat_byte_less [of b] by (simp_all add: less_mult_imp_div_less)

lemma sextet_bounds:
  "unat (a :: byte) div 4 < 64" "unat a mod 4 * 16 < 64"
  "unat a mod 4 * 16 + unat (b :: byte) div 16 < 64"
  "unat b mod 16 * 4 < 64" "unat b mod 16 * 4 + unat (c :: byte) div 64 < 64" "unat c mod 64 < 64"
proof -
  have m: "unat a mod 4 < 4" "unat b mod 16 < 16" by simp_all
  note q = byte_quotients(2) [of b] byte_quotients(3) [of c]
  show "unat a div 4 < 64" by (rule byte_quotients)
  show "unat a mod 4 * 16 < 64" using m(1) by linarith
  show "unat a mod 4 * 16 + unat b div 16 < 64" using m(1) q(1) by linarith
  show "unat b mod 16 * 4 < 64" using m(2) by linarith
  show "unat b mod 16 * 4 + unat c div 64 < 64" using m(2) q(2) by linarith
  show "unat c mod 64 < 64" by simp
qed

text \<open>The quotients and remainders a byte is cut into determine it.\<close>

lemma byte_eq_div_mod:
  "unat (a :: byte) div n = unat b div n \<Longrightarrow> unat a mod n = unat b mod n \<Longrightarrow> a = b"
  by (metis div_mult_mod_eq word_unat_eq_iff)

lemma mixed_radix_inject:
  "(m :: nat) * k + q = m' * k + q' \<Longrightarrow> q < k \<Longrightarrow> q' < k \<Longrightarrow> m = m' \<and> q = q'"
proof -
  assume eq: "m * k + q = m' * k + q'" and q: "q < k" "q' < k"
  then have k: "k \<noteq> 0" by simp
  from arg_cong [OF eq, of "\<lambda>n. n div k"] q k have "m = m'" by simp
  with eq show ?thesis by simp
qed

lemmas b64_char_sextet_inject = b64_char_inject [OF sextet_bounds(1) sextet_bounds(1)]
  b64_char_inject [OF sextet_bounds(2) sextet_bounds(2)]
  b64_char_inject [OF sextet_bounds(3) sextet_bounds(3)]
  b64_char_inject [OF sextet_bounds(4) sextet_bounds(4)]
  b64_char_inject [OF sextet_bounds(5) sextet_bounds(5)]
  b64_char_inject [OF sextet_bounds(6) sextet_bounds(6)]

lemma b64url_alphabet: "set (b64url bs) \<subseteq> set b64_alphabet"
  by (induction bs rule: b64url.induct) (auto intro!: b64_char_in sextet_bounds)

lemma b64url_no_sep [simp]:
  "CHR ''.'' \<notin> set (b64url bs)" "CHR ''/'' \<notin> set (b64url bs)" "CHR ''&'' \<notin> set (b64url bs)"
  using b64url_alphabet [of bs] by (auto simp: b64_alphabet_def)

lemma length_b64url: "length (b64url bs) = (4 * length bs + 2) div 3"
  by (induction bs rule: b64url.induct) auto

lemma b64url_inject:
  assumes "b64url xs = b64url ys" and "length xs = length ys"
  shows "xs = ys"
  using assms
proof (induction xs arbitrary: ys rule: b64url.induct)
  case 1
  then show ?case by simp
next
  case (2 a)
  then obtain a' where ys: "ys = [a']" by (cases ys) auto
  with "2.prems" have "unat a div 4 = unat a' div 4" "unat a mod 4 = unat a' mod 4"
    by (auto simp: b64_char_sextet_inject)
  with ys show ?case by (simp add: byte_eq_div_mod)
next
  case (3 a b)
  then obtain a' b' where ys: "ys = [a', b']" by (cases ys; cases "tl ys") auto
  with "3.prems" have e: "unat a div 4 = unat a' div 4"
    "unat a mod 4 * 16 + unat b div 16 = unat a' mod 4 * 16 + unat b' div 16"
    "unat b mod 16 = unat b' mod 16"
    by (auto simp: b64_char_sextet_inject)
  with mixed_radix_inject [OF e(2) byte_quotients(2) byte_quotients(2)]
  show ?case unfolding ys by (auto intro: byte_eq_div_mod)
next
  case (4 a b c r)
  then obtain a' b' c' r' where ys: "ys = a' # b' # c' # r'"
    by (cases ys; cases "tl ys"; cases "tl (tl ys)") auto
  with "4.prems" have e: "unat a div 4 = unat a' div 4"
    "unat a mod 4 * 16 + unat b div 16 = unat a' mod 4 * 16 + unat b' div 16"
    "unat b mod 16 * 4 + unat c div 64 = unat b' mod 16 * 4 + unat c' div 64"
    "unat c mod 64 = unat c' mod 64" and r: "r = r'"
    using "4.IH" [of r'] by (auto simp: b64_char_sextet_inject)
  from mixed_radix_inject [OF e(2) byte_quotients(2) byte_quotients(2)]
    mixed_radix_inject [OF e(3) byte_quotients(3) [THEN less_le_trans]] byte_quotients(3)
  have "a = a'" "b = b'" "c = c'"
    using e mixed_radix_inject [OF e(3)] by (auto intro: byte_eq_div_mod)
  with ys r show ?case by simp
qed

text \<open>Two digests have the same encoding only when they are equal.\<close>

lemma b64url_hmac_inject [simp]:
  "b64url (hmac_sha256 k m) = b64url (hmac_sha256 k' m') \<longleftrightarrow> hmac_sha256 k m = hmac_sha256 k' m'"
  by (auto intro: b64url_inject)

section \<open>Derived keys\<close>

text \<open>\<open>DeriveKey\<close> of \<open>internal/bridge/secrets.go\<close>, and the two labels \<open>main.go\<close> derives with.\<close>

definition derive_key :: "bytes \<Rightarrow> string \<Rightarrow> bytes" where
  "derive_key master label = hmac_sha256 master (to_bytes label)"

definition oauth_key :: "bytes \<Rightarrow> bytes" where
  "oauth_key master = derive_key master ''oauth-tokens-v1''"

definition stream_key :: "bytes \<Rightarrow> bytes" where
  "stream_key master = derive_key master ''stream-urls-v1''"

lemma derive_key_not_Nil [simp]: "derive_key m l \<noteq> []"
  using length_hmac_sha256 [of m "to_bytes l"] unfolding derive_key_def by fastforce

end
