(* ===== verification/Http.thy ===== *)
theory Http
  imports GoStrings
begin

text \<open>
  The parts of \<open>net/http\<close>, \<open>net/url\<close> and \<open>encoding/json\<close> the handlers are written over: a
  request as the handler sees it, a response, a decoded JSON value (\<open>map[string]any\<close> and
  \<open>any\<close>), and the parsing of a query string (\<open>url.ParseQuery\<close>, \<open>Values.Get\<close>).
\<close>

section \<open>JSON values\<close>

text \<open>
  A value of Go's \<open>any\<close> as \<open>json.Unmarshal\<close> fills it. An object is an association list with its
  keys in no particular order; no handler reads a number.
\<close>

datatype json =
    JNull
  | JBool bool
  | JNum int
  | JStr string
  | JList "json list"
  | JObj "(string \<times> json) list"

type_synonym jobject = "(string \<times> json) list"

text \<open>The type assertions \<open>v, ok := m[k].(string)\<close> and its kin.\<close>

definition get_str :: "jobject \<Rightarrow> string \<Rightarrow> string option" where
  "get_str m k = (case map_of m k of Some (JStr s) \<Rightarrow> Some s | _ \<Rightarrow> None)"

definition get_list :: "jobject \<Rightarrow> string \<Rightarrow> json list option" where
  "get_list m k = (case map_of m k of Some (JList xs) \<Rightarrow> Some xs | _ \<Rightarrow> None)"

definition get_obj :: "jobject \<Rightarrow> string \<Rightarrow> jobject option" where
  "get_obj m k = (case map_of m k of Some (JObj o') \<Rightarrow> Some o' | _ \<Rightarrow> None)"

section \<open>Requests and responses\<close>

text \<open>
  \<open>body_json\<close> is what \<open>json.NewDecoder(r.Body).Decode\<close> makes of the body (\<open>None\<close>: it fails), and
  \<open>form\<close> what \<open>r.ParseForm\<close> makes of it (\<open>None\<close>: it fails). \<open>header\<close> and \<open>form\<close> are read with
  \<open>Get\<close>, which gives the empty string for an absent key.
\<close>

record http_request =
  req_method :: string
  path :: string
  raw_query :: string
  header :: "string \<Rightarrow> string"
  remote_addr :: string
  basic_auth :: "(string \<times> string) option"
  form :: "(string \<Rightarrow> string) option"
  body_json :: "jobject option"

datatype body =
    NoBody
  | TextBody string
  | JsonBody jobject

record http_response =
  status :: nat
  content :: body

definition http_error :: "string \<Rightarrow> nat \<Rightarrow> http_response" where
  "http_error msg code = \<lparr>status = code, content = TextBody msg\<rparr>"

definition no_content :: http_response where
  "no_content = \<lparr>status = 204, content = NoBody\<rparr>"

definition json_response :: "nat \<Rightarrow> jobject \<Rightarrow> http_response" where
  "json_response code o' = \<lparr>status = code, content = JsonBody o'\<rparr>"

lemma status_simps [simp]:
  "status (http_error msg code) = code" "status no_content = 204"
  "status (json_response code o') = code"
  by (simp_all add: http_error_def no_content_def json_response_def)

section \<open>Addresses\<close>

text \<open>
  \<open>net.SplitHostPort\<close>, its host result (\<open>None\<close>: an error): \<open>host:port\<close> or \<open>[v6]:port\<close>.
\<close>

definition split_host :: "string \<Rightarrow> string option" where
  "split_host hp =
     (if CHR '':'' \<notin> set hp then None
      else
        let i = length hp - 1 - nat (index_byte (rev hp) CHR '':'') in
        if hd hp = CHR ''['' then
          (let e = index_byte hp CHR '']'' in
           if e < 0 \<or> nat e + 1 = length hp \<or> nat e + 1 \<noteq> i then None
           else if CHR ''['' \<in> set (drop 1 hp) \<or> CHR '']'' \<in> set (drop (nat e + 1) hp) then None
           else Some (take (nat e - 1) (drop 1 hp)))
        else
          (let host = take i hp in
           if CHR '':'' \<in> set host \<or> CHR ''['' \<in> set hp \<or> CHR '']'' \<in> set hp then None
           else Some host))"

section \<open>Query strings\<close>

definition hex_value :: "char \<Rightarrow> nat option" where
  "hex_value c =
     (let n = (of_char c :: nat) in
      if 48 \<le> n \<and> n \<le> 57 then Some (n - 48)
      else if 97 \<le> n \<and> n \<le> 102 then Some (n - 87)
      else if 65 \<le> n \<and> n \<le> 70 then Some (n - 55)
      else None)"

text \<open>\<open>url.QueryUnescape\<close>: \<open>%XX\<close> is a byte, \<open>+\<close> a space; a bad escape is an error.\<close>

fun query_unescape :: "string \<Rightarrow> string option" where
  "query_unescape [] = Some []"
| "query_unescape (c # s) =
     (if c = CHR ''%'' then
        (case s of
           a # b # r \<Rightarrow>
             (case (hex_value a, hex_value b) of
                (Some x, Some y) \<Rightarrow> map_option (Cons (char_of (16 * x + y))) (query_unescape r)
              | _ \<Rightarrow> None)
         | _ \<Rightarrow> None)
      else map_option (Cons (if c = CHR ''+'' then CHR '' '' else c)) (query_unescape s))"

text \<open>
  \<open>URL.Query\<close>: the pairs in order; parts with a semicolon or a bad escape are dropped.
\<close>

definition parse_pair :: "string \<Rightarrow> (string \<times> string) option" where
  "parse_pair p =
     (if CHR '';'' \<in> set p \<or> p = [] then None
      else case cut p CHR ''='' of (k, v, _) \<Rightarrow>
        (case (query_unescape k, query_unescape v) of
           (Some k', Some v') \<Rightarrow> Some (k', v')
         | _ \<Rightarrow> None))"

definition parse_query :: "string \<Rightarrow> (string \<times> string) list" where
  "parse_query q = List.map_filter parse_pair (split_on CHR ''&'' q)"

text \<open>\<open>Values.Get\<close>: the first value of the key, or the empty string.\<close>

definition query_get :: "(string \<times> string) list \<Rightarrow> string \<Rightarrow> string" where
  "query_get q k = (case map_of q k of Some v \<Rightarrow> v | None \<Rightarrow> [])"

text \<open>Bytes that a query value carries unchanged.\<close>

definition query_safe :: "string \<Rightarrow> bool" where
  "query_safe s \<longleftrightarrow> set s \<inter> set ''%+&;'' = {}"

lemma query_unescape_safe: "query_safe s \<Longrightarrow> query_unescape s = Some s"
  by (induction s) (auto simp: query_safe_def)

lemma parse_pair_safe:
  assumes "query_safe k" "CHR ''='' \<notin> set k" "query_safe v"
  shows "parse_pair (k @ CHR ''='' # v) = Some (k, v)"
  using assms by (auto simp: parse_pair_def query_unescape_safe) (auto simp: query_safe_def)

lemma parse_query_three:
  assumes "query_safe k1" "CHR ''='' \<notin> set k1" "query_safe v1"
    "query_safe k2" "CHR ''='' \<notin> set k2" "query_safe v2"
    "query_safe k3" "CHR ''='' \<notin> set k3" "query_safe v3"
  shows "parse_query (k1 @ ''='' @ v1 @ ''&'' @ k2 @ ''='' @ v2 @ ''&'' @ k3 @ ''='' @ v3) =
    [(k1, v1), (k2, v2), (k3, v3)]"
proof -
  have amp: "CHR ''&'' \<notin> set (k @ ''='' @ v)" if "query_safe k" "query_safe v" for k v
    using that by (auto simp: query_safe_def)
  have s: "split_on CHR ''&'' ((k1 @ ''='' @ v1) @ CHR ''&'' # (k2 @ ''='' @ v2) @ CHR ''&'' # k3 @ ''='' @ v3)
      = [k1 @ ''='' @ v1, k2 @ ''='' @ v2, k3 @ ''='' @ v3]"
    using assms by (simp only: split_on_append [OF amp] split_on_no_sep [OF amp])
  show ?thesis
    using s assms by (simp add: parse_query_def parse_pair_safe List.map_filter_simps)
qed

lemma query_safe_format_int [simp]: "query_safe (format_int i)"
  using digit_neq [of _ i] by (auto simp: query_safe_def is_digit_def)

end
