(* ===== verification/Intents.thy ===== *)
theory Intents
  imports Crypto Http "HOL-Library.Char_ord" "HOL-Library.List_Lexorder" "HOL-Library.Multiset"
begin

text \<open>
  Fulfillment of the Smart Home intents, \<open>internal/ghome/intents.go\<close>: SYNC, QUERY, EXECUTE and
  DISCONNECT over the interface \<open>Source\<close>, and the fingerprint of the SYNC answer. Request bodies
  come decoded (\<open>encoding/json\<close>); the fingerprint's JSON text is the parameter \<open>marshal\<close>.
\<close>

section \<open>Cameras and their source\<close>

record camera =
  cam_id :: string
  cam_name :: string
  cam_manufacturer :: string
  cam_model :: string
  cam_online :: bool

definition is_doorbell :: "camera \<Rightarrow> bool" where
  "is_doorbell c \<longleftrightarrow>
     contains (to_lower (cam_model c)) ''doorbell'' \<or> contains (to_lower (cam_name c)) ''doorbell''"

text \<open>The interface \<open>Source\<close>; \<open>Inl\<close> is an error.\<close>

record source =
  list_cameras :: "camera list"
  src_signaling_url :: "string \<Rightarrow> string + string"
  src_hls_url :: "string \<Rightarrow> string + string"
  src_mp4_url :: "string \<Rightarrow> string + string \<times> string"

text \<open>
  What a source promises: it lists only exposed cameras, and refuses every kind of URL for the
  others.
\<close>

locale camera_feed =
  fixes feed :: "'s \<Rightarrow> source"
    and exposed :: "'s \<Rightarrow> string \<Rightarrow> bool"
  assumes lists_exposed: "c \<in> set (list_cameras (feed s)) \<Longrightarrow> exposed s (cam_id c)"
    and refuses_signaling: "\<not> exposed s i \<Longrightarrow> \<exists>e. src_signaling_url (feed s) i = Inl e"
    and refuses_hls: "\<not> exposed s i \<Longrightarrow> \<exists>e. src_hls_url (feed s) i = Inl e"
    and refuses_mp4: "\<not> exposed s i \<Longrightarrow> \<exists>e. src_mp4_url (feed s) i = Inl e"

section \<open>SYNC\<close>

record device =
  dev_id :: string
  dev_type :: string
  dev_traits :: "string list"
  dev_name :: string
  dev_will_report :: bool
  dev_notifies :: bool
  dev_attributes :: jobject
  dev_manufacturer :: string
  dev_model :: string

definition stream_protocols :: "string list" where
  "stream_protocols = [''hls'', ''progressive_mp4'', ''webrtc'']"

definition build_device :: "camera \<Rightarrow> device" where
  "build_device c =
     \<lparr>dev_id = cam_id c,
      dev_type = (if is_doorbell c then ''action.devices.types.DOORBELL'' else ''action.devices.types.CAMERA''),
      dev_traits = ''action.devices.traits.CameraStream'' #
        (if is_doorbell c then [''action.devices.traits.ObjectDetection''] else []),
      dev_name = cam_name c, dev_will_report = True, dev_notifies = True,
      dev_attributes =
        [(''cameraStreamSupportedProtocols'', JList (map JStr stream_protocols)),
         (''cameraStreamNeedAuthToken'', JBool True), (''cameraStreamNeedDrmEncryption'', JBool False)],
      dev_manufacturer = cam_manufacturer c, dev_model = cam_model c\<rparr>"

definition build_sync_devices :: "source \<Rightarrow> device list" where
  "build_sync_devices src = map build_device (list_cameras src)"

definition agent_user_id :: "string \<Rightarrow> string" where
  "agent_user_id configured = (if configured \<noteq> [] then configured else ''unifi-protect-bridge'')"

section \<open>Responses\<close>

datatype command_result =
    StreamWebRTC string string
  | StreamHLS string string
  | StreamMP4 string string string
  | DeviceError string string

datatype payload =
    SyncPayload string "device list"
  | QueryPayload "(string \<times> bool) list"
  | ExecutePayload "command_result list"
  | EmptyPayload
  | NoPayload

record intent_response =
  rsp_id :: string
  rsp_payload :: payload

definition sync_intent :: "string \<Rightarrow> source \<Rightarrow> string \<Rightarrow> intent_response" where
  "sync_intent agent src rid =
     \<lparr>rsp_id = rid, rsp_payload = SyncPayload (agent_user_id agent) (build_sync_devices src)\<rparr>"

text \<open>
  \<open>SyncFingerprint\<close>: \<open>sort.Slice\<close> by id; for devices of one id its order is not specified, for
  distinct ids any sort gives this one.
\<close>

definition sync_fingerprint :: "(string \<times> device list \<Rightarrow> bytes) \<Rightarrow> string \<Rightarrow> source \<Rightarrow> string" where
  "sync_fingerprint marshal agent src =
     hex_encode (sha256 (marshal (agent_user_id agent, sort_key dev_id (build_sync_devices src))))"

section \<open>QUERY\<close>

text \<open>\<open>online[c.ID] = c.Online\<close> for each camera, then a lookup that is false for an absent key.\<close>

fun online_map :: "camera list \<Rightarrow> (string \<times> bool) list \<Rightarrow> (string \<times> bool) list" where
  "online_map [] m = m"
| "online_map (c # cs) m = online_map cs (AList.update (cam_id c) (cam_online c) m)"

definition online_of :: "(string \<times> bool) list \<Rightarrow> string \<Rightarrow> bool" where
  "online_of m i = (case map_of m i of Some b \<Rightarrow> b | None \<Rightarrow> False)"

fun query_devices :: "(string \<times> bool) list \<Rightarrow> string list \<Rightarrow> (string \<times> bool) list \<Rightarrow> (string \<times> bool) list" where
  "query_devices online [] devices = devices"
| "query_devices online (i # is) devices =
     query_devices online is (AList.update i (online_of online i) devices)"

definition query_intent :: "source \<Rightarrow> string \<Rightarrow> string list \<Rightarrow> intent_response" where
  "query_intent src rid ids =
     \<lparr>rsp_id = rid,
      rsp_payload = QueryPayload (query_devices (online_map (list_cameras src) []) ids [])\<rparr>"

section \<open>EXECUTE\<close>

record execution =
  ex_command :: string
  ex_params :: "jobject option"

record exec_command =
  cmd_devices :: "string list"
  cmd_execution :: "execution list"

fun json_strings :: "json list \<Rightarrow> string list" where
  "json_strings [] = []"
| "json_strings (JStr s # js) = s # json_strings js"
| "json_strings (_ # js) = json_strings js"

definition extract_supported_protocols :: "jobject option \<Rightarrow> string list" where
  "extract_supported_protocols params =
     (case params of
        None \<Rightarrow> []
      | Some m \<Rightarrow>
          (case get_list m ''SupportedStreamProtocols'' of None \<Rightarrow> [] | Some js \<Rightarrow> json_strings js))"

fun contains_fold :: "string list \<Rightarrow> string \<Rightarrow> bool" where
  "contains_fold [] n \<longleftrightarrow> False"
| "contains_fold (s # ss) n \<longleftrightarrow> (if equal_fold s n then True else contains_fold ss n)"

datatype protocol = WebRTC | HLS | MP4 | Unsupported

text \<open>The priority rules of \<open>execute\<close>.\<close>

definition select_protocol :: "string list \<Rightarrow> protocol" where
  "select_protocol supported =
     (let use_webrtc = (length supported = 1 \<and> contains_fold supported ''webrtc'');
          use_hls = (\<not> use_webrtc \<and> contains_fold supported ''hls'');
          use_mp4 = (\<not> use_webrtc \<and> \<not> use_hls \<and>
            (length supported = 0 \<or> contains_fold supported ''progressive_mp4''))
      in if use_webrtc then WebRTC else if use_hls then HLS else if use_mp4 then MP4 else Unsupported)"

fun stream_for :: "source \<Rightarrow> protocol \<Rightarrow> string \<Rightarrow> command_result" where
  "stream_for src WebRTC i =
     (case src_signaling_url src i of Inl e \<Rightarrow> DeviceError i ''deviceOffline'' | Inr u \<Rightarrow> StreamWebRTC i u)"
| "stream_for src HLS i =
     (case src_hls_url src i of Inl e \<Rightarrow> DeviceError i ''deviceOffline'' | Inr u \<Rightarrow> StreamHLS i u)"
| "stream_for src MP4 i =
     (case src_mp4_url src i of
        Inl e \<Rightarrow> DeviceError i ''deviceOffline'' | Inr (u, tok) \<Rightarrow> StreamMP4 i u tok)"
| "stream_for src Unsupported i = DeviceError i ''functionNotSupported''"

fun run_executions :: "source \<Rightarrow> string list \<Rightarrow> execution list \<Rightarrow> command_result list" where
  "run_executions src ids [] = []"
| "run_executions src ids (e # es) =
     (if ex_command e \<noteq> ''action.devices.commands.GetCameraStream'' then run_executions src ids es
      else map (stream_for src (select_protocol (extract_supported_protocols (ex_params e)))) ids
           @ run_executions src ids es)"

fun run_commands :: "source \<Rightarrow> exec_command list \<Rightarrow> command_result list" where
  "run_commands src [] = []"
| "run_commands src (c # cs) = run_executions src (cmd_devices c) (cmd_execution c) @ run_commands src cs"

definition execute_intent :: "source \<Rightarrow> string \<Rightarrow> exec_command list \<Rightarrow> intent_response" where
  "execute_intent src rid cmds = \<lparr>rsp_id = rid, rsp_payload = ExecutePayload (run_commands src cmds)\<rparr>"

section \<open>Dispatch\<close>

text \<open>An input with its payload decoded both ways; an undecodable payload is empty, as the code has it.\<close>

record intent_input =
  in_intent :: string
  in_query :: "string list"
  in_execute :: "exec_command list"

record intent_request =
  req_id :: string
  req_inputs :: "intent_input list"

definition handle_intent :: "string \<Rightarrow> source \<Rightarrow> intent_request \<Rightarrow> intent_response" where
  "handle_intent agent src req =
     (let inp = hd (req_inputs req); i = in_intent inp; r = req_id req in
      if i = ''action.devices.SYNC'' then sync_intent agent src r
      else if i = ''action.devices.QUERY'' then query_intent src r (in_query inp)
      else if i = ''action.devices.EXECUTE'' then execute_intent src r (in_execute inp)
      else if i = ''action.devices.DISCONNECT'' then \<lparr>rsp_id = r, rsp_payload = EmptyPayload\<rparr>
      else \<lparr>rsp_id = r, rsp_payload = NoPayload\<rparr>)"

definition fulfill :: "string \<Rightarrow> source \<Rightarrow> intent_request option \<Rightarrow> http_response + intent_response" where
  "fulfill agent src body =
     (case body of
        None \<Rightarrow> Inl (http_error ''bad json'' 400)
      | Some req \<Rightarrow>
          if req_inputs req = [] then Inl (http_error ''no inputs'' 400)
          else Inr (handle_intent agent src req))"

section \<open>Lemmas\<close>

fun result_device :: "command_result \<Rightarrow> string" where
  "result_device (StreamWebRTC i u) = i"
| "result_device (StreamHLS i u) = i"
| "result_device (StreamMP4 i u t) = i"
| "result_device (DeviceError i c) = i"

fun is_stream :: "command_result \<Rightarrow> bool" where
  "is_stream (DeviceError i c) \<longleftrightarrow> False"
| "is_stream _ \<longleftrightarrow> True"

lemma result_device_stream_for [simp]: "result_device (stream_for src p i) = i"
  by (cases p) (auto split: sum.splits prod.splits)

text \<open>The devices asked for a stream, in order: one per device and matching execution.\<close>

definition asked :: "exec_command list \<Rightarrow> string list" where
  "asked cmds =
     concat (map (\<lambda>c. concat (map (\<lambda>e. cmd_devices c)
       (filter (\<lambda>e. ex_command e = ''action.devices.commands.GetCameraStream'') (cmd_execution c)))) cmds)"

lemma run_executions_devices:
  "map result_device (run_executions src ids es) =
   concat (map (\<lambda>e. ids) (filter (\<lambda>e. ex_command e = ''action.devices.commands.GetCameraStream'') es))"
  by (induction es) (simp_all add: comp_def)

lemma run_commands_devices: "map result_device (run_commands src cmds) = asked cmds"
  by (induction cmds) (simp_all add: asked_def run_executions_devices)

lemma run_executions_result:
  "r \<in> set (run_executions src ids es) \<Longrightarrow> \<exists>p i. i \<in> set ids \<and> r = stream_for src p i"
  by (induction es) (auto split: if_splits)

lemma run_commands_result: "r \<in> set (run_commands src cmds) \<Longrightarrow> \<exists>p i. r = stream_for src p i"
  by (induction cmds) (use run_executions_result in fastforce)+

lemma online_map_eq:
  "map_of (online_map cs m) = map_of m ++ map_of (rev (map (\<lambda>c. (cam_id c, cam_online c)) cs))"
  by (induction cs arbitrary: m) (auto simp: update_conv' map_add_def fun_eq_iff split: option.splits)

lemma query_devices_eq:
  "map_of (query_devices online ids m) =
   (\<lambda>i. if i \<in> set ids then Some (online_of online i) else map_of m i)"
  by (induction ids arbitrary: m) (auto simp: update_conv')

lemma distinct_query_devices:
  "distinct (map fst m) \<Longrightarrow> distinct (map fst (query_devices online ids m))"
  by (induction ids arbitrary: m) (simp_all add: distinct_update)

context camera_feed
begin

lemma stream_exposed: "is_stream (stream_for (feed s) p i) \<Longrightarrow> exposed s i"
  using refuses_signaling [of s i] refuses_hls [of s i] refuses_mp4 [of s i]
  by (cases p) (auto split: sum.splits prod.splits)

lemma execute_exposed:
  assumes "r \<in> set (run_commands (feed s) cmds)" and "is_stream r"
  shows "exposed s (result_device r)"
  using run_commands_result [OF assms(1)] assms(2) stream_exposed by auto

lemma query_hidden: "\<not> exposed s i \<Longrightarrow> \<not> online_of (online_map (list_cameras (feed s)) []) i"
  using lists_exposed by (fastforce simp: online_of_def online_map_eq dest: map_of_SomeD split: option.splits)

lemma sync_exposed: "d \<in> set (build_sync_devices (feed s)) \<Longrightarrow> exposed s (dev_id d)"
  using lists_exposed by (auto simp: build_sync_devices_def build_device_def)

end

lemma contains_fold_iff: "contains_fold ss n \<longleftrightarrow> (\<exists>s \<in> set ss. equal_fold s n)"
  by (induction ss) auto

lemma sort_key_dev_unique:
  assumes "mset ds = mset ds'" and "distinct (map dev_id ds)"
  shows "sort_key dev_id ds = sort_key dev_id ds'"
proof (rule properties_for_sort_key)
  show "mset (sort_key dev_id ds') = mset ds" using assms(1) by simp
  show "sorted (map dev_id (sort_key dev_id ds'))" by simp
  fix k assume ks: "k \<in> set (sort_key dev_id ds')"
  have inj: "inj_on dev_id (set ds)" using assms(2) by (simp add: distinct_map)
  have *: "filter (\<lambda>x. dev_id k = dev_id x) xs = (if k \<in> set xs then [k] else [])"
    if "set xs \<subseteq> set ds" "distinct xs" "k \<in> set ds" for xs
  proof -
    have "\<forall>x \<in> set xs. dev_id k = dev_id x \<longleftrightarrow> x = k"
      using that(1,3) inj_on_eq_iff [OF inj] by blast
    then have "filter (\<lambda>x. dev_id k = dev_id x) xs = filter (\<lambda>x. x = k) xs"
      by (intro filter_cong) (rule refl, blast)
    also have "\<dots> = (if k \<in> set xs then [k] else [])"
      using that(2) by (induction xs) (simp add: filter_empty_conv, fastforce simp: filter_empty_conv)
    finally show ?thesis .
  qed
  have s: "set ds' = set ds" "distinct ds" "distinct ds'"
    using assms(2) mset_eq_setD [OF assms(1)] mset_eq_imp_distinct_iff [OF assms(1)]
    unfolding distinct_map by simp_all
  have k: "k \<in> set ds" using ks s(1) by simp
  show "filter (\<lambda>x. dev_id k = dev_id x) (sort_key dev_id ds') = filter (\<lambda>x. dev_id k = dev_id x) ds"
    using * [of "sort_key dev_id ds'"] * [of ds] s k by simp
qed

section \<open>Properties\<close>

text \<open>
  C31: EXECUTE answers every device it is asked for, once per execution of \<open>GetCameraStream\<close> and in
  the order asked, also when one of them fails; other commands are skipped.
\<close>

theorem execute_answers_every_device:
  "\<exists>rs. rsp_payload (execute_intent src r cmds) = ExecutePayload rs \<and> map result_device rs = asked cmds \<and>
     list_all (\<lambda>x. \<exists>p. x = stream_for src p (result_device x)) rs"
proof -
  have "\<exists>p. x = stream_for src p (result_device x)" if "x \<in> set (run_commands src cmds)" for x
    using run_commands_result [OF that] by auto
  then show ?thesis
    by (simp add: execute_intent_def run_commands_devices list_all_iff)
qed

text \<open>
  The stream offered is one the client understands. WebRTC goes only to a client whose single
  protocol it is, HLS and progressive MP4 only to one that lists them or, for MP4, lists nothing;
  and a client is refused only when no rule applies.
\<close>

theorem selected_protocol_supported:
  "case select_protocol ps of
     WebRTC \<Rightarrow> \<exists>p. ps = [p] \<and> equal_fold p ''webrtc''
   | HLS \<Rightarrow> \<exists>p \<in> set ps. equal_fold p ''hls''
   | MP4 \<Rightarrow> ps = [] \<or> (\<exists>p \<in> set ps. equal_fold p ''progressive_mp4'')
   | Unsupported \<Rightarrow> ps \<noteq> [] \<and> \<not> (\<exists>p. ps = [p] \<and> equal_fold p ''webrtc'') \<and>
       \<not> (\<exists>p \<in> set ps. equal_fold p ''hls'' \<or> equal_fold p ''progressive_mp4'')"
  by (cases ps rule: remdups_adj.cases)
    (auto simp: select_protocol_def Let_def contains_fold_iff)

text \<open>
  The fingerprint of the SYNC answer does not depend on the order of the camera list: the same
  cameras, each with its own id, give the same fingerprint, so a restart does not ask Google for a
  needless sync.
\<close>

theorem sync_fingerprint_order_independent:
  assumes "mset (list_cameras src) = mset (list_cameras src')"
    and "distinct (map cam_id (list_cameras src))"
  shows "sync_fingerprint marshal agent src = sync_fingerprint marshal agent src'"
proof -
  have "mset (build_sync_devices src) = mset (build_sync_devices src')"
    using assms(1) by (simp add: build_sync_devices_def)
  moreover have "map dev_id (build_sync_devices src) = map cam_id (list_cameras src)"
    by (simp add: build_sync_devices_def build_device_def)
  ultimately have "sort_key dev_id (build_sync_devices src) = sort_key dev_id (build_sync_devices src')"
    using assms(2) by (intro sort_key_dev_unique) simp_all
  then show ?thesis by (simp add: sync_fingerprint_def)
qed

definition ex_camera :: "string \<Rightarrow> camera" where
  "ex_camera i = \<lparr>cam_id = i, cam_name = ''Porch'', cam_manufacturer = ''Ubiquiti'', cam_model = ''G4 Doorbell'', cam_online = True\<rparr>"

definition ex_source :: "string list \<Rightarrow> source" where
  "ex_source ids =
     \<lparr>list_cameras = map ex_camera ids, src_signaling_url = (\<lambda>_. Inl ''no''), src_hls_url = (\<lambda>_. Inl ''no''),
      src_mp4_url = (\<lambda>_. Inl ''no'')\<rparr>"

theorem sync_fingerprint_order_independent_witness:
  "sync_fingerprint (\<lambda>_. [1]) ''a'' (ex_source [''x'', ''y'']) = sync_fingerprint (\<lambda>_. [1]) ''a'' (ex_source [''y'', ''x''])"
  using sync_fingerprint_order_independent [of "ex_source [''x'', ''y'']" "ex_source [''y'', ''x'']" "\<lambda>_. [1]" "''a''"]
  by (simp add: ex_source_def ex_camera_def)

end
