(* ===== verification/Tokens.thy ===== *)
theory Tokens
  imports Crypto Http
begin

text \<open>
  Expiring credentials. First the contract every signed URL and bearer token of the bridge keeps
  (a locale: what \<open>issue\<close> makes, \<open>accepts\<close> takes until the expiry and not after it), then the
  stream tokens of \<open>internal/api/server.go\<close>: \<open>signToken\<close>, \<open>verifyToken\<close> and the three URL
  builders \<open>SignalingURL\<close>, \<open>HLSURL\<close>, \<open>ProgressiveMP4URL\<close>.
\<close>

section \<open>The contract of an expiring credential\<close>

text \<open>
  \<open>issue c e\<close> is the credential for subject \<open>c\<close> that expires at Unix second \<open>e\<close>;
  \<open>accepts c t x\<close> says that credential \<open>x\<close> is taken for \<open>c\<close> at Unix second \<open>t\<close>.
\<close>

locale expiring_credential =
  fixes issue :: "'c \<Rightarrow> int \<Rightarrow> 'x"
    and accepts :: "'c \<Rightarrow> int \<Rightarrow> 'x \<Rightarrow> bool"
    and subject :: "'c \<Rightarrow> bool"
  assumes accepts_issue: "subject c \<Longrightarrow> int64 e \<Longrightarrow> accepts c t (issue c e) \<longleftrightarrow> t \<le> e"
begin

text \<open>
  Issued at clock reading \<open>now\<close> for \<open>n\<close> whole seconds, a credential is taken at any later
  reading less than \<open>n\<close> seconds after, and refused from \<open>n + 1\<close> seconds on.
\<close>

lemma lifetime:
  assumes "subject c" "sane_clock now" "0 \<le> n" "n < 2 ^ 62"
  shows "accepts c (unix t) (issue c (unix (now + n * second))) \<longleftrightarrow> unix t \<le> unix now + n"
  using accepts_issue [OF assms(1), of "unix now + n"] sane_clock_unix [OF assms(2-4)]
  by (simp add: unix_add_seconds)

lemma fresh:
  assumes "subject c" "sane_clock now" "0 \<le> n" "n < 2 ^ 62" "t \<le> now + n * second"
  shows "accepts c (unix t) (issue c (unix (now + n * second)))"
  using assms lifetime [of c now n t] unix_mono [OF assms(5)] by (simp add: unix_add_seconds)

lemma expired:
  assumes "subject c" "sane_clock now" "0 \<le> n" "n < 2 ^ 62" "now + (n + 1) * second \<le> t"
  shows "\<not> accepts c (unix t) (issue c (unix (now + n * second)))"
  using assms lifetime [of c now n t] unix_mono [OF assms(5)]
  by (simp only: unix_add_seconds)

end

section \<open>Stream tokens\<close>

datatype token_error = BadExp | TokenExpired | BadSignature

text \<open>The message \<open>signToken\<close> writes into the MAC: \<open>"%s|%d"\<close>.\<close>

definition sign_payload :: "string \<Rightarrow> int \<Rightarrow> string" where
  "sign_payload cam exp = cam @ ''|'' @ format_int exp"

definition sign_token :: "bytes \<Rightarrow> string \<Rightarrow> int \<Rightarrow> string" where
  "sign_token key cam exp = b64url (hmac_sha256 key (to_bytes (sign_payload cam exp)))"

text \<open>\<open>verifyToken\<close>: \<open>None\<close> is Go's nil error.\<close>

definition verify_token :: "bytes \<Rightarrow> instant \<Rightarrow> string \<Rightarrow> string \<Rightarrow> string \<Rightarrow> token_error option" where
  "verify_token key now cam exp_str tok =
     (case parse_int64 exp_str of
        None \<Rightarrow> Some BadExp
      | Some exp \<Rightarrow>
          if unix now > exp then Some TokenExpired
          else if \<not> ct_equal (to_bytes (sign_token key cam exp)) (to_bytes tok) then Some BadSignature
          else None)"

definition signaling_url :: "string \<Rightarrow> bytes \<Rightarrow> instant \<Rightarrow> string \<Rightarrow> string" where
  "signaling_url base key now cam =
     (let exp = unix (now + 2 * minute); tok = sign_token key cam exp
      in trim_right base CHR ''/'' @ ''/webrtc/signal?cam='' @ cam @ ''&exp='' @ format_int exp
         @ ''&t='' @ tok)"

definition hls_url :: "string \<Rightarrow> bytes \<Rightarrow> instant \<Rightarrow> string \<Rightarrow> string" where
  "hls_url base key now cam =
     (let exp = unix (now + 1 * hour); tok = sign_token key cam exp
      in trim_right base CHR ''/'' @ ''/hls/'' @ cam @ ''/'' @ format_int exp @ ''/'' @ tok
         @ ''/index.m3u8'')"

definition progressive_mp4_url :: "string \<Rightarrow> bytes \<Rightarrow> instant \<Rightarrow> string \<Rightarrow> string \<times> string" where
  "progressive_mp4_url base key now cam =
     (let exp = unix (now + 1 * hour); sig = sign_token key cam exp
      in (trim_right base CHR ''/'' @ ''/mp4/'' @ cam @ ''/stream.mp4'',
          format_int exp @ ''.'' @ sig))"

text \<open>The message determines the camera and the expiry: the last bar is the separator.\<close>

lemma sign_payload_inject:
  "sign_payload cam exp = sign_payload cam' exp' \<longleftrightarrow> cam = cam' \<and> exp = exp'"
  by (simp add: sign_payload_def append_sep_inject_right)

lemma sign_token_eq:
  "sign_token key cam exp = sign_token key cam' exp' \<longleftrightarrow>
   hmac_sha256 key (to_bytes (sign_payload cam exp)) = hmac_sha256 key (to_bytes (sign_payload cam' exp'))"
  by (simp add: sign_token_def)

lemma sign_token_no_sep [simp]:
  "CHR ''.'' \<notin> set (sign_token k c e)" "CHR ''/'' \<notin> set (sign_token k c e)"
  by (simp_all add: sign_token_def)

lemma query_safe_sign_token [simp]: "query_safe (sign_token k c e)"
  using b64url_alphabet by (fastforce simp: query_safe_def sign_token_def b64_alphabet_def)

lemma sign_token_not_Nil [simp]: "sign_token k c e \<noteq> []"
proof -
  have "length (sign_token k c e) = 43"
    by (simp add: sign_token_def length_b64url)
  then show ?thesis by auto
qed

text \<open>\<open>verifyToken\<close> succeeds on exactly the current, correctly signed tokens.\<close>

lemma verify_token_ok:
  "verify_token key now cam exp_str tok = None \<longleftrightarrow>
   (\<exists>exp. parse_int64 exp_str = Some exp \<and> unix now \<le> exp \<and> tok = sign_token key cam exp)"
  by (auto simp: verify_token_def split: option.splits)

lemma verify_token_signed [simp]:
  "parse_int64 e = Some exp \<Longrightarrow> unix now \<le> exp \<Longrightarrow> verify_token key now cam e (sign_token key cam exp) = None"
  by (simp add: verify_token_ok)

lemma verify_token_issued:
  "int64 e \<Longrightarrow> verify_token key now cam (format_int e) (sign_token key cam e) = None \<longleftrightarrow> unix now \<le> e"
  by (auto simp: verify_token_ok parse_int64_format_int)

lemma verify_token_expired:
  "int64 e \<Longrightarrow> e < unix now \<Longrightarrow> verify_token key now cam (format_int e) tok = Some TokenExpired"
  by (simp add: verify_token_def parse_int64_format_int)

lemma verify_token_monotone:
  assumes "verify_token key now cam e tok = None" and "now' \<le> now"
  shows "verify_token key now' cam e tok = None"
  using assms unix_mono [of now' now] by (fastforce simp: verify_token_ok)

text \<open>
  The bearer token of progressive MP4 and the path token of HLS keep the contract: \<open>stream_cred\<close>
  is the pair of strings both put on the wire.
\<close>

definition stream_cred :: "bytes \<Rightarrow> string \<Rightarrow> int \<Rightarrow> string \<times> string" where
  "stream_cred key cam e = (format_int e, sign_token key cam e)"

definition stream_accepts :: "bytes \<Rightarrow> string \<Rightarrow> int \<Rightarrow> string \<times> string \<Rightarrow> bool" where
  "stream_accepts key cam t = (\<lambda>(e, tok). verify_token key (t * second) cam e tok = None)"

lemma unix_of_seconds [simp]: "unix (t * second) = t"
  by (simp add: unix_def second_def)

interpretation stream: expiring_credential "stream_cred key" "stream_accepts key" "\<lambda>_. True" for key
  by unfold_locales (simp add: stream_cred_def stream_accepts_def verify_token_issued)

lemma stream_accepts_verify:
  "stream_accepts key cam (unix now) (e, tok) \<longleftrightarrow> verify_token key now cam e tok = None"
  by (simp add: stream_accepts_def verify_token_ok)

end
