(* ===== verification/CameraSource.thy ===== *)
theory CameraSource
  imports Intents Tokens
begin

text \<open>
  \<open>internal/bridge/source.go\<close>: the snapshot of the cameras, the allow-list, the RTSP URLs, and the
  generations that order the online flags of the WebSocket against those of a bootstrap. It
  interprets the interface of fulfillment (\<open>camera_feed\<close>).
\<close>

section \<open>State\<close>

text \<open>
  \<open>cs_allowed\<close> is \<open>None\<close> for Go's nil map (all cameras). The generation counts WebSocket flips; it
  is far from its 64-bit bound.
\<close>

record camera_source =
  cs_cameras :: "camera list"
  cs_rtsp_urls :: "string \<Rightarrow> (string \<times> bool) option"
  cs_last_update :: string
  cs_allowed :: "string list option"
  cs_gen :: nat
  cs_online_gen :: "string \<Rightarrow> nat"

text \<open>\<open>SetAllowed\<close>, up to the notification: a list without a non-empty id allows all.\<close>

definition set_allowed :: "string list \<Rightarrow> camera_source \<Rightarrow> camera_source" where
  "set_allowed ids s =
     s\<lparr>cs_allowed := (let ks = filter (\<lambda>i. i \<noteq> []) ids in if ks = [] then None else Some ks)\<rparr>"

definition new_camera_source :: "string list \<Rightarrow> camera_source" where
  "new_camera_source exposed =
     set_allowed exposed
       \<lparr>cs_cameras = [], cs_rtsp_urls = (\<lambda>_. None), cs_last_update = [], cs_allowed = None, cs_gen = 0,
        cs_online_gen = (\<lambda>_. 0)\<rparr>"

definition is_allowed :: "camera_source \<Rightarrow> string \<Rightarrow> bool" where
  "is_allowed s i \<longleftrightarrow> (case cs_allowed s of None \<Rightarrow> True | Some ks \<Rightarrow> i \<in> set ks)"

definition set_last_update :: "string \<Rightarrow> camera_source \<Rightarrow> camera_source" where
  "set_last_update i s = (if i = [] then s else s\<lparr>cs_last_update := i\<rparr>)"

definition set_cameras :: "camera list \<Rightarrow> camera_source \<Rightarrow> camera_source" where
  "set_cameras cams s = s\<lparr>cs_cameras := cams\<rparr>"

section \<open>Online flags\<close>

fun find_camera :: "string \<Rightarrow> camera list \<Rightarrow> camera option" where
  "find_camera i [] = None"
| "find_camera i (c # cs) = (if cam_id c \<noteq> i then find_camera i cs else Some c)"

fun flip_camera :: "string \<Rightarrow> bool \<Rightarrow> camera list \<Rightarrow> camera list" where
  "flip_camera i b [] = []"
| "flip_camera i b (c # cs) = (if cam_id c \<noteq> i then c # flip_camera i b cs else c\<lparr>cam_online := b\<rparr> # cs)"

text \<open>\<open>setOnline\<close>: whether the flag changed, the camera after the call (\<open>None\<close>: not in the snapshot).\<close>

definition set_online :: "string \<Rightarrow> bool \<Rightarrow> camera_source \<Rightarrow> (bool \<times> camera option) \<times> camera_source" where
  "set_online i b s =
     (case find_camera i (cs_cameras s) of
        None \<Rightarrow> ((False, None), s)
      | Some c \<Rightarrow>
          if cam_online c = b then ((False, Some c), s)
          else ((True, Some (c\<lparr>cam_online := b\<rparr>)),
                s\<lparr>cs_cameras := flip_camera i b (cs_cameras s), cs_gen := cs_gen s + 1,
                  cs_online_gen := (cs_online_gen s)(i := cs_gen s + 1)\<rparr>))"

definition online_generation :: "camera_source \<Rightarrow> nat" where
  "online_generation s = cs_gen s"

definition online_changed_since :: "camera_source \<Rightarrow> string \<Rightarrow> nat \<Rightarrow> bool" where
  "online_changed_since s i g \<longleftrightarrow> cs_online_gen s i > g"

section \<open>Reading\<close>

definition snapshot :: "camera_source \<Rightarrow> camera list" where
  "snapshot s = cs_cameras s"

text \<open>A later camera with the same id replaces an earlier one.\<close>

definition snapshot_map :: "camera_source \<Rightarrow> string \<Rightarrow> camera option" where
  "snapshot_map s = map_of (rev (map (\<lambda>c. (cam_id c, c)) (cs_cameras s)))"

definition listed_cameras :: "camera_source \<Rightarrow> camera list" where
  "listed_cameras s =
     (case cs_allowed s of None \<Rightarrow> cs_cameras s | Some ks \<Rightarrow> filter (\<lambda>c. cam_id c \<in> set ks) (cs_cameras s))"

definition err_not_exposed :: string where
  "err_not_exposed = ''camera is not exposed to google home''"

text \<open>\<open>CameraSource\<close> as a \<open>ghome.Source\<close>, over the API server with base URL \<open>base\<close> and key \<open>key\<close>.\<close>

definition source_of :: "string \<Rightarrow> bytes \<Rightarrow> instant \<Rightarrow> camera_source \<Rightarrow> source" where
  "source_of base key now s =
     \<lparr>list_cameras = listed_cameras s,
      src_signaling_url = (\<lambda>i. if \<not> is_allowed s i then Inl err_not_exposed else Inr (signaling_url base key now i)),
      src_hls_url = (\<lambda>i. if \<not> is_allowed s i then Inl err_not_exposed else Inr (hls_url base key now i)),
      src_mp4_url = (\<lambda>i. if \<not> is_allowed s i then Inl err_not_exposed
                         else Inr (progressive_mp4_url base key now i))\<rparr>"

section \<open>RTSP URLs\<close>

definition set_rtsp_url :: "string \<Rightarrow> string \<Rightarrow> bool \<Rightarrow> camera_source \<Rightarrow> camera_source" where
  "set_rtsp_url i url verify s = s\<lparr>cs_rtsp_urls := (cs_rtsp_urls s)(i \<mapsto> (url, verify))\<rparr>"

definition delete_rtsp_url :: "string \<Rightarrow> camera_source \<Rightarrow> camera_source" where
  "delete_rtsp_url i s = s\<lparr>cs_rtsp_urls := (cs_rtsp_urls s)(i := None)\<rparr>"

definition rtsp_url :: "camera_source \<Rightarrow> string \<Rightarrow> string option" where
  "rtsp_url s i = map_option fst (cs_rtsp_urls s i)"

definition rtsp_url_of :: "camera_source \<Rightarrow> string \<Rightarrow> (string \<times> bool) option" where
  "rtsp_url_of s i =
     (case cs_allowed s of
        None \<Rightarrow> cs_rtsp_urls s i
      | Some ks \<Rightarrow> if i \<notin> set ks then None else cs_rtsp_urls s i)"

section \<open>Lemmas\<close>

lemma is_allowed_set_allowed [simp]:
  "is_allowed (set_allowed ids s) i \<longleftrightarrow> (\<forall>k \<in> set ids. k = []) \<or> i \<noteq> [] \<and> i \<in> set ids"
  by (auto simp: is_allowed_def set_allowed_def Let_def filter_empty_conv)

lemma is_allowed_frame [simp]:
  "is_allowed (set_cameras cams s) i = is_allowed s i"
  "is_allowed (set_last_update u s) i = is_allowed s i"
  "is_allowed (set_rtsp_url c url v s) i = is_allowed s i"
  "is_allowed (delete_rtsp_url c s) i = is_allowed s i"
  by (simp_all add: is_allowed_def set_cameras_def set_last_update_def set_rtsp_url_def delete_rtsp_url_def)

lemma is_allowed_set_online [simp]: "set_online c b s = (r, s') \<Longrightarrow> is_allowed s' i = is_allowed s i"
  by (auto simp: set_online_def is_allowed_def split: option.splits if_splits)

lemma rtsp_url_of_allowed: "rtsp_url_of s i = Some e \<longleftrightarrow> is_allowed s i \<and> cs_rtsp_urls s i = Some e"
  by (auto simp: rtsp_url_of_def is_allowed_def split: option.splits)

lemma find_camera_id: "find_camera i cs = Some c \<Longrightarrow> cam_id c = i \<and> c \<in> set cs"
  by (induction cs) (auto split: if_splits)

lemma find_camera_flip:
  "find_camera i (flip_camera j b cs) =
   (if i = j then map_option (cam_online_update (\<lambda>_. b)) (find_camera i cs) else find_camera i cs)"
  by (induction cs) auto

lemma map_cam_id_flip [simp]: "map cam_id (flip_camera i b cs) = map cam_id cs"
  by (induction cs) auto

lemma snapshot_map_find:
  "distinct (map cam_id (cs_cameras s)) \<Longrightarrow> snapshot_map s i = find_camera i (cs_cameras s)"
proof -
  assume d: "distinct (map cam_id (cs_cameras s))"
  have f: "find_camera i cs = map_of (map (\<lambda>c. (cam_id c, c)) cs) i" for cs
    by (induction cs) auto
  have "map_of (rev (map (\<lambda>c. (cam_id c, c)) (cs_cameras s))) = map_of (map (\<lambda>c. (cam_id c, c)) (cs_cameras s))"
    by (subst map_of_inject_set) (simp_all add: d comp_def rev_map flip: rev_map)
  then show ?thesis by (simp add: snapshot_map_def f)
qed

interpretation feed: camera_feed "source_of base key now" is_allowed for base key now
  by unfold_locales
    (auto simp: source_of_def listed_cameras_def is_allowed_def split: option.splits)

section \<open>Properties\<close>

text \<open>
  A camera the user has hidden is invisible to Google. After the allow-list is set to one with
  an id in it but not this camera's, SYNC does not list it, QUERY reports it offline, and EXECUTE
  gives no stream for it, whatever the protocol; and no RTSP URL resolves for it.
\<close>

theorem hidden_camera_invisible:
  assumes "k \<in> set ids" and "k \<noteq> []" and "i \<notin> set ids" and "s' = set_allowed ids s"
  shows "i \<notin> set (map dev_id (build_sync_devices (source_of base key now s'))) \<and>
    \<not> online_of (online_map (list_cameras (source_of base key now s')) []) i \<and>
    i \<notin> set (map result_device (filter is_stream (run_commands (source_of base key now s') cmds))) \<and>
    rtsp_url_of s' i = None"
proof -
  have n: "\<not> is_allowed s' i" using assms by auto
  then have "i \<notin> set (map dev_id (build_sync_devices (source_of base key now s')))"
    using feed.sync_exposed by fastforce
  moreover have "i \<notin> set (map result_device (filter is_stream (run_commands (source_of base key now s') cmds)))"
    using feed.execute_exposed n by fastforce
  moreover have "rtsp_url_of s' i = None"
    using n rtsp_url_of_allowed by (metis not_Some_eq)
  ultimately show ?thesis using feed.query_hidden [OF n] by blast
qed

definition ex_source_state :: camera_source where
  "ex_source_state = set_cameras [ex_camera ''a'', ex_camera ''b''] (new_camera_source [])"

theorem hidden_camera_invisible_witness:
  "''b'' \<notin> set (map dev_id (build_sync_devices (source_of ''u'' [1] 0 (set_allowed [''a''] ex_source_state)))) \<and>
   map dev_id (build_sync_devices (source_of ''u'' [1] 0 ex_source_state)) = [''a'', ''b'']"
  using hidden_camera_invisible [of "''a''" "[''a'']" "''b''" _ ex_source_state "''u''" "[1]" 0 "[]", OF _ _ _ refl]
  by (simp add: ex_source_state_def build_sync_devices_def build_device_def source_of_def listed_cameras_def
      new_camera_source_def set_cameras_def set_allowed_def ex_camera_def)

end
