(* ===== verification/MuxServer.thy ===== *)
theory MuxServer
  imports CameraSource
begin

text \<open>
  The per-camera muxer tables of the HLS and the progressive MP4 server, \<open>internal/hls/server.go\<close>
  and the \<open>Server\<close> of \<open>internal/mp4/muxer.go\<close>: \<open>muxerFor\<close>, \<open>Prune\<close>, \<open>Shutdown\<close> and the routing
  in front of them, over any lookup of RTSP URLs that hides what it must (a locale), and both
  servers wired to the camera source as \<open>cmd/bridge\<close> does it.
\<close>

section \<open>The table\<close>

text \<open>\<open>mx_obj\<close> tells the muxer objects apart; \<open>ms_closed\<close> records the ones \<open>Close\<close> was called on.\<close>

record muxer =
  mx_stream :: string
  mx_url :: string
  mx_verify :: bool
  mx_obj :: nat

record mux_server =
  ms_muxers :: "(string \<times> muxer) list"
  ms_closing :: bool
  ms_next :: nat
  ms_closed :: "nat list"

definition new_mux_server :: mux_server where
  "new_mux_server = \<lparr>ms_muxers = [], ms_closing = False, ms_next = 0, ms_closed = []\<rparr>"

text \<open>\<open>!ok || m.RTSPURL != url || m.VerifyTLS != verifyTLS\<close>\<close>

definition stale :: "(string \<times> bool) option \<Rightarrow> muxer \<Rightarrow> bool" where
  "stale e m \<longleftrightarrow> (case e of None \<Rightarrow> True | Some (url, verify) \<Rightarrow> mx_url m \<noteq> url \<or> mx_verify m \<noteq> verify)"

definition drop_muxer :: "string \<Rightarrow> muxer \<Rightarrow> mux_server \<Rightarrow> mux_server" where
  "drop_muxer cam m s = s\<lparr>ms_muxers := AList.delete cam (ms_muxers s), ms_closed := mx_obj m # ms_closed s\<rparr>"

definition muxer_for ::
  "(string \<Rightarrow> (string \<times> bool) option) \<Rightarrow> string \<Rightarrow> mux_server \<Rightarrow> muxer option \<times> mux_server" where
  "muxer_for lookup cam s =
     (let e = lookup cam;
          cached = map_of (ms_muxers s) cam;
          (cached, s) = (case cached of
             Some m \<Rightarrow> if stale e m then (None, drop_muxer cam m s) else (Some m, s)
           | None \<Rightarrow> (None, s))
      in case e of
           None \<Rightarrow> (None, s)
         | Some (url, verify) \<Rightarrow>
             (case cached of
                Some m \<Rightarrow> (Some m, s)
              | None \<Rightarrow>
                  let m = \<lparr>mx_stream = cam, mx_url = url, mx_verify = verify, mx_obj = ms_next s\<rparr>
                  in (Some m, s\<lparr>ms_muxers := AList.update cam m (ms_muxers s), ms_next := ms_next s + 1\<rparr>)))"

text \<open>\<open>Prune\<close>: the loop over the table, which deletes as it goes.\<close>

fun prune_loop ::
  "(string \<Rightarrow> (string \<times> bool) option) \<Rightarrow> (string \<times> muxer) list \<Rightarrow> mux_server \<Rightarrow> mux_server" where
  "prune_loop lookup [] s = s"
| "prune_loop lookup ((cam, m) # ms) s =
     prune_loop lookup ms (if stale (lookup cam) m then drop_muxer cam m s else s)"

definition prune :: "(string \<Rightarrow> (string \<times> bool) option) \<Rightarrow> mux_server \<Rightarrow> mux_server" where
  "prune lookup s = prune_loop lookup (ms_muxers s) s"

definition shutdown :: "mux_server \<Rightarrow> mux_server" where
  "shutdown s =
     s\<lparr>ms_closing := True, ms_closed := map (\<lambda>e. mx_obj (snd e)) (ms_muxers s) @ ms_closed s, ms_muxers := []\<rparr>"

text \<open>
  The copy of the table in \<open>internal/mp4/muxer.go\<close>, over the lookup's three results: the URL, the
  TLS flag and whether the camera is known. It is the same table, which the equations show.
\<close>

definition look3 :: "(string \<times> bool) option \<Rightarrow> string \<times> bool \<times> bool" where
  "look3 e = (case e of Some (url, verify) \<Rightarrow> (url, verify, True) | None \<Rightarrow> ([], False, False))"

definition mp4_muxer_for ::
  "(string \<Rightarrow> (string \<times> bool) option) \<Rightarrow> string \<Rightarrow> mux_server \<Rightarrow> muxer option \<times> mux_server" where
  "mp4_muxer_for lookup cam s =
     (case look3 (lookup cam) of (url, verify, ok) \<Rightarrow>
        let mux = map_of (ms_muxers s) cam;
            drop = (case mux of Some m \<Rightarrow> \<not> ok \<or> mx_url m \<noteq> url \<or> mx_verify m \<noteq> verify | None \<Rightarrow> False);
            s1 = (if drop then drop_muxer cam (the mux) s else s)
        in if \<not> ok then (None, s1)
           else if mux \<noteq> None \<and> \<not> drop then (mux, s1)
           else
             let m = \<lparr>mx_stream = cam, mx_url = url, mx_verify = verify, mx_obj = ms_next s1\<rparr>
             in (Some m, s1\<lparr>ms_muxers := AList.update cam m (ms_muxers s1), ms_next := ms_next s1 + 1\<rparr>))"

definition mp4_prune :: "(string \<Rightarrow> (string \<times> bool) option) \<Rightarrow> mux_server \<Rightarrow> mux_server" where
  "mp4_prune lookup s =
     fold (\<lambda>(cam, m) s. case look3 (lookup cam) of (url, verify, ok) \<Rightarrow>
             if \<not> ok \<or> mx_url m \<noteq> url \<or> mx_verify m \<noteq> verify then drop_muxer cam m s else s)
       (ms_muxers s) s"

definition mp4_shutdown :: "mux_server \<Rightarrow> mux_server" where
  "mp4_shutdown s =
     (let s1 = fold (\<lambda>e s. s\<lparr>ms_closed := ms_closed s @ [mx_obj (snd e)]\<rparr>) (ms_muxers s) (s\<lparr>ms_closing := True\<rparr>)
      in s1\<lparr>ms_muxers := []\<rparr>)"

lemma stale_look3:
  "look3 e = (url, verify, ok) \<Longrightarrow> stale e m \<longleftrightarrow> \<not> ok \<or> mx_url m \<noteq> url \<or> mx_verify m \<noteq> verify"
  by (auto simp: look3_def stale_def split: option.splits)

lemma mp4_muxer_for_eq [simp]: "mp4_muxer_for = muxer_for"
proof (intro ext)
  fix lookup cam s
  show "mp4_muxer_for lookup cam s = muxer_for lookup cam s"
    by (cases "lookup cam"; cases "map_of (ms_muxers s) cam")
      (simp_all add: mp4_muxer_for_def muxer_for_def look3_def stale_def Let_def split: prod.split)
qed

lemma mp4_prune_eq [simp]: "mp4_prune = prune"
proof (intro ext)
  fix lookup s
  have "fold (\<lambda>(cam, m) s. case look3 (lookup cam) of (url, verify, ok) \<Rightarrow>
      if \<not> ok \<or> mx_url m \<noteq> url \<or> mx_verify m \<noteq> verify then drop_muxer cam m s else s) xs t =
    prune_loop lookup xs t" for xs t
    by (induction lookup xs t rule: prune_loop.induct) (auto simp: stale_look3 split: prod.splits)
  then show "mp4_prune lookup s = prune lookup s" by (simp add: mp4_prune_def prune_def)
qed

text \<open>The order in which the two shutdowns close the muxers is the map's, so only the set matters.\<close>

lemma mp4_shutdown_eq:
  "mp4_shutdown s = (shutdown s)\<lparr>ms_closed := ms_closed s @ map (\<lambda>e. mx_obj (snd e)) (ms_muxers s)\<rparr>"
proof -
  have "fold (\<lambda>e s. s\<lparr>ms_closed := ms_closed s @ [mx_obj (snd e)]\<rparr>) xs t =
    t\<lparr>ms_closed := ms_closed t @ map (\<lambda>e. mx_obj (snd e)) xs\<rparr>" for xs :: "(string \<times> muxer) list" and t :: mux_server
    by (induction xs arbitrary: t) simp_all
  then show ?thesis by (simp add: mp4_shutdown_def shutdown_def)
qed

text \<open>A second contract: a lookup that resolves nothing hidden.\<close>

locale stream_lookup =
  fixes lookup :: "'s \<Rightarrow> string \<Rightarrow> (string \<times> bool) option"
    and exposed :: "'s \<Rightarrow> string \<Rightarrow> bool"
  assumes hides: "\<not> exposed s i \<Longrightarrow> lookup s i = None"

section \<open>Routing\<close>

text \<open>The muxer a request is handed to, and the path it sees there; else the response.\<close>

definition hls_serve ::
  "(string \<Rightarrow> (string \<times> bool) option) \<Rightarrow> http_request \<Rightarrow> mux_server
   \<Rightarrow> (http_response + muxer \<times> string) \<times> mux_server" where
  "hls_serve lookup r s =
     (if ms_closing s then (Inl (http_error ''shutting down'' 503), s)
      else if req_method r = ''OPTIONS'' then (Inl no_content, s)
      else case cut (trim_prefix (path r) ''/'') CHR ''/'' of (cam, rest, _) \<Rightarrow>
        if cam = [] then (Inl (http_error ''missing camera id'' 400), s)
        else case muxer_for lookup cam s of
          (None, s') \<Rightarrow> (Inl (http_error ''unknown camera'' 404), s')
        | (Some m, s') \<Rightarrow> (Inr (m, ''/'' @ rest), s'))"

definition mp4_serve ::
  "(string \<Rightarrow> (string \<times> bool) option) \<Rightarrow> http_request \<Rightarrow> mux_server
   \<Rightarrow> (http_response + muxer \<times> string) \<times> mux_server" where
  "mp4_serve lookup r s =
     (if ms_closing s then (Inl (http_error ''shutting down'' 503), s)
      else
        let p = (if length (path r) > 0 \<and> path r ! 0 = CHR ''/'' then drop 1 (path r) else path r);
            i = index_byte p CHR ''/''
        in if i \<le> 0 then (Inl (http_error ''missing camera id'' 400), s)
           else
             let cam = take (nat i) p; rest = drop (nat i + 1) p
             in if rest \<noteq> ''stream.mp4'' then (Inl (http_error ''404 page not found'' 404), s)
                else case mp4_muxer_for lookup cam s of
                  (None, s') \<Rightarrow> (Inl (http_error ''404 page not found'' 404), s')
                | (Some m, s') \<Rightarrow> (Inr (m, path r), s'))"

section \<open>Invariants of the table\<close>

text \<open>
  Every muxer object ever made is in the table, under its camera's id, or has been closed, once.
\<close>

definition objs :: "mux_server \<Rightarrow> nat list" where
  "objs s = map (\<lambda>e. mx_obj (snd e)) (ms_muxers s)"

definition mux_ok :: "mux_server \<Rightarrow> bool" where
  "mux_ok s \<longleftrightarrow>
     distinct (map fst (ms_muxers s)) \<and> (\<forall>e \<in> set (ms_muxers s). mx_stream (snd e) = fst e) \<and>
     distinct (objs s @ ms_closed s) \<and> set (objs s @ ms_closed s) = {..< ms_next s}"

text \<open>Every muxer of the table dials what the lookup says now.\<close>

definition agrees :: "(string \<Rightarrow> (string \<times> bool) option) \<Rightarrow> mux_server \<Rightarrow> bool" where
  "agrees lookup s \<longleftrightarrow> (\<forall>(c, m) \<in> set (ms_muxers s). lookup c = Some (mx_url m, mx_verify m))"

lemma not_stale: "\<not> stale e m \<longleftrightarrow> e = Some (mx_url m, mx_verify m)"
  by (auto simp: stale_def split: option.splits)

lemma mux_ok_new [simp, inv_intro]: "mux_ok new_mux_server"
  by (simp add: mux_ok_def new_mux_server_def objs_def)

lemma mux_ok_drop [inv_intro]:
  assumes "mux_ok s" and "map_of (ms_muxers s) cam = Some m"
  shows "mux_ok (drop_muxer cam m s)"
proof -
  obtain ys zs where *: "ms_muxers s = ys @ (cam, m) # zs" "AList.delete cam (ms_muxers s) = ys @ zs"
    using delete_present [OF _ assms(2)] assms(1) unfolding mux_ok_def by blast
  have "ms_muxers (drop_muxer cam m s) = ys @ zs" by (simp add: drop_muxer_def *(2))
  moreover have "ms_closed (drop_muxer cam m s) = mx_obj m # ms_closed s" "ms_next (drop_muxer cam m s) = ms_next s"
    by (simp_all add: drop_muxer_def)
  ultimately show ?thesis
    using assms(1) unfolding mux_ok_def objs_def *(1) by auto
qed

lemma mux_ok_add:
  assumes "mux_ok s" and "map_of (ms_muxers s) cam = None" and "mx_obj m = ms_next s" and "mx_stream m = cam"
  shows "mux_ok (s\<lparr>ms_muxers := AList.update cam m (ms_muxers s), ms_next := ms_next s + 1\<rparr>)"
  using assms by (auto simp: mux_ok_def objs_def update_absent map_of_eq_None_iff lessThan_Suc)

lemma mux_ok_muxer_for [inv_intro]:
  assumes "mux_ok s" and "muxer_for lookup cam s = (r, s')"
  shows "mux_ok s'"
proof -
  define s1 where "s1 = (case map_of (ms_muxers s) cam of
    Some m \<Rightarrow> if stale (lookup cam) m then drop_muxer cam m s else s | None \<Rightarrow> s)"
  have ok: "mux_ok s1"
    using assms(1) mux_ok_drop by (auto simp: s1_def split: option.splits)
  show ?thesis
    using assms ok mux_ok_add [OF ok, of cam]
    by (auto simp: muxer_for_def Let_def s1_def drop_muxer_def delete_conv' split: option.splits if_splits prod.splits)
qed

lemma muxer_for_result:
  assumes "muxer_for lookup cam s = (r, s')"
  shows "(r = None \<longleftrightarrow> lookup cam = None) \<and>
    (\<forall>m. r = Some m \<longrightarrow> lookup cam = Some (mx_url m, mx_verify m) \<and> map_of (ms_muxers s') cam = Some m) \<and>
    (lookup cam = None \<longrightarrow> map_of (ms_muxers s') cam = None) \<and> ms_closing s' = ms_closing s \<and>
    (\<forall>c. c \<noteq> cam \<longrightarrow> map_of (ms_muxers s') c = map_of (ms_muxers s) c)"
  using assms
  by (cases "map_of (ms_muxers s) cam"; cases "lookup cam")
    (auto simp: muxer_for_def Let_def stale_def drop_muxer_def delete_conv' update_conv' split: if_splits)

lemma prune_loop_spec:
  assumes "mux_ok s" and "ms_muxers s = ys @ xs"
  shows "mux_ok (prune_loop lookup xs s) \<and>
    ms_muxers (prune_loop lookup xs s) = ys @ filter (\<lambda>(c, m). \<not> stale (lookup c) m) xs \<and>
    ms_closing (prune_loop lookup xs s) = ms_closing s"
  using assms
proof (induction lookup xs s arbitrary: ys rule: prune_loop.induct)
  case (2 lookup cam m xs s)
  have d: "distinct (map fst (ys @ (cam, m) # xs))"
    using 2(2,3) unfolding mux_ok_def by simp
  have k: "map_of (ms_muxers s) cam = Some m"
    unfolding 2(3) by (rule map_of_is_SomeI [OF d]) simp
  show ?case
  proof (cases "stale (lookup cam) m")
    case True
    obtain us zs where *: "ms_muxers s = us @ (cam, m) # zs" "AList.delete cam (ms_muxers s) = us @ zs"
      using delete_present [OF _ k] 2(2) unfolding mux_ok_def by blast
    then have "us = ys \<and> zs = xs"
      using d 2(3) by (auto simp: append_eq_append_conv2 Cons_eq_append_conv append_eq_Cons_conv)
    with * have "ms_muxers (drop_muxer cam m s) = ys @ xs" by (simp add: drop_muxer_def)
    from 2(1) [unfolded if_P [OF True], OF mux_ok_drop [OF 2(2) k] this] True show ?thesis
      by (simp add: drop_muxer_def)
  next
    case False
    then show ?thesis using 2(1) [of "ys @ [(cam, m)]"] 2(2,3) by simp
  qed
qed simp

lemma prune_spec:
  "mux_ok s \<Longrightarrow> mux_ok (prune lookup s) \<and>
    ms_muxers (prune lookup s) = filter (\<lambda>(c, m). \<not> stale (lookup c) m) (ms_muxers s) \<and>
    ms_closing (prune lookup s) = ms_closing s"
  using prune_loop_spec [of s "[]" "ms_muxers s" lookup] by (simp add: prune_def)

lemma prune_agrees: "mux_ok s \<Longrightarrow> agrees lookup (prune lookup s)"
  using prune_spec [of s lookup] by (auto simp: agrees_def not_stale)

lemma mux_ok_shutdown [inv_intro]: "mux_ok s \<Longrightarrow> mux_ok (shutdown s)"
  by (simp add: mux_ok_def shutdown_def objs_def)

lemma mux_ok_mp4_shutdown [inv_intro]: "mux_ok s \<Longrightarrow> mux_ok (mp4_shutdown s)"
  by (auto simp: mp4_shutdown_eq mux_ok_def shutdown_def objs_def)

lemma closed_prune: "set (ms_closed s) \<subseteq> set (ms_closed (prune lookup s))"
proof -
  have "set (ms_closed s) \<subseteq> set (ms_closed (prune_loop lookup xs s))" for xs
    by (induction lookup xs s rule: prune_loop.induct) (auto simp: drop_muxer_def)
  then show ?thesis by (simp add: prune_def)
qed

lemma prune_closes:
  assumes "mux_ok s" and "(cam, m) \<in> set (ms_muxers s)" and "stale (lookup cam) m"
  shows "mx_obj m \<in> set (ms_closed (prune lookup s)) \<and> mx_obj m \<notin> set (ms_closed s)"
proof -
  have p: "mux_ok (prune lookup s)" "ms_muxers (prune lookup s) = filter (\<lambda>(c, m). \<not> stale (lookup c) m) (ms_muxers s)"
    using prune_spec [OF assms(1)] by simp_all
  have o: "mx_obj m \<in> set (objs s)" using assms(2) by (force simp: objs_def)
  have next_eq: "ms_next (prune_loop lookup xs u) = ms_next u" for xs u
    by (induction lookup xs u rule: prune_loop.induct) (auto simp: drop_muxer_def)
  have "mx_obj m \<notin> set (objs (prune lookup s))"
  proof
    assume "mx_obj m \<in> set (objs (prune lookup s))"
    then obtain c m' where c: "(c, m') \<in> set (ms_muxers s)" "\<not> stale (lookup c) m'" "mx_obj m' = mx_obj m"
      unfolding objs_def p(2) by auto
    have "distinct (map (\<lambda>e. mx_obj (snd e)) (ms_muxers s))" using assms(1) by (simp add: mux_ok_def objs_def)
    then have "inj_on (\<lambda>e. mx_obj (snd e)) (set (ms_muxers s))" by (simp add: distinct_map)
    from inj_onD [OF this _ c(1) assms(2)] have "(c, m') = (cam, m)" using c(3) by simp
    with c assms(3) show False by simp
  qed
  then show ?thesis
    using o assms(1) p(1) by (auto simp: mux_ok_def prune_def next_eq)
qed

text \<open>
  What both servers' routing has in common: the table is untouched, or it is \<open>muxerFor\<close>'s and the muxer
  handed out is in it.
\<close>

definition served ::
  "(string \<Rightarrow> (string \<times> bool) option) \<Rightarrow> mux_server \<Rightarrow> (http_response + muxer \<times> string) \<Rightarrow> mux_server \<Rightarrow> bool" where
  "served lookup s x s' \<longleftrightarrow> s' = s \<and> (\<exists>e. x = Inl e) \<or>
    (\<exists>cam m. muxer_for lookup cam s = (m, s') \<and> \<not> ms_closing s \<and> (\<forall>y. x = Inr y \<longrightarrow> m = Some (fst y)))"

lemma served_closed:
  assumes "served lookup s x t"
  shows "set (ms_closed s) \<subseteq> set (ms_closed t)"
proof -
  have "set (ms_closed s) \<subseteq> set (ms_closed t)" if "muxer_for lookup cam s = (m, t)" for cam m
    using that by (auto simp: muxer_for_def drop_muxer_def Let_def split: option.splits if_splits)
  then show ?thesis using assms by (auto simp: served_def)
qed

lemma served_ok:
  assumes "mux_ok s" and "served lookup s x t"
  shows "mux_ok t \<and> (\<forall>m p. x = Inr (m, p) \<longrightarrow> mx_obj m \<notin> set (ms_closed t))"
  using assms(2) unfolding served_def
proof
  assume "\<exists>cam m. muxer_for lookup cam s = (m, t) \<and> \<not> ms_closing s \<and> (\<forall>y. x = Inr y \<longrightarrow> m = Some (fst y))"
  then obtain cam m where f: "muxer_for lookup cam s = (m, t)" and m: "\<forall>y. x = Inr y \<longrightarrow> m = Some (fst y)" by blast
  have ok: "mux_ok t" by (rule mux_ok_muxer_for [OF assms(1) f])
  moreover have "mx_obj y \<notin> set (ms_closed t)" if "m = Some y" for y
  proof -
    have "map_of (ms_muxers t) cam = Some y" using muxer_for_result [OF f] that by simp
    then have "mx_obj y \<in> set (objs t)" using map_of_SomeD by (force simp: objs_def)
    then show ?thesis using ok by (auto simp: mux_ok_def)
  qed
  ultimately show ?thesis using m by auto
qed (use assms(1) in auto)

lemma hls_serve_cases:
  assumes "hls_serve lookup r s = (x, s')"
  shows "served lookup s x s'"
  using assms by (auto simp: served_def hls_serve_def split: prod.splits if_splits option.splits)

lemma mp4_serve_cases:
  assumes "mp4_serve lookup r s = (x, s')"
  shows "served lookup s x s'"
  using assms by (auto simp: served_def mp4_serve_def Let_def split: prod.splits if_splits option.splits)

lemma not_in_table: "map_of (ms_muxers s) i = None \<longleftrightarrow> i \<notin> fst ` set (ms_muxers s)"
  by (simp add: map_of_eq_None_iff)

context stream_lookup
begin

text \<open>A hidden camera without a muxer gets none, and a prune takes away the one it has.\<close>

lemma muxer_for_hidden:
  assumes "\<not> exposed s i" and "muxer_for (lookup s) cam m = (r, m')" and "i \<notin> fst ` set (ms_muxers m)"
  shows "i \<notin> fst ` set (ms_muxers m')"
  using muxer_for_result [OF assms(2)] hides [OF assms(1)] assms(3)
  by (cases "cam = i") (simp_all add: not_in_table [symmetric])

lemma prune_hidden: "mux_ok m \<Longrightarrow> \<not> exposed s i \<Longrightarrow> i \<notin> fst ` set (ms_muxers (prune (lookup s) m))"
  using prune_spec [of m "lookup s"] hides by (auto simp: not_stale)

lemma served_exposed:
  "muxer_for (lookup s) cam m = (Some x, m') \<Longrightarrow> exposed s cam \<and> lookup s cam = Some (mx_url x, mx_verify x)"
  using muxer_for_result [of "lookup s" cam m "Some x" m'] hides by force

lemma hls_serve_hidden:
  "\<not> exposed s i \<Longrightarrow> hls_serve (lookup s) r m = (x, m') \<Longrightarrow> i \<notin> fst ` set (ms_muxers m) \<Longrightarrow>
   i \<notin> fst ` set (ms_muxers m')"
  using hls_serve_cases [of "lookup s" r m x m'] muxer_for_hidden unfolding served_def by blast

lemma mp4_serve_hidden:
  "\<not> exposed s i \<Longrightarrow> mp4_serve (lookup s) r m = (x, m') \<Longrightarrow> i \<notin> fst ` set (ms_muxers m) \<Longrightarrow>
   i \<notin> fst ` set (ms_muxers m')"
  using mp4_serve_cases [of "lookup s" r m x m'] muxer_for_hidden unfolding served_def by blast

end

interpretation cams: stream_lookup rtsp_url_of is_allowed
  by unfold_locales (metis not_Some_eq rtsp_url_of_allowed)

text \<open>
  A third contract, of a server with its muxers behind it: a muxer that is gone from the table stays
  gone, and each step leads it on. What leads on is for the server to say.
\<close>

locale muxer_fleet =
  fixes step :: "'e \<Rightarrow> 's \<Rightarrow> 's"
    and ok :: "'s \<Rightarrow> bool"
    and gone :: "nat \<Rightarrow> 's \<Rightarrow> bool"
    and live :: "'s \<Rightarrow> nat \<Rightarrow> 'm"
    and leads :: "'m \<Rightarrow> 'm \<Rightarrow> bool"
  assumes ok_step: "ok s \<Longrightarrow> ok (step e s)"
    and leads_refl: "leads m m"
    and leads_trans: "leads a b \<Longrightarrow> leads b c \<Longrightarrow> leads a c"
    and gone_step: "ok s \<Longrightarrow> gone x s \<Longrightarrow> gone x (step e s) \<and> leads (live s x) (live (step e s) x)"
begin

lemma ok_run: "ok s \<Longrightarrow> ok (fold step es s)"
  by (induction es arbitrary: s) (simp_all add: ok_step)

lemma gone_run:
  "ok s \<Longrightarrow> gone x s \<Longrightarrow> gone x (fold step es s) \<and> leads (live s x) (live (fold step es s) x)"
proof (induction es arbitrary: s)
  case (Cons e es)
  note e = gone_step [OF Cons.prems, of e]
  from Cons.IH [OF ok_step [OF Cons.prems(1)]] e leads_trans show ?case by auto
qed (simp add: leads_refl)

end

section \<open>Properties\<close>

text \<open>
  The flag \<open>closing\<close> is tested before the table's lock is taken. A request that has passed the test
  still opens a muxer after \<open>Shutdown\<close> has emptied the table, and nothing closes it any more.
\<close>

theorem muxer_opened_after_shutdown:
  assumes "mux_ok s" and "lookup cam = Some (url, verify)" and "muxer_for lookup cam (shutdown s) = (r, s')"
  shows "\<exists>m. r = Some m \<and> mx_url m = url \<and> ms_closing s' \<and> map_of (ms_muxers s') cam = Some m \<and>
    mx_obj m \<notin> set (ms_closed s')"
proof -
  obtain m where m: "r = Some m" using muxer_for_result [OF assms(3)] assms(2) by (cases r) auto
  moreover have ok: "mux_ok s'" by (rule mux_ok_muxer_for [OF mux_ok_shutdown [OF assms(1)] assms(3)])
  moreover have t: "map_of (ms_muxers s') cam = Some m" "mx_url m = url" "ms_closing s'"
    using muxer_for_result [OF assms(3)] assms(2) m by (auto simp: shutdown_def)
  moreover have "mx_obj m \<in> set (objs s')" using map_of_SomeD [OF t(1)] by (force simp: objs_def)
  ultimately show ?thesis by (auto simp: mux_ok_def)
qed

theorem muxer_opened_after_shutdown_witness:
  "\<exists>m. fst (muxer_for (\<lambda>_. Some (''u'', True)) ''a'' (shutdown new_mux_server)) = Some m"
  using muxer_opened_after_shutdown [OF mux_ok_new, of "\<lambda>_. Some (''u'', True)" "''a''" "''u''" True] prod.collapse
  by metis

end
