(* ===== verification/Unifi.thy ===== *)
theory Unifi
  imports Crypto Http
begin

text \<open>
  The UniFi Protect client, \<open>internal/unifi\<close>: cameras and the choice of their RTSP channel, the
  bootstrap document, the session with its re-login on a 401, and the decoding of the frames of the
  updates WebSocket. The controller's answers are a parameter, a function of the requests it has
  received; \<open>encoding/json\<close> (a parser from bytes to a JSON value) and zlib are parameters as well.
\<close>

section \<open>Cameras and channels\<close>

record channel =
  ch_id :: int
  ch_name :: string
  ch_width :: int
  ch_height :: int
  ch_fps :: int
  ch_bitrate :: int
  ch_alias :: string
  ch_enabled :: bool

record unifi_camera =
  uc_id :: string
  uc_name :: string
  uc_mac :: string
  uc_model :: string
  uc_type :: string
  uc_online :: bool
  uc_mic :: bool
  uc_speaker :: bool
  uc_channels :: "channel list"

text \<open>\<open>ch.Width * ch.Height\<close>: Go's 64-bit \<open>int\<close> wraps.\<close>

definition area :: "channel \<Rightarrow> int" where
  "area ch = sint (word_of_int (ch_width ch * ch_height ch) :: 64 word)"

definition usable :: "channel \<Rightarrow> bool" where
  "usable ch \<longleftrightarrow> ch_enabled ch \<and> ch_alias ch \<noteq> []"

fun best_channel :: "channel option \<Rightarrow> channel list \<Rightarrow> channel option" where
  "best_channel best [] = best"
| "best_channel best (ch # chs) =
     (if \<not> ch_enabled ch \<or> ch_alias ch = [] then best_channel best chs
      else if (case best of None \<Rightarrow> True | Some b \<Rightarrow> area ch > area b) then best_channel (Some ch) chs
      else best_channel best chs)"

definition best_rtsp_channel :: "unifi_camera \<Rightarrow> channel option" where
  "best_rtsp_channel c = best_channel None (uc_channels c)"

text \<open>The host without its port, as \<open>StreamURL\<close> and \<open>IsDirectConnect\<close> cut it.\<close>

definition host_only :: "string \<Rightarrow> string" where
  "host_only host = (let i = index_byte host CHR '':'' in if i \<ge> 0 then take (nat i) host else host)"

definition stream_url :: "string \<Rightarrow> channel \<Rightarrow> string + string" where
  "stream_url host ch =
     (if \<not> ch_enabled ch \<or> ch_alias ch = []
      then Inl (''rtsp disabled on channel '' @ format_int (ch_id ch))
      else Inr (''rtsps://'' @ host_only host @ '':7441/'' @ ch_alias ch))"

definition is_direct_connect :: "string \<Rightarrow> bool" where
  "is_direct_connect host = has_suffix (to_lower (host_only host)) ''.ui.direct''"

definition effective_tls :: "string \<Rightarrow> bool \<Rightarrow> bool" where
  "effective_tls host verify_tls \<longleftrightarrow> verify_tls \<or> is_direct_connect host"

section \<open>The bootstrap document\<close>

record camera_json =
  cj_id :: string
  cj_name :: string
  cj_mac :: string
  cj_model_key :: string
  cj_type :: string
  cj_state :: string
  cj_mic :: bool
  cj_speaker :: bool
  cj_channels :: "channel list"

text \<open>\<open>users\<close> pairs a user's id with the raw JSON text of its \<open>cloudAccount\<close>.\<close>

record bootstrap_json =
  bs_last_update :: string
  bs_auth_user :: string
  bs_cameras :: "camera_json list"
  bs_users :: "(string \<times> string) list"
  bs_nvr_version :: string
  bs_nvr_mac :: string

definition to_camera :: "camera_json \<Rightarrow> unifi_camera" where
  "to_camera c =
     \<lparr>uc_id = cj_id c, uc_name = cj_name c, uc_mac = cj_mac c, uc_model = cj_type c,
      uc_type = cj_model_key c, uc_online = equal_fold (cj_state c) ''CONNECTED'',
      uc_mic = cj_mic c, uc_speaker = cj_speaker c, uc_channels = cj_channels c\<rparr>"

definition to_cameras :: "bootstrap_json \<Rightarrow> unifi_camera list" where
  "to_cameras b = map to_camera (bs_cameras b)"

definition has_cloud_account :: "string \<Rightarrow> bool" where
  "has_cloud_account raw = (let s = trim_space raw in length s > 0 \<and> s \<noteq> ''null'')"

fun cloud_user :: "string \<Rightarrow> (string \<times> string) list \<Rightarrow> bool" where
  "cloud_user i [] \<longleftrightarrow> False"
| "cloud_user i ((u, account) # us) \<longleftrightarrow>
     (if u = i \<and> has_cloud_account account then True else cloud_user i us)"

section \<open>The session\<close>

record unifi_session =
  us_csrf :: string
  us_logged_in :: bool
  us_cloud_only :: bool
  us_nvr_version :: string
  us_nvr_mac :: string

definition new_session :: unifi_session where
  "new_session =
     \<lparr>us_csrf = [], us_logged_in = False, us_cloud_only = False, us_nvr_version = [], us_nvr_mac = []\<rparr>"

text \<open>A request as the controller sees it; \<open>rq_csrf\<close> is empty when the header is not sent.\<close>

record unifi_req =
  rq_method :: string
  rq_path :: string
  rq_csrf :: string

text \<open>An answer: a transport error, or a status, the \<open>X-CSRF-Token\<close> header and the decoded body.\<close>

datatype 'b reply = NetError string | Reply nat string 'b

text \<open>The controller: its answer to the last of the requests it has received.\<close>

type_synonym 'b controller = "unifi_req list \<Rightarrow> 'b reply"

definition login_req :: unifi_req where
  "login_req = \<lparr>rq_method = ''POST'', rq_path = ''/api/auth/login'', rq_csrf = []\<rparr>"

text \<open>\<open>Login\<close>: the error if any, the session and the requests so far.\<close>

definition unifi_login ::
  "'b controller \<Rightarrow> unifi_session \<times> unifi_req list \<Rightarrow> string option \<times> unifi_session \<times> unifi_req list" where
  "unifi_login srv = (\<lambda>(c, h).
     let h1 = h @ [login_req] in
     case srv h1 of
       NetError e \<Rightarrow> (Some (''login: '' @ e), c, h1)
     | Reply st csrf b \<Rightarrow>
         if st \<noteq> 200 then (Some (''login: status '' @ format_int (int st)), c, h1)
         else (None, c\<lparr>us_csrf := csrf, us_logged_in := True\<rparr>, h1))"

definition ensure_auth ::
  "'b controller \<Rightarrow> unifi_session \<times> unifi_req list \<Rightarrow> string option \<times> unifi_session \<times> unifi_req list" where
  "ensure_auth srv = (\<lambda>(c, h). if us_logged_in c then (None, c, h) else unifi_login srv (c, h))"

text \<open>The loop of \<open>do\<close>: \<open>n\<close> attempts are left, of two.\<close>

fun do_attempts ::
  "'b controller \<Rightarrow> string \<Rightarrow> string \<Rightarrow> nat \<Rightarrow> unifi_session \<times> unifi_req list
   \<Rightarrow> (string + nat \<times> 'b) \<times> unifi_session \<times> unifi_req list" where
  "do_attempts srv m p 0 (c, h) = (Inl ''unifi: exhausted retries'', c, h)"
| "do_attempts srv m p (Suc n) (c, h) =
     (let h1 = h @ [\<lparr>rq_method = m, rq_path = p, rq_csrf = us_csrf c\<rparr>] in
      case srv h1 of
        NetError e \<Rightarrow> (Inl e, c, h1)
      | Reply st csrf b \<Rightarrow>
          if st = 401 \<and> Suc n = 2 then
            (case unifi_login srv (c\<lparr>us_logged_in := False\<rparr>, h1) of
               (Some e, c2, h2) \<Rightarrow> (Inl e, c2, h2)
             | (None, c2, h2) \<Rightarrow> do_attempts srv m p n (c2, h2))
          else (Inr (st, b), if csrf \<noteq> [] then c\<lparr>us_csrf := csrf\<rparr> else c, h1))"

definition unifi_do ::
  "'b controller \<Rightarrow> string \<Rightarrow> string \<Rightarrow> unifi_session \<times> unifi_req list
   \<Rightarrow> (string + nat \<times> 'b) \<times> unifi_session \<times> unifi_req list" where
  "unifi_do srv m p s =
     (case ensure_auth srv s of
        (Some e, s1) \<Rightarrow> (Inl e, s1)
      | (None, s1) \<Rightarrow> do_attempts srv m p 2 s1)"

text \<open>\<open>Bootstrap\<close>: the body decodes to a document or not (\<open>None\<close>).\<close>

definition bootstrap ::
  "bootstrap_json option controller \<Rightarrow> unifi_session \<times> unifi_req list
   \<Rightarrow> (string + unifi_camera list \<times> string) \<times> unifi_session \<times> unifi_req list" where
  "bootstrap srv s =
     (case unifi_do srv ''GET'' ''/proxy/protect/api/bootstrap'' s of
        (Inl e, s1) \<Rightarrow> (Inl e, s1)
      | (Inr (st, b), c, h) \<Rightarrow>
          if st \<noteq> 200 then (Inl (''bootstrap: status '' @ format_int (int st)), c, h)
          else case b of
            None \<Rightarrow> (Inl ''bootstrap: decode'', c, h)
          | Some bs \<Rightarrow>
              let cloud_only = bs_auth_user bs \<noteq> [] \<and> cloud_user (bs_auth_user bs) (bs_users bs)
              in (Inr (to_cameras bs, bs_last_update bs),
                  c\<lparr>us_cloud_only := cloud_only, us_nvr_version := bs_nvr_version bs,
                    us_nvr_mac := bs_nvr_mac bs\<rparr>, h))"

text \<open>\<open>Snapshot\<close>, with the body as bytes and the timestamp of its query.\<close>

definition max_snapshot :: nat where "max_snapshot = 8388608"

definition unifi_snapshot ::
  "bytes controller \<Rightarrow> string \<Rightarrow> int \<Rightarrow> unifi_session \<times> unifi_req list
   \<Rightarrow> (string + bytes) \<times> unifi_session \<times> unifi_req list" where
  "unifi_snapshot srv cam now_ms s =
     (case unifi_do srv ''GET''
         (''/proxy/protect/api/cameras/'' @ cam @ ''/snapshot?ts='' @ format_int now_ms) s of
        (Inl e, s1) \<Rightarrow> (Inl e, s1)
      | (Inr (st, b), s1) \<Rightarrow>
          if st \<noteq> 200 then (Inl (''snapshot: status '' @ format_int (int st)), s1)
          else (Inr (take max_snapshot b), s1))"

text \<open>
  The dial of \<open>SubscribeEvents\<close>: the value of the query parameter \<open>lastUpdateId\<close>, if sent, and the
  \<open>X-CSRF-Token\<close> header, if sent. gorilla's dialer answers with a connection, an error with the HTTP
  response that refused the upgrade, or an error without one.
\<close>

record ws_dial =
  dl_last :: "string option"
  dl_csrf :: "string option"

datatype dial_result = DialConn | DialRefused nat string | DialError string

definition subscribe_dial :: "unifi_session \<Rightarrow> string \<Rightarrow> ws_dial" where
  "subscribe_dial c last_id =
     \<lparr>dl_last = (if last_id \<noteq> [] then Some last_id else None),
      dl_csrf = (if us_csrf c \<noteq> [] then Some (us_csrf c) else None)\<rparr>"

definition subscribe_events ::
  "'b controller \<Rightarrow> (ws_dial \<Rightarrow> dial_result) \<Rightarrow> string \<Rightarrow> unifi_session \<times> unifi_req list
   \<Rightarrow> string option \<times> unifi_session \<times> unifi_req list" where
  "subscribe_events srv dial last_id s =
     (case ensure_auth srv s of
        (Some e, s1) \<Rightarrow> (Some e, s1)
      | (None, c, h) \<Rightarrow>
          (case dial (subscribe_dial c last_id) of
             DialConn \<Rightarrow> (None, c, h)
           | DialRefused st body \<Rightarrow>
               (Some (''ws dial: '' @ format_int (int st) @ '': '' @ trim_space body),
                if st = 401 \<or> st = 403 then c\<lparr>us_logged_in := False\<rparr> else c, h)
           | DialError e \<Rightarrow> (Some (''ws dial: '' @ e), c, h)))"

section \<open>Frames of the updates WebSocket\<close>

record ws_action =
  wa_action :: string
  wa_new_update :: string
  wa_model_key :: string
  wa_id :: string

record unifi_event =
  ev_action :: string
  ev_model_key :: string
  ev_id :: string
  ev_new_update :: string
  ev_fields :: jobject

definition no_action :: ws_action where
  "no_action = \<lparr>wa_action = [], wa_new_update = [], wa_model_key = [], wa_id = []\<rparr>"

text \<open>
  \<open>json.Unmarshal\<close> of one string field into a struct that may be filled already: absent and null
  leave it, another type is an error.
\<close>

definition unmarshal_str :: "jobject \<Rightarrow> string \<Rightarrow> string \<Rightarrow> string option" where
  "unmarshal_str m k old =
     (case map_of m k of
        None \<Rightarrow> Some old | Some JNull \<Rightarrow> Some old | Some (JStr s) \<Rightarrow> Some s | _ \<Rightarrow> None)"

definition unmarshal_action :: "json option \<Rightarrow> ws_action \<Rightarrow> ws_action option" where
  "unmarshal_action j a =
     (case j of
        Some JNull \<Rightarrow> Some a
      | Some (JObj m) \<Rightarrow>
          (case (unmarshal_str m ''action'' (wa_action a), unmarshal_str m ''newUpdateId'' (wa_new_update a),
                 unmarshal_str m ''modelKey'' (wa_model_key a), unmarshal_str m ''id'' (wa_id a)) of
             (Some x, Some y, Some z, Some i) \<Rightarrow>
               Some \<lparr>wa_action = x, wa_new_update = y, wa_model_key = z, wa_id = i\<rparr>
           | _ \<Rightarrow> None)
      | _ \<Rightarrow> None)"

text \<open>Into a map: the entries of the document replace those already there.\<close>

definition unmarshal_data :: "json option \<Rightarrow> jobject \<Rightarrow> jobject option" where
  "unmarshal_data j d = (case j of Some (JObj m) \<Rightarrow> Some (m @ d) | _ \<Rightarrow> None)"

text \<open>\<open>io.ReadFull\<close>: \<open>None\<close> when fewer bytes are left.\<close>

definition read_full :: "nat \<Rightarrow> bytes \<Rightarrow> (bytes \<times> bytes) option" where
  "read_full n bs = (if length bs < n then None else Some (take n bs, drop n bs))"

definition max_packet :: int where "max_packet = 4194304"

text \<open>The loop over the packets of a message, \<open>n\<close> of them still to read.\<close>

fun decode_packets ::
  "(bytes \<Rightarrow> json option) \<Rightarrow> (bytes \<Rightarrow> bytes option) \<Rightarrow> nat \<Rightarrow> bytes \<Rightarrow> ws_action \<Rightarrow> jobject
   \<Rightarrow> string + ws_action \<times> jobject" where
  "decode_packets parse inflate 0 buf act data = Inr (act, data)"
| "decode_packets parse inflate (Suc n) buf act data =
     (case read_full 8 buf of
        None \<Rightarrow> Inl ''read header''
      | Some (hdr, r) \<Rightarrow>
          let pkt_type = hdr ! 0; deflated = (hdr ! 2 \<noteq> 0); size = uint (from_be32 (drop 4 hdr)) in
          if size > max_packet then Inl ''packet too large''
          else case read_full (nat size) r of
            None \<Rightarrow> Inl ''read payload''
          | Some (raw, r') \<Rightarrow>
              (case (if deflated then inflate raw else Some raw) of
                 None \<Rightarrow> Inl ''zlib''
               | Some payload \<Rightarrow>
                   if pkt_type = 1 then
                     (case unmarshal_action (parse payload) act of
                        None \<Rightarrow> Inl ''action json''
                      | Some act' \<Rightarrow> decode_packets parse inflate n r' act' data)
                   else if pkt_type = 2 \<and> length payload > 0 \<and> payload ! 0 = 123 then
                     (case unmarshal_data (parse payload) data of
                        None \<Rightarrow> Inl ''data json''
                      | Some data' \<Rightarrow> decode_packets parse inflate n r' act data')
                   else decode_packets parse inflate n r' act data))"

text \<open>\<open>Inr None\<close> is a message without a model key, which carries no event.\<close>

definition decode_event ::
  "(bytes \<Rightarrow> json option) \<Rightarrow> (bytes \<Rightarrow> bytes option) \<Rightarrow> bytes \<Rightarrow> string + unifi_event option" where
  "decode_event parse inflate buf =
     (case decode_packets parse inflate 2 buf no_action [] of
        Inl e \<Rightarrow> Inl e
      | Inr (act, data) \<Rightarrow>
          if wa_model_key act = [] then Inr None
          else Inr (Some \<lparr>ev_action = wa_action act, ev_model_key = wa_model_key act, ev_id = wa_id act,
                          ev_new_update = wa_new_update act, ev_fields = data\<rparr>))"

text \<open>
  The read loop of \<open>SubscribeEvents\<close>: the events put into the channel. A message comes with whether
  its event is taken before the context is cancelled.
\<close>

datatype ws_message = BinaryMessage bytes bool | OtherMessage | ReadError

fun event_pump ::
  "(bytes \<Rightarrow> json option) \<Rightarrow> (bytes \<Rightarrow> bytes option) \<Rightarrow> ws_message list \<Rightarrow> unifi_event list" where
  "event_pump parse inflate [] = []"
| "event_pump parse inflate (ReadError # ms) = []"
| "event_pump parse inflate (OtherMessage # ms) = event_pump parse inflate ms"
| "event_pump parse inflate (BinaryMessage b taken # ms) =
     (case decode_event parse inflate b of
        Inl e \<Rightarrow> event_pump parse inflate ms
      | Inr None \<Rightarrow> event_pump parse inflate ms
      | Inr (Some ev) \<Rightarrow> if taken then ev # event_pump parse inflate ms else [])"

section \<open>Lemmas\<close>

lemma best_channel_mem:
  "best_channel best chs = Some c \<Longrightarrow> best = Some c \<or> c \<in> set chs \<and> usable c"
  by (induction best chs rule: best_channel.induct) (auto simp: usable_def split: if_splits)

lemma best_channel_mono: "\<exists>c. best_channel (Some b) chs = Some c \<and> area b \<le> area c"
proof (induction chs arbitrary: b)
  case (Cons ch chs)
  show ?case using Cons [of b] Cons [of ch] by (auto intro: order_trans)
qed simp

lemma best_channel_max:
  "d \<in> set chs \<Longrightarrow> usable d \<Longrightarrow> \<exists>c. best_channel best chs = Some c \<and> area d \<le> area c"
proof (induction chs arbitrary: best)
  case (Cons ch chs)
  show ?case
  proof (cases "d = ch")
    case True
    have "ch_enabled ch" "ch_alias ch \<noteq> []" using Cons.prems(2) by (simp_all add: True usable_def)
    then show ?thesis
      using best_channel_mono [of ch chs]
      by (cases best) (use best_channel_mono [of "the best" chs] in \<open>auto simp: True intro: order_trans\<close>)
  next
    case False
    then have "d \<in> set chs" using Cons.prems(1) by simp
    then show ?thesis using Cons.IH Cons.prems(2) by simp
  qed
qed simp

lemma area_exact:
  assumes "0 \<le> ch_width c" "0 \<le> ch_height c" "ch_width c * ch_height c < 2 ^ 63"
  shows "area c = ch_width c * ch_height c"
proof -
  have "0 \<le> ch_width c * ch_height c" using assms by simp
  then show ?thesis
    unfolding area_def using assms(3) by (simp only: signed_of_int) (simp add: signed_take_bit_int_eq_self)
qed

lemma unifi_do_logged_in:
  assumes "unifi_do srv m p s = (Inr x, c', h')"
  shows "us_logged_in c'"
proof -
  have a: "us_logged_in c1" if "do_attempts srv m p 2 (c, h) = (Inr x, c1, h1)" "us_logged_in c" for c h c1 h1
    using that
    by (auto simp: numeral_2_eq_2 unifi_login_def Let_def split: reply.splits prod.splits option.splits if_splits)
  have l: "us_logged_in c1" if "ensure_auth srv s = (None, c1, h1)" for c1 h1
    using that
    by (auto simp: ensure_auth_def unifi_login_def Let_def split: reply.splits prod.splits if_splits)
  from assms show ?thesis
    by (auto simp: unifi_do_def split: prod.splits option.splits intro: a l)
qed

lemma bootstrap_logged_in: "bootstrap srv s = (Inr x, c, h) \<Longrightarrow> us_logged_in c"
  by (auto simp: bootstrap_def Let_def split: prod.splits sum.splits option.splits if_splits
      dest!: unifi_do_logged_in)

lemma ensure_auth_spec:
  assumes "ensure_auth srv (c, h) = (e, c', h')"
  shows "h' = (if us_logged_in c then h else h @ [login_req]) \<and> (us_logged_in c \<longrightarrow> e = None \<and> c' = c)"
  using assms by (auto simp: ensure_auth_def unifi_login_def Let_def split: reply.splits if_splits)

lemma subscribe_events_spec:
  assumes "subscribe_events srv dial last_id (c, h) = (r, c', h')"
  shows "h' = (if us_logged_in c then h else h @ [login_req]) \<and>
    (us_logged_in c \<longrightarrow> (us_logged_in c' \<longleftrightarrow>
       (\<forall>st b. dial (subscribe_dial c last_id) = DialRefused st b \<longrightarrow> st \<noteq> 401 \<and> st \<noteq> 403)))"
proof -
  obtain e c1 h1 where a: "ensure_auth srv (c, h) = (e, c1, h1)" by (metis prod.collapse)
  have "h' = h1" using assms a by (auto simp: subscribe_events_def split: option.splits dial_result.splits)
  moreover have "us_logged_in c' \<longleftrightarrow>
       (\<forall>st b. dial (subscribe_dial c last_id) = DialRefused st b \<longrightarrow> st \<noteq> 401 \<and> st \<noteq> 403)"
    if "us_logged_in c"
    using assms a ensure_auth_spec [OF a] that
    by (auto simp: subscribe_events_def split: option.splits dial_result.splits if_splits)
  ultimately show ?thesis using ensure_auth_spec [OF a] by simp
qed

lemma read_full_append [simp]: "length a = n \<Longrightarrow> read_full n (a @ b) = Some (a, b)"
  by (simp add: read_full_def)

text \<open>The framing of one packet as the protocol comment describes it.\<close>

definition packet :: "byte \<Rightarrow> bool \<Rightarrow> bytes \<Rightarrow> bytes" where
  "packet typ deflated payload =
     [typ, 1, if deflated then 1 else 0, 0] @ be32 (word_of_nat (length payload)) @ payload"

lemma decode_packet:
  assumes "length raw \<le> 4194304" and "(if defl then inflate raw else Some raw) = Some payload"
  shows "decode_packets parse inflate (Suc n) (packet typ defl raw @ rest) act data =
    (if typ = 1 then
       (case unmarshal_action (parse payload) act of
          None \<Rightarrow> Inl ''action json''
        | Some act' \<Rightarrow> decode_packets parse inflate n rest act' data)
     else if typ = 2 \<and> length payload > 0 \<and> payload ! 0 = 123 then
       (case unmarshal_data (parse payload) data of
          None \<Rightarrow> Inl ''data json''
        | Some data' \<Rightarrow> decode_packets parse inflate n rest act data')
     else decode_packets parse inflate n rest act data)"
proof -
  let ?h = "[typ, 1, if defl then 1 else 0, 0] @ be32 (word_of_nat (length raw))"
  have h: "read_full 8 (packet typ defl raw @ rest) = Some (?h, raw @ rest)"
    by (simp add: read_full_def packet_def)
  have s: "uint (from_be32 (drop 4 ?h)) = int (length raw)"
    using assms(1) by (simp add: unsigned_of_nat take_bit_nat_eq_self)
  have d: "?h ! 0 = typ" "(?h ! 2 \<noteq> 0) = defl" by simp_all
  show ?thesis
    using assms by (simp only: decode_packets.simps h Let_def s d option.case prod.case)
      (simp add: max_packet_def)
qed

section \<open>Properties\<close>

text \<open>
  The camera's best stream is really its best. \<open>BestRTSPChannel\<close> gives nothing only when no
  channel has RTSP enabled with an alias; else a channel that has, of the largest area among those,
  for which the stream URL exists.
\<close>

theorem best_channel_streams:
  "case best_rtsp_channel c of
     None \<Rightarrow> filter usable (uc_channels c) = []
   | Some b \<Rightarrow> b \<in> set (filter usable (uc_channels c)) \<and>
       list_all (\<lambda>d. area d \<le> area b) (filter usable (uc_channels c)) \<and>
       stream_url host b = Inr (''rtsps://'' @ host_only host @ '':7441/'' @ ch_alias b)"
proof (cases "best_rtsp_channel c")
  case None
  then show ?thesis
    using best_channel_max [of _ "uc_channels c" None] by (auto simp: best_rtsp_channel_def filter_empty_conv)
next
  case (Some b)
  then have "b \<in> set (uc_channels c)" "usable b"
    using best_channel_mem [of None "uc_channels c" b] by (auto simp: best_rtsp_channel_def)
  moreover have "area d \<le> area b" if "d \<in> set (uc_channels c)" "usable d" for d
    using best_channel_max [OF that, of None] Some by (auto simp: best_rtsp_channel_def)
  ultimately show ?thesis using Some by (auto simp: list_all_iff stream_url_def usable_def)
qed

text \<open>
  C32: an authenticated request costs the controller at most four requests, whatever it answers: a
  login, the request, a login after a 401, the request again. A status that comes back answers the
  last of them, which is the request itself; a 401 comes back only right after a fresh login; and
  then the session counts as logged in.
\<close>

theorem unifi_do_bounded:
  assumes "unifi_do srv m p (c, h) = (r, c', h')"
  shows "\<exists>sent. h' = h @ sent \<and> length sent \<le> 4 \<and>
    (\<forall>st b. r = Inr (st, b) \<longrightarrow> us_logged_in c' \<and>
       (\<exists>pre rq csrf. sent = pre @ [rq] \<and> rq_method rq = m \<and> rq_path rq = p \<and> srv h' = Reply st csrf b \<and>
          (st = 401 \<longrightarrow> pre \<noteq> [] \<and> last pre = login_req)))"
proof -
  let ?n = "\<lambda>c. \<lparr>rq_method = m, rq_path = p, rq_csrf = us_csrf c\<rparr>"
  have two: "\<exists>sent. h2 = h1 @ sent \<and> length sent \<le> 3 \<and>
    (\<forall>st b. r = Inr (st, b) \<longrightarrow> us_logged_in c2 \<and>
       (\<exists>pre rq csrf. sent = pre @ [rq] \<and> rq_method rq = m \<and> rq_path rq = p \<and> srv h2 = Reply st csrf b \<and>
          (st = 401 \<longrightarrow> pre \<noteq> [] \<and> last pre = login_req)))"
    if "do_attempts srv m p 2 (c1, h1) = (r, c2, h2)" "us_logged_in c1" for c1 h1 c2 h2
    using that
    by (auto simp: numeral_2_eq_2 unifi_login_def Let_def split: reply.splits prod.splits option.splits if_splits)
  show ?thesis
  proof (cases "us_logged_in c")
    case True
    then show ?thesis
      using assms two [of c h c' h'] by (fastforce simp: unifi_do_def ensure_auth_def)
  next
    case False
    show ?thesis
    proof (cases "unifi_login srv (c, h)")
      case (fields e c1 h1)
      have l: "h1 = h @ [login_req]" "e = None \<Longrightarrow> us_logged_in c1"
        using fields by (auto simp: unifi_login_def Let_def split: reply.splits if_splits)
      show ?thesis
      proof (cases e)
        case None
        then have "do_attempts srv m p 2 (c1, h1) = (r, c', h')"
          using assms fields False by (simp add: unifi_do_def ensure_auth_def)
        from two [OF this l(2) [OF None]] obtain sent where
          s: "h' = h1 @ sent" "length sent \<le> 3" and
          q: "\<forall>st b. r = Inr (st, b) \<longrightarrow> us_logged_in c' \<and>
            (\<exists>pre rq csrf. sent = pre @ [rq] \<and> rq_method rq = m \<and> rq_path rq = p \<and> srv h' = Reply st csrf b \<and>
              (st = 401 \<longrightarrow> pre \<noteq> [] \<and> last pre = login_req))" by blast
        show ?thesis
          using s l(1) q by (intro exI [of _ "login_req # sent"]) (force simp: Cons_eq_append_conv)
      next
        case (Some x)
        then have "r = Inl x" "h' = h1"
          using assms fields False by (auto simp: unifi_do_def ensure_auth_def)
        then show ?thesis by (simp add: l(1))
      qed
    qed
  qed
qed


text \<open>A controller whose session has expired and which takes the next login.\<close>

definition ex_controller :: "unit controller" where
  "ex_controller h =
     (if last h = login_req then Reply 200 ''tok2'' ()
      else if login_req \<in> set h then Reply 200 [] () else Reply 401 [] ())"

theorem unifi_do_bounded_witness:
  "let (r, c', h') = unifi_do ex_controller ''GET'' ''/x''
        (new_session\<lparr>us_logged_in := True, us_csrf := ''tok1''\<rparr>, [])
   in r = Inr (200, ()) \<and> map rq_csrf h' = [''tok1'', [], ''tok2''] \<and> us_logged_in c'"
proof -
  obtain r c' h' where
    run: "unifi_do ex_controller ''GET'' ''/x'' (new_session\<lparr>us_logged_in := True, us_csrf := ''tok1''\<rparr>, []) = (r, c', h')"
    by (cases "unifi_do ex_controller ''GET'' ''/x'' (new_session\<lparr>us_logged_in := True, us_csrf := ''tok1''\<rparr>, [])")
  from run have "r = Inr (200, ()) \<and> map rq_csrf h' = [''tok1'', [], ''tok2'']"
    by (auto simp: unifi_do_def ensure_auth_def new_session_def numeral_2_eq_2 ex_controller_def login_req_def
        unifi_login_def)
  then show ?thesis using run unifi_do_bounded [OF run] by auto
qed

text \<open>
  The event stream recovers from an expired session and from nothing else logs in again. After a
  dial refused with 401 or 403 the next subscription starts with a login; after one that failed in any
  other way, or succeeded, it dials at once with the session it has; and a subscription never costs
  more than one request.
\<close>

theorem subscription_relogs_in:
  assumes "subscribe_events srv dial last_id (c, h) = (r, c1, h1)"
    and "subscribe_events srv dial2 last_id2 (c1, h1) = (r2, c2, h2)"
  shows "h1 = (if us_logged_in c then h else h @ [login_req]) \<and>
    h2 = (if us_logged_in c1 then h1 else h1 @ [login_req]) \<and>
    (us_logged_in c \<longrightarrow> (us_logged_in c1 \<longleftrightarrow>
       (\<forall>st b. dial (subscribe_dial c last_id) = DialRefused st b \<longrightarrow> st \<noteq> 401 \<and> st \<noteq> 403)))"
  using subscribe_events_spec [OF assms(1)] subscribe_events_spec [OF assms(2)] by blast

theorem subscription_relogs_in_witness:
  "let dead = (\<lambda>d. if dl_csrf d = Some ''tok1'' then DialRefused 401 [] else DialConn);
       (r, s1) = subscribe_events ex_controller dead [] (new_session\<lparr>us_logged_in := True, us_csrf := ''tok1''\<rparr>, []);
       (r2, c2, h2) = subscribe_events ex_controller dead [] s1
   in r \<noteq> None \<and> r2 = None \<and> h2 = [login_req] \<and> us_csrf c2 = ''tok2''"
proof -
  let ?dead = "\<lambda>d. if dl_csrf d = Some ''tok1'' then DialRefused 401 [] else DialConn"
  let ?c = "new_session\<lparr>us_logged_in := True, us_csrf := ''tok1''\<rparr>"
  have r: "subscribe_events ex_controller ?dead [] (?c, []) = (Some ''ws dial: 401: '', ?c\<lparr>us_logged_in := False\<rparr>, [])"
    by (simp add: subscribe_events_def ensure_auth_def subscribe_dial_def new_session_def) code_simp
  obtain r2 c2 h2 where
    r2: "subscribe_events ex_controller ?dead [] (?c\<lparr>us_logged_in := False\<rparr>, []) = (r2, c2, h2)"
    by (cases "subscribe_events ex_controller ?dead [] (?c\<lparr>us_logged_in := False\<rparr>, [])")
  have "h2 = [login_req]" using subscription_relogs_in [OF r r2] by (simp add: new_session_def)
  moreover have "r2 = None" "us_csrf c2 = ''tok2''"
    using r2 by (auto simp: subscribe_events_def ensure_auth_def subscribe_dial_def unifi_login_def ex_controller_def)
  ultimately show ?thesis unfolding r r2 Let_def prod.case by simp
qed

text \<open>
  C33: a frame of the updates WebSocket decodes to what was sent. Two packets framed as the protocol
  says, an action and a JSON object, deflated or not and of at most 4 MB on the wire, give the event
  with the action's four fields and the object's entries, or no event when the model key is empty.
\<close>

theorem decode_event_framed:
  assumes "length raw1 \<le> 4194304" and "length raw2 \<le> 4194304"
    and "(if z1 then inflate raw1 else Some raw1) = Some p1"
    and "(if z2 then inflate raw2 else Some raw2) = Some p2"
    and "parse p1 = Some (JObj [(''action'', JStr a), (''newUpdateId'', JStr u), (''modelKey'', JStr k), (''id'', JStr i)])"
    and "parse p2 = Some (JObj obj)" and "p2 \<noteq> []" and "hd p2 = 123"
  shows "decode_event parse inflate (packet 1 z1 raw1 @ packet 2 z2 raw2 @ rest) =
    Inr (if k = [] then None
         else Some \<lparr>ev_action = a, ev_model_key = k, ev_id = i, ev_new_update = u, ev_fields = obj\<rparr>)"
  unfolding decode_event_def numeral_2_eq_2
  using assms(5-8) decode_packet [where inflate = inflate, OF assms(1,3)] decode_packet [where inflate = inflate, OF assms(2,4)]
  by (simp add: unmarshal_action_def unmarshal_str_def unmarshal_data_def hd_conv_nth)

definition ex_parse :: "bytes \<Rightarrow> json option" where
  "ex_parse b =
     (if b = [123, 1] then
        Some (JObj [(''action'', JStr ''update''), (''newUpdateId'', JStr ''u7''), (''modelKey'', JStr ''camera''), (''id'', JStr ''c1'')])
      else if b = [123, 2] then Some (JObj [(''state'', JStr ''DISCONNECTED'')])
      else None)"

theorem decode_event_framed_witness:
  "decode_event ex_parse (\<lambda>z. if z = [9] then Some [123, 2] else None)
     (packet 1 False [123, 1] @ packet 2 True [9]) =
   Inr (Some \<lparr>ev_action = ''update'', ev_model_key = ''camera'', ev_id = ''c1'', ev_new_update = ''u7'',
              ev_fields = [(''state'', JStr ''DISCONNECTED'')]\<rparr>)"
  using decode_event_framed [of "[123, 1]" "[9]" False "\<lambda>z. if z = [9] then Some [123, 2] else None" "[123, 1]" True
      "[123, 2]" ex_parse "''update''" "''u7''" "''camera''" "''c1''" "[(''state'', JStr ''DISCONNECTED'')]" "[]"]
  by (simp add: ex_parse_def)


end
