(* ===== verification/Streams.thy ===== *)
theory Streams
  imports Prelude
begin

text \<open>
  The reference-counted streams of \<open>internal/streams/registry.go\<close>: the \<open>Producer\<close> interface as a
  record of operations with its contract as a locale, \<open>Stream.Acquire\<close> and \<open>release\<close>, and the
  registry that maps names to streams.
\<close>

section \<open>The producer interface\<close>

text \<open>
  \<open>prod_start\<close> is \<open>Producer.Start\<close>: an error, or the tracks. \<open>prod_cancel\<close> is what the cancellation
  of the context passed to \<open>Start\<close> does to the producer, \<open>prod_stop\<close> is \<open>Producer.Stop\<close>.
\<close>

record ('p, 't) producer_ops =
  prod_start :: "'p \<Rightarrow> (string + 't list) \<times> 'p"
  prod_cancel :: "'p \<Rightarrow> 'p"
  prod_stop :: "'p \<Rightarrow> 'p"

text \<open>
  The contract the registry relies on: \<open>alive p\<close> says that the upstream of \<open>p\<close> is open. A failed
  \<open>Start\<close> opens nothing, and \<open>Stop\<close> after the cancellation closes it.
\<close>

locale producer_contract =
  fixes ops :: "('p, 't) producer_ops"
    and valid :: "'p \<Rightarrow> bool"
    and alive :: "'p \<Rightarrow> bool"
  assumes start_valid: "valid p \<Longrightarrow> prod_start ops p = (r, p') \<Longrightarrow> valid p'"
    and cancel_valid: "valid p \<Longrightarrow> valid (prod_cancel ops p)"
    and stop_valid: "valid p \<Longrightarrow> valid (prod_stop ops p)"
    and start_ok: "valid p \<Longrightarrow> prod_start ops p = (Inr ts, p') \<Longrightarrow> alive p'"
    and start_error: "valid p \<Longrightarrow> prod_start ops p = (Inl e, p') \<Longrightarrow> \<not> alive p \<Longrightarrow>
      \<not> alive (prod_cancel ops p')"
    and stop_closes: "valid p \<Longrightarrow> \<not> alive (prod_stop ops p)"

section \<open>Streams\<close>

record ('p, 't) stream =
  stream_name :: string
  producer :: 'p
  tracks :: "'t list"
  refs :: int
  started :: bool
  has_cancel :: bool

definition new_stream :: "string \<Rightarrow> 'p \<Rightarrow> ('p, 't) stream" where
  "new_stream name p =
     \<lparr>stream_name = name, producer = p, tracks = [], refs = 0, started = False, has_cancel = False\<rparr>"

definition acquire ::
  "('p, 't) producer_ops \<Rightarrow> ('p, 't) stream \<Rightarrow> (string + 't list) \<times> ('p, 't) stream" where
  "acquire ops s =
     (if \<not> started s then
        (case prod_start ops (producer s) of
           (Inl err, p) \<Rightarrow> (Inl (''producer start: '' @ err), s\<lparr>producer := prod_cancel ops p\<rparr>)
         | (Inr ts, p) \<Rightarrow>
             if length ts = 0 then
               (Inl ''producer yielded no tracks'', s\<lparr>producer := prod_stop ops (prod_cancel ops p)\<rparr>)
             else
               let s1 = s\<lparr>producer := p, tracks := ts, has_cancel := True, started := True\<rparr>
               in (Inr (tracks s1), s1\<lparr>refs := refs s1 + 1\<rparr>))
      else (Inr (tracks s), s\<lparr>refs := refs s + 1\<rparr>))"

definition release_ref :: "('p, 't) producer_ops \<Rightarrow> ('p, 't) stream \<Rightarrow> ('p, 't) stream" where
  "release_ref ops s =
     (let s1 = s\<lparr>refs := refs s - 1\<rparr>
      in if refs s1 > 0 \<or> \<not> started s1 then s1
         else s1\<lparr>producer := prod_stop ops (prod_cancel ops (producer s1)),
                 started := False, tracks := [], has_cancel := False\<rparr>)"

text \<open>
  The invariant: a stream is running exactly when somebody holds a reference, and a running stream
  has tracks and a cancel function.
\<close>

definition stream_ok :: "('p, 't) stream \<Rightarrow> bool" where
  "stream_ok s \<longleftrightarrow>
     0 \<le> refs s \<and> (started s \<longleftrightarrow> 0 < refs s) \<and> (started s \<longleftrightarrow> tracks s \<noteq> []) \<and>
     (has_cancel s \<longleftrightarrow> started s)"

lemma stream_ok_new [simp, inv_intro]: "stream_ok (new_stream name p)"
  by (simp add: stream_ok_def new_stream_def)

lemma stream_ok_acquire [inv_intro]:
  "stream_ok s \<Longrightarrow> acquire ops s = (r, s') \<Longrightarrow> stream_ok s'"
  by (auto simp: acquire_def stream_ok_def Let_def split: if_splits prod.splits sum.splits)

lemma stream_ok_release [inv_intro]:
  "stream_ok s \<Longrightarrow> 0 < refs s \<Longrightarrow> stream_ok (release_ref ops s)"
  by (auto simp: release_ref_def stream_ok_def Let_def)

lemma acquire_refs:
  "acquire ops s = (r, s') \<Longrightarrow>
   refs s' = (case r of Inl _ \<Rightarrow> refs s | Inr _ \<Rightarrow> refs s + 1) \<and> stream_name s' = stream_name s"
  by (auto simp: acquire_def Let_def split: if_splits prod.splits sum.splits)

lemma acquire_tracks:
  "stream_ok s \<Longrightarrow> acquire ops s = (Inr ts, s') \<Longrightarrow> ts = tracks s' \<and> ts \<noteq> []"
  by (auto simp: acquire_def stream_ok_def Let_def split: if_splits prod.splits sum.splits)

lemma acquire_running:
  "started s \<Longrightarrow> acquire ops s = (Inr (tracks s), s\<lparr>refs := refs s + 1\<rparr>)"
  by (simp add: acquire_def)

lemma release_refs [simp]: "refs (release_ref ops s) = refs s - 1"
  by (simp add: release_ref_def Let_def)

lemma release_name [simp]: "stream_name (release_ref ops s) = stream_name s"
  by (simp add: release_ref_def Let_def)

text \<open>The shared upstream never restarts while somebody holds a reference.\<close>

lemma release_keeps_tracks:
  "1 < refs s \<Longrightarrow> tracks (release_ref ops s) = tracks s \<and> producer (release_ref ops s) = producer s"
  by (simp add: release_ref_def Let_def)

context producer_contract
begin

text \<open>The upstream is open exactly while the stream is running.\<close>

definition upstream_ok :: "('p, 't) stream \<Rightarrow> bool" where
  "upstream_ok s \<longleftrightarrow> stream_ok s \<and> valid (producer s) \<and> (alive (producer s) \<longleftrightarrow> started s)"

lemma upstream_acquire:
  assumes "upstream_ok s" and "acquire ops s = (r, s')"
  shows "upstream_ok s'"
proof -
  have "stream_ok s'" using assms stream_ok_acquire unfolding upstream_ok_def by blast
  moreover have "valid (producer s') \<and> (alive (producer s') \<longleftrightarrow> started s')"
    using assms start_ok start_error stop_closes start_valid cancel_valid stop_valid
    by (auto simp: upstream_ok_def acquire_def Let_def split: if_splits prod.splits sum.splits)
  ultimately show ?thesis by (simp add: upstream_ok_def)
qed

lemma upstream_release:
  assumes "upstream_ok s" and "0 < refs s"
  shows "upstream_ok (release_ref ops s)"
  using assms stream_ok_release [of s ops] stop_closes cancel_valid stop_valid
  by (auto simp: upstream_ok_def release_ref_def stream_ok_def Let_def)

lemma upstream_new: "valid p \<Longrightarrow> \<not> alive p \<Longrightarrow> upstream_ok (new_stream name p)"
  by (simp add: upstream_ok_def new_stream_def stream_ok_def)

end

section \<open>The registry\<close>

text \<open>
  \<open>Registry\<close>: names to streams. A stream is shared by the sessions that hold it, and \<open>Put\<close> under a
  taken name leaves the old stream to its holders; so the registry refers to a stream by an address
  (its Go pointer). The map's own order is not specified in Go; nothing below depends on it.
\<close>

type_synonym registry = "(string \<times> nat) list"

definition reg_put :: "string \<Rightarrow> nat \<Rightarrow> registry \<Rightarrow> registry" where
  "reg_put name a r = AList.update name a r"

definition reg_delete :: "string \<Rightarrow> registry \<Rightarrow> registry" where
  "reg_delete name r = AList.delete name r"

definition reg_get :: "string \<Rightarrow> registry \<Rightarrow> nat option" where
  "reg_get name r = map_of r name"

definition reg_names :: "registry \<Rightarrow> string list" where
  "reg_names r = map fst r"

lemma reg_get_put [simp]:
  "reg_get n (reg_put m a r) = (if n = m then Some a else reg_get n r)"
  by (simp add: reg_get_def reg_put_def update_conv')

lemma reg_get_delete [simp]:
  "reg_get n (reg_delete m r) = (if n = m then None else reg_get n r)"
  by (simp add: reg_get_def reg_delete_def delete_conv')

lemma distinct_reg_names [inv_intro]:
  "distinct (reg_names r) \<Longrightarrow> distinct (reg_names (reg_put n a r))"
  "distinct (reg_names r) \<Longrightarrow> distinct (reg_names (reg_delete n r))"
  by (simp_all add: reg_names_def reg_put_def reg_delete_def distinct_update distinct_delete)

lemma set_reg_names: "set (reg_names r) = {n. reg_get n r \<noteq> None}"
  by (force simp: reg_names_def reg_get_def map_of_eq_None_iff)

end
