(* ===== verification/H264.thy ===== *)
theory H264
  imports Crypto
begin

text \<open>
  The H.264 byte handling shared by the three media paths: the parameter-set injection of
  \<open>internal/rtsp/client.go\<close>, \<open>internal/hls/muxer.go\<close> and \<open>internal/mp4/muxer.go\<close>, the Annex-B
  framing and the profile-level-id of \<open>internal/rtsp\<close>, and the unwrapping of 32-bit RTP time
  stamps that HLS and MP4 share. Lemmas: the injectors agree; an injected key frame carries its
  parameter sets; Annex-B framing can be undone; the unwrapped time line equals the camera's.
\<close>

section \<open>NAL units\<close>

text \<open>The five type bits of the header byte, \<open>nalu[0] & 0x1F\<close>.\<close>

definition nalu_type :: "bytes \<Rightarrow> byte" where
  "nalu_type n = hd n AND 0x1F"

definition is_idr :: "bytes \<Rightarrow> bool" where "is_idr n \<longleftrightarrow> n \<noteq> [] \<and> nalu_type n = 5"
definition is_sps :: "bytes \<Rightarrow> bool" where "is_sps n \<longleftrightarrow> n \<noteq> [] \<and> nalu_type n = 7"
definition is_pps :: "bytes \<Rightarrow> bool" where "is_pps n \<longleftrightarrow> n \<noteq> [] \<and> nalu_type n = 8"

text \<open>The scan loop the three injectors run first: (has IDR, has SPS, has PPS).\<close>

fun scan_types :: "bool \<times> bool \<times> bool \<Rightarrow> bytes list \<Rightarrow> bool \<times> bool \<times> bool" where
  "scan_types (idr, sps, pps) [] = (idr, sps, pps)"
| "scan_types (idr, sps, pps) (n # ns) =
     (if n = [] then scan_types (idr, sps, pps) ns
      else if nalu_type n = 5 then scan_types (True, sps, pps) ns
      else if nalu_type n = 7 then scan_types (idr, True, pps) ns
      else if nalu_type n = 8 then scan_types (idr, sps, True) ns
      else scan_types (idr, sps, pps) ns)"

text \<open>\<open>injectParamSets\<close> of \<open>internal/rtsp/client.go\<close>\<close>

definition inject_rtsp :: "bytes list \<Rightarrow> bytes \<Rightarrow> bytes \<Rightarrow> bytes list" where
  "inject_rtsp au sps pps =
     (if length sps = 0 \<or> length pps = 0 then au
      else case scan_types (False, False, False) au of (has_idr, has_sps, has_pps) \<Rightarrow>
        if \<not> has_idr \<or> (has_sps \<and> has_pps) then au
        else (if \<not> has_sps then [sps] else []) @ (if \<not> has_pps then [pps] else []) @ au)"

text \<open>\<open>injectParamSets\<close> of \<open>internal/hls/muxer.go\<close>\<close>

definition inject_hls :: "bytes list \<Rightarrow> bytes \<Rightarrow> bytes \<Rightarrow> bytes list" where
  "inject_hls au sps pps =
     (if length sps = 0 \<or> length pps = 0 then au
      else case scan_types (False, False, False) au of (has_idr, has_sps, has_pps) \<Rightarrow>
        if \<not> has_idr \<or> (has_sps \<and> has_pps) then au
        else (if \<not> has_sps then [sps] else []) @ (if \<not> has_pps then [pps] else []) @ au)"

text \<open>\<open>injectParamSets\<close> of \<open>internal/mp4/muxer.go\<close>: no early return when both are inline.\<close>

definition inject_mp4 :: "bytes list \<Rightarrow> bytes \<Rightarrow> bytes \<Rightarrow> bytes list" where
  "inject_mp4 au sps pps =
     (if length sps = 0 \<or> length pps = 0 then au
      else case scan_types (False, False, False) au of (has_idr, has_sps, has_pps) \<Rightarrow>
        if \<not> has_idr then au
        else (if \<not> has_sps then [sps] else []) @ (if \<not> has_pps then [pps] else []) @ au)"

fun contains_idr :: "bytes list \<Rightarrow> bool" where
  "contains_idr [] = False"
| "contains_idr (n # ns) = (if length n > 0 \<and> nalu_type n = 5 then True else contains_idr ns)"

lemma scan_types_eq:
  "scan_types (i, s, p) ns = (i \<or> (\<exists>n \<in> set ns. is_idr n), s \<or> (\<exists>n \<in> set ns. is_sps n), p \<or> (\<exists>n \<in> set ns. is_pps n))"
  by (induction "(i, s, p)" ns arbitrary: i s p rule: scan_types.induct)
    (auto simp: is_idr_def is_sps_def is_pps_def)

lemma contains_idr_iff: "contains_idr ns \<longleftrightarrow> (\<exists>n \<in> set ns. is_idr n)"
  by (induction ns) (auto simp: is_idr_def)

section \<open>Annex-B framing\<close>

definition annexb_start_code :: bytes where "annexb_start_code = [0, 0, 0, 1]"

fun encode_annexb :: "bytes list \<Rightarrow> bytes" where
  "encode_annexb [] = []"
| "encode_annexb (n # ns) = annexb_start_code @ n @ encode_annexb ns"

text \<open>
  How a decoder reads the stream back: the bytes up to the next start code form a unit.
\<close>

fun split_annexb :: "bytes \<Rightarrow> bytes \<Rightarrow> bytes list" where
  "split_annexb acc (a # b # c # d # r) =
     (if [a, b, c, d] = annexb_start_code then rev acc # split_annexb [] r
      else split_annexb (a # acc) (b # c # d # r))"
| "split_annexb acc r = [rev acc @ r]"

text \<open>A unit as an encoder emits it: no start code inside (emulation prevention), last byte not 0.\<close>

fun no_start_code :: "bytes \<Rightarrow> bool" where
  "no_start_code (a # b # c # d # r) \<longleftrightarrow>
     [a, b, c, d] \<noteq> annexb_start_code \<and> no_start_code (b # c # d # r)"
| "no_start_code _ \<longleftrightarrow> True"

definition framed_unit :: "bytes \<Rightarrow> bool" where
  "framed_unit n \<longleftrightarrow> n \<noteq> [] \<and> last n \<noteq> 0 \<and> no_start_code n"

section \<open>The profile-level-id\<close>

definition default_profile_level_id :: string where
  "default_profile_level_id = ''42e01f''"

definition profile_level_id :: "bytes \<Rightarrow> string" where
  "profile_level_id sps =
     (if length sps \<ge> 4 \<and> hd sps AND 0x1f = 7 then hex_encode [sps ! 1, sps ! 2, sps ! 3]
      else if length sps \<ge> 3 then hex_encode (take 3 sps)
      else default_profile_level_id)"

section \<open>RTP time stamps\<close>

text \<open>
  The three locals \<open>lastRawTS\<close>, \<open>pts\<close>, \<open>haveFirst\<close> of the RTP callback of \<open>internal/hls\<close> and of
  \<open>runDemux\<close> in \<open>internal/mp4\<close>. \<open>pts += int64(int32(ts - lastRawTS))\<close>: the subtraction wraps at
  32 bits, the conversion reads it as signed, the sum wraps at 64 bits.
\<close>

record rtp_clock =
  last_raw_ts :: u32
  pts :: "64 word"
  have_first :: bool

definition rtp_clock0 :: rtp_clock where
  "rtp_clock0 = \<lparr>last_raw_ts = 0, pts = 0, have_first = False\<rparr>"

definition rtp_tick :: "rtp_clock \<Rightarrow> u32 \<Rightarrow> rtp_clock" where
  "rtp_tick c ts =
     (let c1 = (if \<not> have_first c then c\<lparr>last_raw_ts := ts, have_first := True\<rparr> else c)
      in c1\<lparr>pts := pts c1 + scast (ts - last_raw_ts c1), last_raw_ts := ts\<rparr>)"

text \<open>\<open>dur\<close> of the RTSP producer, in nanoseconds: \<open>fallback\<close> unless the delta is positive.\<close>

definition rtsp_fallback :: duration where "rtsp_fallback = 33000000"

definition rtsp_duration :: "u32 option \<Rightarrow> u32 \<Rightarrow> duration" where
  "rtsp_duration last_ts ts =
     (case last_ts of
        None \<Rightarrow> rtsp_fallback
      | Some l \<Rightarrow>
          let delta = sint (ts - l)
          in if delta \<le> 0 then rtsp_fallback else delta * second div 90000)"

section \<open>Lemmas\<close>

lemma split_annexb_unit:
  "n \<noteq> [] \<Longrightarrow> last n \<noteq> 0 \<Longrightarrow> no_start_code n \<Longrightarrow>
   split_annexb acc (n @ annexb_start_code @ r) = (rev acc @ n) # split_annexb [] r"
proof (induction n arbitrary: acc)
  case (Cons a n)
  have step: "split_annexb acc ((a # n) @ annexb_start_code @ r) =
      split_annexb (a # acc) (n @ annexb_start_code @ r)"
    using Cons.prems
    by (cases n; cases "tl n"; cases "tl (tl n)") (auto simp: annexb_start_code_def split: if_splits)
  show ?case
  proof (cases "n = []")
    case True
    then show ?thesis using step by (simp add: annexb_start_code_def)
  next
    case False
    moreover have "no_start_code n"
      using Cons.prems(3) by (cases n; cases "tl n"; cases "tl (tl n)") auto
    ultimately show ?thesis using step Cons by simp
  qed
qed simp

lemma split_annexb_last:
  "no_start_code n \<Longrightarrow> split_annexb acc n = [rev acc @ n]"
  by (induction acc n rule: split_annexb.induct) auto

lemma split_annexb_encode:
  "\<forall>n \<in> set (m # ns). framed_unit n \<Longrightarrow>
   split_annexb [] (m @ encode_annexb ns) = m # ns"
  by (induction ns arbitrary: m)
    (auto simp: framed_unit_def split_annexb_unit split_annexb_last)

lemma sint_delta:
  "- (2 ^ 31) \<le> d \<Longrightarrow> d < (2 ^ 31 :: int) \<Longrightarrow> sint (word_of_int d :: u32) = d"
  by (simp add: signed_of_int signed_take_bit_int_eq_self)

lemma scast_delta:
  "- (2 ^ 31) \<le> d \<Longrightarrow> d < (2 ^ 31 :: int) \<Longrightarrow> (scast (word_of_int d :: u32) :: 64 word) = word_of_int d"
  by (simp add: signed_of_int signed_take_bit_int_eq_self)

text \<open>Consecutive camera ticks less than half the 32-bit range apart (about 6.6 hours).\<close>

definition small_steps :: "int list \<Rightarrow> bool" where
  "small_steps ts \<longleftrightarrow> successively (\<lambda>a b. - (2 ^ 31) \<le> b - a \<and> b - a < 2 ^ 31) ts"

lemma rtp_tick_unwraps:
  assumes "- (2 ^ 31) \<le> u - t" "u - t < 2 ^ 31"
    and "have_first c" "last_raw_ts c = word_of_int t" "pts c = word_of_int (t - t0)"
  shows "have_first (rtp_tick c (word_of_int u))" "last_raw_ts (rtp_tick c (word_of_int u)) = word_of_int u"
    and "pts (rtp_tick c (word_of_int u)) = word_of_int (u - t0)"
proof -
  have "word_of_int u - word_of_int t = (word_of_int (u - t) :: u32)" by simp
  then have "pts (rtp_tick c (word_of_int u)) = word_of_int (t - t0) + word_of_int (u - t)"
    using assms(3-5) scast_delta [OF assms(1,2)] by (simp add: rtp_tick_def)
  also have "\<dots> = word_of_int (u - t0)" by (simp flip: of_int_add)
  finally show "pts (rtp_tick c (word_of_int u)) = word_of_int (u - t0)" .
qed (use assms in \<open>simp_all add: rtp_tick_def\<close>)

lemma rtp_ticks:
  assumes "small_steps (t # ts)"
    and "have_first c" "last_raw_ts c = word_of_int t" "pts c = word_of_int (t - t0)"
  shows "pts (foldl rtp_tick c (map word_of_int ts)) = word_of_int (last (t # ts) - t0) \<and>
    last_raw_ts (foldl rtp_tick c (map word_of_int ts)) = word_of_int (last (t # ts))"
  using assms
proof (induction ts arbitrary: t c)
  case (Cons u ts)
  let ?c = "rtp_tick c (word_of_int u)"
  have d: "- (2 ^ 31) \<le> u - t" "u - t < 2 ^ 31" and ss: "small_steps (u # ts)"
    using Cons.prems(1) by (auto simp: small_steps_def)
  note c = rtp_tick_unwraps [OF d Cons.prems(2-4)]
  from Cons.IH [OF ss c] show ?case by simp
qed simp

lemma inject_rtsp_eq:
  "inject_rtsp au sps pps =
     (if sps \<noteq> [] \<and> pps \<noteq> [] \<and> (\<exists>n \<in> set au. is_idr n)
      then (if \<exists>n \<in> set au. is_sps n then [] else [sps]) @
           (if \<exists>n \<in> set au. is_pps n then [] else [pps]) @ au
      else au)"
  by (auto simp: inject_rtsp_def scan_types_eq)

lemma inject_mp4_eq: "inject_mp4 au sps pps = inject_rtsp au sps pps"
  by (auto simp: inject_mp4_def inject_rtsp_def split: prod.splits)

section \<open>Properties\<close>

text \<open>
  The three injectors are one function. The RTSP, HLS and MP4 paths hand their decoder the
  same units for the same access unit and parameter sets, although the MP4 version lacks the
  early return of the other two.
\<close>

theorem inject_param_sets_agree:
  "inject_mp4 au sps pps = inject_rtsp au sps pps \<and> inject_hls au sps pps = inject_rtsp au sps pps"
  by (simp add: inject_mp4_eq inject_hls_def inject_rtsp_def)

text \<open>
  Every key frame can be decoded. With an SPS and a PPS at hand, an access unit with an IDR
  comes out with both parameter sets in front of all its own units, which follow unchanged;
  an access unit without one comes out unchanged; and injecting twice changes nothing more.
\<close>

theorem injected_key_frame_decodable:
  assumes "is_sps sps" and "is_pps pps"
  shows "\<exists>pre. inject_rtsp au sps pps = pre @ au \<and> set pre \<subseteq> {sps, pps} \<and>
      ((\<exists>n \<in> set au. is_idr n) \<longrightarrow>
         (\<exists>n \<in> set (pre @ au). is_sps n) \<and> (\<exists>n \<in> set (pre @ au). is_pps n)) \<and>
      ((\<forall>n \<in> set au. \<not> is_idr n) \<longrightarrow> pre = []) \<and>
      inject_rtsp (inject_rtsp au sps pps) sps pps = inject_rtsp au sps pps"
proof -
  have ne: "sps \<noteq> []" "pps \<noteq> []" and ni: "\<not> is_idr sps" "\<not> is_idr pps" "\<not> is_pps sps" "\<not> is_sps pps"
    using assms by (auto simp: is_sps_def is_pps_def is_idr_def)
  define pre where "pre = (if \<exists>n \<in> set au. is_idr n
    then (if \<exists>n \<in> set au. is_sps n then [] else [sps]) @ (if \<exists>n \<in> set au. is_pps n then [] else [pps])
    else [])"
  have "inject_rtsp au sps pps = pre @ au"
    using ne by (simp add: inject_rtsp_eq pre_def)
  moreover have "inject_rtsp (pre @ au) sps pps = pre @ au"
    using assms ne ni by (auto simp: inject_rtsp_eq pre_def)
  ultimately show ?thesis
    using assms by (intro exI [of _ pre]) (auto simp: pre_def)
qed

theorem injected_key_frame_decodable_witness:
  "is_sps [0x67, 1] \<and> is_pps [0x68, 2] \<and> (\<exists>n \<in> set [[0x65, 9]]. is_idr n) \<and>
   (\<exists>pre. inject_rtsp [[0x65, 9]] [0x67, 1] [0x68, 2] = pre @ [[0x65, 9]] \<and> (\<exists>n \<in> set (pre @ [[0x65, 9]]). is_sps n))"
proof -
  have h: "is_sps [0x67, 1]" "is_pps [0x68, 2]" "is_idr [0x65, 9]"
    by (simp_all add: is_sps_def is_pps_def is_idr_def nalu_type_def)
  from injected_key_frame_decodable [OF h(1,2), of "[[0x65, 9]]"] h show ?thesis by auto
qed

text \<open>
  Round trip of the Annex-B framing. Units without an embedded start code and not ending in a
  zero byte, as encoders emit them, are read back one by one from the framed stream.
\<close>

theorem annexb_roundtrip:
  assumes "\<forall>n \<in> set au. framed_unit n" and "au \<noteq> []"
  shows "split_annexb [] (encode_annexb au) = [] # au"
proof -
  obtain m ns where au: "au = m # ns" using assms(2) by (cases au) auto
  have "split_annexb [] (encode_annexb au) = [] # split_annexb [] (m @ encode_annexb ns)"
    by (cases "m @ encode_annexb ns") (simp_all add: au annexb_start_code_def)
  with split_annexb_encode assms(1) au show ?thesis by simp
qed

theorem annexb_roundtrip_witness:
  "split_annexb [] (encode_annexb [[0x67, 0, 0, 3, 1], [0x65, 9]]) = [[], [0x67, 0, 0, 3, 1], [0x65, 9]]"
proof -
  have "\<forall>n \<in> set [[0x67, 0, 0, 3, 1], [0x65, 9]]. framed_unit n"
    by (simp add: framed_unit_def annexb_start_code_def)
  from annexb_roundtrip [OF this] show ?thesis by simp
qed

text \<open>
  The presentation time survives the wrap of the 32-bit RTP time stamp. Whatever the camera's
  true tick counts are, as long as two consecutive ones are less than half the 32-bit range apart,
  the accumulated \<open>pts\<close> is exactly the ticks since the first packet, in either direction.
\<close>

theorem pts_unwraps_rtp_time:
  assumes "small_steps (t0 # ts)" and "- (2 ^ 63) \<le> last (t0 # ts) - t0" and "last (t0 # ts) - t0 < 2 ^ 63"
  shows "sint (pts (foldl rtp_tick rtp_clock0 (map word_of_int (t0 # ts)))) = last (t0 # ts) - t0"
proof -
  have "pts (foldl rtp_tick (rtp_tick rtp_clock0 (word_of_int t0)) (map word_of_int ts)) =
      word_of_int (last (t0 # ts) - t0)"
    using rtp_ticks [OF assms(1), of "rtp_tick rtp_clock0 (word_of_int t0)" t0]
    by (simp add: rtp_tick_def rtp_clock0_def)
  then have "sint (pts (foldl rtp_tick rtp_clock0 (map word_of_int (t0 # ts)))) =
      sint (word_of_int (last (t0 # ts) - t0) :: 64 word)" by simp
  also have "\<dots> = last (t0 # ts) - t0"
    using assms(2,3) by (simp only: signed_of_int) (simp add: signed_take_bit_int_eq_self)
  finally show ?thesis .
qed

theorem pts_unwraps_rtp_time_witness:
  "sint (pts (foldl rtp_tick rtp_clock0 (map word_of_int [4294967000, 4294970000, 4294973000]))) = 6000"
proof -
  have "small_steps [4294967000, 4294970000, 4294973000]"
    by (simp add: small_steps_def)
  from pts_unwraps_rtp_time [OF this] show ?thesis by simp
qed

end
