(* ===== verification/Rtsp.thy ===== *)
theory Rtsp
  imports Streams H264
begin

text \<open>
  The RTSP producer of \<open>internal/rtsp/client.go\<close>: \<open>connect\<close> with all its error paths, \<open>Start\<close> and
  \<open>Stop\<close> (which interpret the producer contract), the reconnect backoff, and the goroutines of
  \<open>run\<close> as a step relation in which a session's loop runs on while the producer is stopped and
  started again. What the gortsplib client answers is the parameter \<open>rtsp_io\<close>.
\<close>

section \<open>Opening a session\<close>

datatype rtsp_format = H264Format bytes bytes | OtherFormat

text \<open>
  The answers of the third-party client, call by call, each \<open>Some\<close> an error: \<open>base.ParseURL\<close>,
  \<open>Start\<close>, \<open>Describe\<close> (its medias, each with its formats), \<open>SetupAll\<close>, \<open>CreateDecoder\<close>, \<open>Play\<close>, and
  for the producer \<open>NewTrackLocalStaticSample\<close>.
\<close>

record rtsp_io =
  io_parse :: "string option"
  io_start :: "string option"
  io_describe :: "string + rtsp_format list list"
  io_setup :: "string option"
  io_decoder :: "string option"
  io_play :: "string option"
  io_track :: "string option"

text \<open>The two nested loops that pick the first H.264 format of the first media that has one.\<close>

fun first_h264 :: "rtsp_format list \<Rightarrow> (bytes \<times> bytes) option" where
  "first_h264 [] = None"
| "first_h264 (H264Format sps pps # fs) = Some (sps, pps)"
| "first_h264 (OtherFormat # fs) = first_h264 fs"

fun find_h264 :: "rtsp_format list list \<Rightarrow> (bytes \<times> bytes) option" where
  "find_h264 [] = None"
| "find_h264 (m # ms) = (case first_h264 m of Some f \<Rightarrow> Some f | None \<Rightarrow> find_h264 ms)"

text \<open>What happens to the client object: \<open>Start\<close> opens it, \<open>Close\<close> closes it.\<close>

datatype client_event = Opened | Closed

definition connect :: "rtsp_io \<Rightarrow> (string + bytes \<times> bytes) \<times> client_event list" where
  "connect io =
     (case io_parse io of Some e \<Rightarrow> (Inl (''parse url: '' @ e), []) | None \<Rightarrow>
      case io_start io of Some e \<Rightarrow> (Inl (''rtsp start: '' @ e), []) | None \<Rightarrow>
      case io_describe io of Inl e \<Rightarrow> (Inl (''describe: '' @ e), [Opened, Closed]) | Inr medias \<Rightarrow>
      case find_h264 medias of
        None \<Rightarrow> (Inl ''no H.264 video track in RTSP stream'', [Opened, Closed])
      | Some fmt \<Rightarrow>
      case io_setup io of Some e \<Rightarrow> (Inl (''setup: '' @ e), [Opened, Closed]) | None \<Rightarrow>
      case io_decoder io of
        Some e \<Rightarrow> (Inl (''create h264 decoder: '' @ e), [Opened, Closed]) | None \<Rightarrow>
      case io_play io of Some e \<Rightarrow> (Inl (''play: '' @ e), [Opened, Closed]) | None \<Rightarrow>
      (Inr fmt, [Opened]))"

definition left_open :: "client_event list \<Rightarrow> bool" where
  "left_open es \<longleftrightarrow> es \<noteq> [] \<and> last es = Opened"

lemma connect_left_open:
  "connect io = (r, es) \<Longrightarrow> left_open es \<longleftrightarrow> (\<exists>fmt. r = Inr fmt)"
  by (auto simp: connect_def left_open_def split: option.splits sum.splits)

lemma connect_ok:
  "connect io = (Inr fmt, es) \<Longrightarrow> \<exists>medias. io_describe io = Inr medias \<and> find_h264 medias = Some fmt"
  by (auto simp: connect_def split: option.splits sum.splits)

section \<open>The producer\<close>

text \<open>
  \<open>p_dialed\<close> counts the sessions opened so far and names the next client; \<open>p_track\<close> is the current
  track, given by its \<open>SDPFmtpLine\<close>.
\<close>

record rtsp_producer =
  p_url :: string
  p_stream_id :: string
  p_verify_tls :: bool
  p_client :: "nat option"
  p_track :: "string option"
  p_closed :: bool
  p_dialed :: nat

definition new_producer :: "string \<Rightarrow> string \<Rightarrow> bool \<Rightarrow> rtsp_producer" where
  "new_producer sid url verify =
     \<lparr>p_url = url, p_stream_id = sid, p_verify_tls = verify, p_client = None, p_track = None,
      p_closed = False, p_dialed = 0\<rparr>"

definition fmtp_line :: "bytes \<Rightarrow> string" where
  "fmtp_line sps =
     ''level-asymmetry-allowed=1;packetization-mode=1;profile-level-id='' @ profile_level_id sps"

definition rtsp_start ::
  "(nat \<Rightarrow> rtsp_io) \<Rightarrow> rtsp_producer \<Rightarrow> (string + string list) \<times> rtsp_producer" where
  "rtsp_start env p =
     (let io = env (p_dialed p); n = p_dialed p; p1 = p\<lparr>p_dialed := n + 1\<rparr>
      in case fst (connect io) of
           Inl e \<Rightarrow> (Inl e, p1)
         | Inr (sps, pps) \<Rightarrow>
             (case io_track io of
                Some e \<Rightarrow> (Inl (''new track: '' @ e), p1)
              | None \<Rightarrow>
                  (Inr [fmtp_line sps],
                   p1\<lparr>p_client := Some n, p_track := Some (fmtp_line sps), p_closed := False\<rparr>)))"

definition rtsp_stop :: "rtsp_producer \<Rightarrow> rtsp_producer" where
  "rtsp_stop p = (if p_closed p then p else p\<lparr>p_closed := True, p_client := None, p_track := None\<rparr>)"

text \<open>
  Cancelling the context acts on the goroutine of \<open>run\<close>, not on the producer's fields; the
  goroutine is in the step relation below.
\<close>

definition rtsp_ops :: "(nat \<Rightarrow> rtsp_io) \<Rightarrow> (rtsp_producer, string) producer_ops" where
  "rtsp_ops env = \<lparr>prod_start = rtsp_start env, prod_cancel = (\<lambda>p. p), prod_stop = rtsp_stop\<rparr>"

definition rtsp_valid :: "rtsp_producer \<Rightarrow> bool" where
  "rtsp_valid p \<longleftrightarrow> (p_closed p \<longrightarrow> p_client p = None) \<and> (p_client p = None \<longleftrightarrow> p_track p = None)"

definition rtsp_alive :: "rtsp_producer \<Rightarrow> bool" where
  "rtsp_alive p \<longleftrightarrow> p_client p \<noteq> None"

lemma rtsp_valid_new [simp]: "rtsp_valid (new_producer sid url v) \<and> \<not> rtsp_alive (new_producer sid url v)"
  by (simp add: rtsp_valid_def rtsp_alive_def new_producer_def)

interpretation rtsp: producer_contract "rtsp_ops env" rtsp_valid rtsp_alive for env
  by unfold_locales
    (auto simp: rtsp_ops_def rtsp_start_def rtsp_stop_def rtsp_valid_def rtsp_alive_def Let_def
      split: sum.splits prod.splits option.splits if_splits)

section \<open>The reconnect backoff\<close>

definition rtsp_max_backoff :: duration where "rtsp_max_backoff = 30 * second"

definition rtsp_next_backoff :: "duration \<Rightarrow> duration" where
  "rtsp_next_backoff b = (if b < rtsp_max_backoff then b * 2 else b)"

text \<open>The wait before each of the dials that follow a lost session, starting at one second.\<close>

fun rtsp_backoffs :: "nat \<Rightarrow> duration" where
  "rtsp_backoffs 0 = second"
| "rtsp_backoffs (Suc n) = rtsp_next_backoff (rtsp_backoffs n)"

lemma rtsp_backoffs_small:
  "n \<le> 5 \<Longrightarrow> rtsp_backoffs n = 2 ^ n * second"
proof (induction n)
  case (Suc n)
  then have "n \<in> {0, 1, 2, 3, 4}" by auto
  then show ?case
    using Suc by (auto simp: rtsp_next_backoff_def rtsp_max_backoff_def second_def)
qed simp

lemma rtsp_backoffs_large: "5 \<le> n \<Longrightarrow> rtsp_backoffs n = 32 * second"
proof (induction n rule: nat_induct_at_least)
  case base
  then show ?case using rtsp_backoffs_small [of 5] by simp
next
  case (Suc n)
  then show ?case by (simp add: rtsp_next_backoff_def rtsp_max_backoff_def second_def)
qed

section \<open>The run loops\<close>

text \<open>
  \<open>run\<close> is one goroutine per \<open>Start\<close>, which outlives the session's \<open>Stop\<close>: it may be dialing when
  its context is cancelled, and the producer may be started again before the dial returns. A loop
  is \<open>Watching\<close> its client, \<open>Backoff\<close> between its check of the context and the next dial, \<open>Dialed\<close>
  when \<open>connect\<close> has returned a client it has not yet installed, or \<open>Exited\<close>.
\<close>

datatype run_loop = Watching nat | Backoff | Dialed nat | Exited

record rtsp_sys =
  sys_prod :: rtsp_producer
  sys_running :: bool
  sys_loops :: "run_loop list"
  sys_cancelled :: "nat list"
  sys_open :: "nat list"

definition rtsp_sys0 :: "rtsp_producer \<Rightarrow> rtsp_sys" where
  "rtsp_sys0 p =
     \<lparr>sys_prod = p, sys_running = False, sys_loops = [], sys_cancelled = [], sys_open = []\<rparr>"

text \<open>
  \<open>Acquire\<close> starts the producer only when it is not running, and the last release cancels the
  context of the latest loop and stops it. \<open>dies\<close> is the camera ending a session.
\<close>

inductive rtsp_step :: "(nat \<Rightarrow> rtsp_io) \<Rightarrow> rtsp_sys \<Rightarrow> rtsp_sys \<Rightarrow> bool" for env where
  start: "\<not> sys_running s \<Longrightarrow> rtsp_start env (sys_prod s) = (Inr ts, p) \<Longrightarrow>
    rtsp_step env s (s\<lparr>sys_prod := p, sys_running := True,
      sys_loops := sys_loops s @ [Watching (p_dialed (sys_prod s))],
      sys_open := p_dialed (sys_prod s) # sys_open s\<rparr>)"
| start_fails: "\<not> sys_running s \<Longrightarrow> rtsp_start env (sys_prod s) = (Inl e, p) \<Longrightarrow>
    rtsp_step env s (s\<lparr>sys_prod := p\<rparr>)"
| stop: "sys_running s \<Longrightarrow>
    rtsp_step env s (s\<lparr>sys_prod := rtsp_stop (sys_prod s), sys_running := False,
      sys_cancelled := (length (sys_loops s) - 1) # sys_cancelled s,
      sys_open := (case p_client (sys_prod s) of
        Some c \<Rightarrow> if p_closed (sys_prod s) then sys_open s else removeAll c (sys_open s)
      | None \<Rightarrow> sys_open s)\<rparr>)"
| dies: "c \<in> set (sys_open s) \<Longrightarrow>
    rtsp_step env s (s\<lparr>sys_open := removeAll c (sys_open s)\<rparr>)"
| loop_cancelled: "i < length (sys_loops s) \<Longrightarrow> sys_loops s ! i = Watching c \<Longrightarrow>
    i \<in> set (sys_cancelled s) \<Longrightarrow>
    rtsp_step env s (s\<lparr>sys_loops := (sys_loops s)[i := Exited],
      sys_open := removeAll c (sys_open s)\<rparr>)"
| loop_ended: "i < length (sys_loops s) \<Longrightarrow> sys_loops s ! i = Watching c \<Longrightarrow>
    c \<notin> set (sys_open s) \<Longrightarrow>
    rtsp_step env s (s\<lparr>sys_loops := (sys_loops s)[i := Backoff]\<rparr>)"
| loop_exits: "i < length (sys_loops s) \<Longrightarrow> sys_loops s ! i = Backoff \<Longrightarrow>
    i \<in> set (sys_cancelled s) \<or> p_closed (sys_prod s) \<Longrightarrow>
    rtsp_step env s (s\<lparr>sys_loops := (sys_loops s)[i := Exited]\<rparr>)"
| redial_fails: "i < length (sys_loops s) \<Longrightarrow> sys_loops s ! i = Backoff \<Longrightarrow>
    fst (connect (env n)) = Inl e \<Longrightarrow> n = p_dialed (sys_prod s) \<Longrightarrow>
    rtsp_step env s (s\<lparr>sys_prod := (sys_prod s)\<lparr>p_dialed := n + 1\<rparr>\<rparr>)"
| redial: "i < length (sys_loops s) \<Longrightarrow> sys_loops s ! i = Backoff \<Longrightarrow>
    fst (connect (env n)) = Inr fmt \<Longrightarrow> n = p_dialed (sys_prod s) \<Longrightarrow>
    rtsp_step env s (s\<lparr>sys_prod := (sys_prod s)\<lparr>p_dialed := n + 1\<rparr>,
      sys_loops := (sys_loops s)[i := Dialed n], sys_open := n # sys_open s\<rparr>)"
| install: "i < length (sys_loops s) \<Longrightarrow> sys_loops s ! i = Dialed n \<Longrightarrow> \<not> p_closed (sys_prod s) \<Longrightarrow>
    rtsp_step env s (s\<lparr>sys_prod := (sys_prod s)\<lparr>p_client := Some n\<rparr>,
      sys_loops := (sys_loops s)[i := Watching n]\<rparr>)"
| discard: "i < length (sys_loops s) \<Longrightarrow> sys_loops s ! i = Dialed n \<Longrightarrow> p_closed (sys_prod s) \<Longrightarrow>
    rtsp_step env s (s\<lparr>sys_loops := (sys_loops s)[i := Exited],
      sys_open := removeAll n (sys_open s)\<rparr>)"

inductive rtsp_reach :: "(nat \<Rightarrow> rtsp_io) \<Rightarrow> rtsp_producer \<Rightarrow> rtsp_sys \<Rightarrow> bool" for env p where
  init: "rtsp_reach env p (rtsp_sys0 p)"
| step: "rtsp_reach env p s \<Longrightarrow> rtsp_step env s s' \<Longrightarrow> rtsp_reach env p s'"

inductive_cases rtsp_stepE: "rtsp_step env s s'"

text \<open>The client a loop is responsible for.\<close>

fun loop_owns :: "run_loop \<Rightarrow> nat \<Rightarrow> bool" where
  "loop_owns (Watching c) d \<longleftrightarrow> c = d"
| "loop_owns (Dialed c) d \<longleftrightarrow> c = d"
| "loop_owns Backoff d \<longleftrightarrow> False"
| "loop_owns Exited d \<longleftrightarrow> False"

definition owned :: "run_loop list \<Rightarrow> nat \<Rightarrow> bool" where
  "owned ls c \<longleftrightarrow> (\<exists>l \<in> set ls. loop_owns l c)"

text \<open>
  Every open client is owned; every loop but the latest is cancelled, and so is the latest when the
  producer is not running.
\<close>

definition rtsp_sys_ok :: "rtsp_sys \<Rightarrow> bool" where
  "rtsp_sys_ok s \<longleftrightarrow>
     (\<forall>c \<in> set (sys_open s). owned (sys_loops s) c) \<and>
     (\<forall>i < length (sys_loops s). i \<in> set (sys_cancelled s) \<or> sys_running s \<and> i = length (sys_loops s) - 1) \<and>
     (sys_running s \<longrightarrow> sys_loops s \<noteq> [])"

lemma owned_append [simp]: "owned (ls @ [l]) c \<longleftrightarrow> owned ls c \<or> loop_owns l c"
  by (auto simp: owned_def)

lemma owned_update:
  assumes "owned ls c" and "loop_owns (ls ! i) c \<Longrightarrow> loop_owns l c"
  shows "owned (ls[i := l]) c"
proof -
  obtain j where j: "j < length ls" "loop_owns (ls ! j) c"
    using assms(1) by (auto simp: owned_def in_set_conv_nth)
  then have "loop_owns (ls[i := l] ! j) c"
    using assms(2) by (cases "i = j") simp_all
  then show ?thesis
    using j(1) nth_mem [of j "ls[i := l]"] by (auto simp: owned_def)
qed

lemma owned_new: "i < length ls \<Longrightarrow> loop_owns l c \<Longrightarrow> owned (ls[i := l]) c"
  using set_update_memI by (fastforce simp: owned_def)

lemma rtsp_step_ok:
  assumes "rtsp_step env s s'" and "rtsp_sys_ok s"
  shows "rtsp_sys_ok s'"
  using assms
proof (induction rule: rtsp_step.induct)
  case (start s ts p)
  then show ?case by (auto simp: rtsp_sys_ok_def less_Suc_eq)
next
  case (start_fails s e p)
  then show ?case by (simp add: rtsp_sys_ok_def)
next
  case (stop s)
  then show ?case by (fastforce simp: rtsp_sys_ok_def split: option.splits)
next
  case (dies c s)
  then show ?case by (simp add: rtsp_sys_ok_def)
next
  case (loop_cancelled i s c)
  then show ?case by (auto simp: rtsp_sys_ok_def intro!: owned_update)
next
  case (loop_ended i s c)
  then have "\<forall>d \<in> set (sys_open s). owned ((sys_loops s)[i := Backoff]) d"
    by (auto simp: rtsp_sys_ok_def intro!: owned_update)
  then show ?case using loop_ended by (simp add: rtsp_sys_ok_def)
next
  case (loop_exits i s)
  then show ?case by (auto simp: rtsp_sys_ok_def intro!: owned_update)
next
  case (redial_fails i s n e)
  then show ?case by (simp add: rtsp_sys_ok_def)
next
  case (redial i s n fmt)
  then have "owned ((sys_loops s)[i := Dialed n]) c" if "c \<in> set (n # sys_open s)" for c
    using that owned_new [of i "sys_loops s" "Dialed n" c] owned_update [of "sys_loops s" c i "Dialed n"]
    by (auto simp: rtsp_sys_ok_def)
  then show ?case using redial by (simp add: rtsp_sys_ok_def)
next
  case (install i s n)
  then show ?case by (auto simp: rtsp_sys_ok_def intro!: owned_update)
next
  case (discard i s n)
  then show ?case by (auto simp: rtsp_sys_ok_def intro!: owned_update)
qed

lemma rtsp_reach_ok: "rtsp_reach env p s \<Longrightarrow> rtsp_sys_ok s"
proof (induction rule: rtsp_reach.induct)
  case init
  then show ?case by (simp add: rtsp_sys_ok_def rtsp_sys0_def)
next
  case (step s s')
  then show ?case by (blast intro: rtsp_step_ok)
qed

text \<open>A cancelled loop can always run to its exit.\<close>

lemma cancelled_loop_exits:
  assumes "i < length (sys_loops s)" and "i \<in> set (sys_cancelled s)"
  shows "\<exists>s'. (rtsp_step env)\<^sup>*\<^sup>* s s' \<and> sys_loops s' = (sys_loops s)[i := Exited] \<and>
    sys_cancelled s' = sys_cancelled s \<and> sys_running s' = sys_running s"
proof (cases "sys_loops s ! i")
  case (Watching c)
  define s1 where "s1 = s\<lparr>sys_loops := (sys_loops s)[i := Exited], sys_open := removeAll c (sys_open s)\<rparr>"
  have "rtsp_step env s s1"
    unfolding s1_def by (rule rtsp_step.loop_cancelled [OF assms(1) Watching assms(2)])
  then show ?thesis by (intro exI [of _ s1]) (simp add: s1_def r_into_rtranclp)
next
  case Backoff
  define s1 where "s1 = s\<lparr>sys_loops := (sys_loops s)[i := Exited]\<rparr>"
  have "rtsp_step env s s1"
    unfolding s1_def using assms Backoff by (intro rtsp_step.loop_exits) simp_all
  then show ?thesis by (intro exI [of _ s1]) (simp add: s1_def r_into_rtranclp)
next
  case (Dialed n)
  show ?thesis
  proof (cases "p_closed (sys_prod s)")
    case True
    define s1 where "s1 = s\<lparr>sys_loops := (sys_loops s)[i := Exited], sys_open := removeAll n (sys_open s)\<rparr>"
    have "rtsp_step env s s1"
      unfolding s1_def by (rule rtsp_step.discard [OF assms(1) Dialed True])
    then show ?thesis by (intro exI [of _ s1]) (simp add: s1_def r_into_rtranclp)
  next
    case False
    define s1 where "s1 = s\<lparr>sys_prod := (sys_prod s)\<lparr>p_client := Some n\<rparr>,
      sys_loops := (sys_loops s)[i := Watching n]\<rparr>"
    define s2 where "s2 = s1\<lparr>sys_loops := (sys_loops s1)[i := Exited],
      sys_open := removeAll n (sys_open s1)\<rparr>"
    have "rtsp_step env s s1"
      unfolding s1_def by (rule rtsp_step.install [OF assms(1) Dialed False])
    moreover have "rtsp_step env s1 s2"
      unfolding s2_def using assms by (intro rtsp_step.loop_cancelled) (simp_all add: s1_def)
    ultimately have "(rtsp_step env)\<^sup>*\<^sup>* s s2" by simp
    then show ?thesis by (intro exI [of _ s2]) (simp add: s1_def s2_def)
  qed
next
  case Exited
  then show ?thesis
    by (intro exI [of _ s]) (simp flip: Exited)
qed

lemma cancelled_loops_exit:
  assumes "\<forall>i < length (sys_loops s). i \<in> set (sys_cancelled s)"
  shows "n \<le> length (sys_loops s) \<Longrightarrow> \<exists>s'. (rtsp_step env)\<^sup>*\<^sup>* s s' \<and>
    length (sys_loops s') = length (sys_loops s) \<and> (\<forall>i < n. sys_loops s' ! i = Exited) \<and>
    sys_cancelled s' = sys_cancelled s \<and> sys_running s' = sys_running s"
proof (induction n)
  case 0
  show ?case by (intro exI [of _ s]) simp
next
  case (Suc n)
  then obtain s1 where s1: "(rtsp_step env)\<^sup>*\<^sup>* s s1" "length (sys_loops s1) = length (sys_loops s)"
    "\<forall>i < n. sys_loops s1 ! i = Exited" "sys_cancelled s1 = sys_cancelled s"
    "sys_running s1 = sys_running s" by auto
  obtain s2 where s2: "(rtsp_step env)\<^sup>*\<^sup>* s1 s2" "sys_loops s2 = (sys_loops s1)[n := Exited]"
    "sys_cancelled s2 = sys_cancelled s1" "sys_running s2 = sys_running s1"
    using cancelled_loop_exits [of n s1 env] s1 assms Suc.prems by auto
  have "\<forall>i < Suc n. sys_loops s2 ! i = Exited"
    using s1 s2 Suc.prems by (auto simp: less_Suc_eq nth_list_update)
  then show ?case
    using s1 s2 by (intro exI [of _ s2]) auto
qed

lemma reach_steps: "(rtsp_step env)\<^sup>*\<^sup>* s s' \<Longrightarrow> rtsp_reach env p s \<Longrightarrow> rtsp_reach env p s'"
  by (induction rule: rtranclp_induct) (auto intro: rtsp_reach.step)

section \<open>Properties\<close>

text \<open>
  Opening an RTSP session leaves the client open exactly when it succeeds: every error path
  after \<open>Start\<close> closes it, and the format used is the first H.264 format of the description.
\<close>

theorem connect_closes_on_error:
  "(left_open (snd (connect io)) \<longleftrightarrow> (\<exists>fmt. fst (connect io) = Inr fmt)) \<and>
   (\<forall>fmt medias. \<not> (fst (connect io) = Inr fmt \<and> io_describe io = Inr medias \<and> find_h264 medias \<noteq> Some fmt))"
  using connect_left_open [OF prod.collapse [symmetric], of io] connect_ok [of io]
  by (cases "connect io") auto

text \<open>
  C38: no RTSP session leaks. Whatever the interleaving of starts, stops, camera failures and
  reconnects, once the last consumer has released the producer, the loops can run to their exits
  and no client of the producer is open then; and in every state an open client has a loop that is
  responsible for closing it.
\<close>

theorem rtsp_no_leak:
  assumes "rtsp_reach env p s" and "\<not> sys_running s"
  shows "(\<forall>c \<in> set (sys_open s). owned (sys_loops s) c) \<and>
    (\<exists>s'. (rtsp_step env)\<^sup>*\<^sup>* s s' \<and> (\<forall>l \<in> set (sys_loops s'). l = Exited) \<and> sys_open s' = [])"
proof
  have ok: "rtsp_sys_ok s" by (rule rtsp_reach_ok [OF assms(1)])
  then show "\<forall>c \<in> set (sys_open s). owned (sys_loops s) c" by (simp add: rtsp_sys_ok_def)
  have "\<forall>i < length (sys_loops s). i \<in> set (sys_cancelled s)"
    using ok assms(2) by (simp add: rtsp_sys_ok_def)
  from cancelled_loops_exit [OF this order_refl] obtain s' where
    s': "(rtsp_step env)\<^sup>*\<^sup>* s s'" "length (sys_loops s') = length (sys_loops s)"
      "\<forall>i < length (sys_loops s). sys_loops s' ! i = Exited" by blast
  have ex: "\<forall>l \<in> set (sys_loops s'). l = Exited"
    using s'(2,3) by (metis in_set_conv_nth)
  have "rtsp_sys_ok s'" by (rule rtsp_reach_ok [OF reach_steps [OF s'(1) assms(1)]])
  then have "sys_open s' = []"
    using ex by (cases "sys_open s'") (auto simp: rtsp_sys_ok_def owned_def)
  then show "\<exists>s'. (rtsp_step env)\<^sup>*\<^sup>* s s' \<and> (\<forall>l \<in> set (sys_loops s'). l = Exited) \<and> sys_open s' = []"
    using s'(1) ex by blast
qed

text \<open>A producer started, its session lost, and released while the loop is redialing.\<close>

definition ex_io :: "nat \<Rightarrow> rtsp_io" where
  "ex_io n =
     \<lparr>io_parse = None, io_start = None, io_describe = Inr [[OtherFormat], [H264Format [0x67, 1, 2, 3] [0x68]]],
      io_setup = None, io_decoder = None, io_play = None, io_track = None\<rparr>"

definition ex_rtsp_sys :: "nat \<Rightarrow> rtsp_sys" where
  "ex_rtsp_sys n =
     (let p0 = new_producer ''cam'' ''rtsps://h:7441/a'' False;
          s0 = rtsp_sys0 p0;
          p1 = snd (rtsp_start ex_io p0);
          s1 = s0\<lparr>sys_prod := p1, sys_running := True, sys_loops := [Watching 0], sys_open := [0]\<rparr>;
          s2 = s1\<lparr>sys_open := []\<rparr>;
          s3 = s2\<lparr>sys_loops := [Backoff]\<rparr>;
          s4 = s3\<lparr>sys_prod := p1\<lparr>p_dialed := 2\<rparr>, sys_loops := [Dialed 1], sys_open := [1]\<rparr>;
          s5 = s4\<lparr>sys_prod := rtsp_stop (p1\<lparr>p_dialed := 2\<rparr>), sys_running := False, sys_cancelled := [0]\<rparr>
      in [s0, s1, s2, s3, s4, s5] ! n)"

lemma ex_rtsp_reach: "rtsp_reach ex_io (new_producer ''cam'' ''rtsps://h:7441/a'' False) (ex_rtsp_sys 5)"
proof -
  let ?p = "new_producer ''cam'' ''rtsps://h:7441/a'' False"
  note defs = ex_rtsp_sys_def Let_def rtsp_sys0_def rtsp_start_def connect_def ex_io_def new_producer_def
  have 1: "rtsp_step ex_io (ex_rtsp_sys 0) (ex_rtsp_sys 1)"
    using rtsp_step.start [of "ex_rtsp_sys 0" ex_io "[fmtp_line [0x67, 1, 2, 3]]" "snd (rtsp_start ex_io ?p)"]
    by (simp add: defs)
  have 2: "rtsp_step ex_io (ex_rtsp_sys 1) (ex_rtsp_sys 2)"
    using rtsp_step.dies [of 0 "ex_rtsp_sys 1" ex_io] by (simp add: defs)
  have 3: "rtsp_step ex_io (ex_rtsp_sys 2) (ex_rtsp_sys 3)"
    using rtsp_step.loop_ended [of 0 "ex_rtsp_sys 2" 0 ex_io] by (simp add: defs)
  have 4: "rtsp_step ex_io (ex_rtsp_sys 3) (ex_rtsp_sys 4)"
    using rtsp_step.redial [of 0 "ex_rtsp_sys 3" ex_io 1] by (simp add: defs numeral_2_eq_2)
  have 5: "rtsp_step ex_io (ex_rtsp_sys 4) (ex_rtsp_sys 5)"
    using rtsp_step.stop [of "ex_rtsp_sys 4" ex_io] by (simp add: defs)
  have "rtsp_reach ex_io ?p (ex_rtsp_sys 0)"
    using rtsp_reach.init [of ex_io ?p] by (simp add: ex_rtsp_sys_def)
  then show ?thesis
    by (rule rtsp_reach.step [OF rtsp_reach.step [OF rtsp_reach.step [OF rtsp_reach.step
      [OF rtsp_reach.step [OF _ 1] 2] 3] 4] 5])
qed

theorem rtsp_no_leak_witness:
  "\<exists>s'. (rtsp_step ex_io)\<^sup>*\<^sup>* (ex_rtsp_sys 5) s' \<and> sys_open (ex_rtsp_sys 5) = [1] \<and> sys_open s' = []"
  using rtsp_no_leak [OF ex_rtsp_reach] by (auto simp: ex_rtsp_sys_def Let_def)

text \<open>
  The wait before a redial never exceeds 32 seconds: it doubles from one second up to the fifth
  failure and stays. The constant \<open>maxBackoff\<close>, 30 seconds, is exceeded because the doubling is
  not capped.
\<close>

theorem rtsp_backoff_bound:
  "second \<le> rtsp_backoffs n \<and> rtsp_backoffs n \<le> 32 * second \<and>
   (rtsp_max_backoff < rtsp_backoffs n \<longleftrightarrow> 5 \<le> n)"
proof (cases "5 \<le> n")
  case True
  then show ?thesis by (simp add: rtsp_backoffs_large rtsp_max_backoff_def second_def)
next
  case False
  define k :: int where "k = 2 ^ n"
  have "k \<le> 2 ^ 4" unfolding k_def using False by (intro power_increasing) simp_all
  moreover have "1 \<le> k" by (simp add: k_def)
  moreover have "rtsp_backoffs n = k * second"
    using False by (simp add: rtsp_backoffs_small k_def)
  ultimately show ?thesis using False by (simp add: rtsp_max_backoff_def second_def)
qed

end
