(* ===== verification/Reconciler.thy ===== *)
theory Reconciler
  imports CameraSource Unifi Rtsp
begin

text \<open>
  The control plane, \<open>internal/bridge/reconciler.go\<close>: \<open>Refresh\<close> (the diff of a bootstrap against
  the stream registry and the camera source, and what it tells Home Graph), the handling of the
  events of the updates WebSocket, the reconnect backoff of \<open>watchEvents\<close>, and the debounced
  trigger of \<open>Poll\<close> as a step relation. Calls to Home Graph run on goroutines of their own; here
  they are the list of actions an operation starts.
\<close>

section \<open>State and actions\<close>

text \<open>\<open>rc_homegraph\<close>: the Home Graph client is not nil. The host is the one of the UniFi client.\<close>

record reconciler_config =
  rc_host :: string
  rc_verify :: bool
  rc_homegraph :: bool

text \<open>\<open>br_heap\<close> holds the streams by address; sessions refer to them after the registry has let go.\<close>

record bridge_state =
  br_src :: camera_source
  br_reg :: registry
  br_heap :: "nat \<Rightarrow> (rtsp_producer, string) stream option"
  br_next :: nat
  br_refreshed :: bool

definition new_bridge :: "string list \<Rightarrow> bridge_state" where
  "new_bridge exposed =
     \<lparr>br_src = new_camera_source exposed, br_reg = [], br_heap = (\<lambda>_. None), br_next = 0, br_refreshed = False\<rparr>"

text \<open>The states of \<open>ReportState\<close> are an association list from ids to the online flag.\<close>

datatype bridge_action =
    RequestSync
  | ReportState "(string \<times> bool) list"
  | NotifyRing string
  | StreamsChanged

section \<open>Streams of one camera\<close>

definition unregister_stream :: "string \<Rightarrow> bridge_state \<Rightarrow> bridge_state" where
  "unregister_stream i s =
     s\<lparr>br_reg := reg_delete i (br_reg s), br_src := delete_rtsp_url i (br_src s)\<rparr>"

definition register_stream :: "reconciler_config \<Rightarrow> string \<Rightarrow> string \<Rightarrow> bridge_state \<Rightarrow> bridge_state" where
  "register_stream rc i url s =
     s\<lparr>br_heap := (br_heap s)(br_next s \<mapsto> new_stream i (new_producer i url (rc_verify rc))),
       br_reg := reg_put i (br_next s) (br_reg s), br_next := br_next s + 1,
       br_src := set_rtsp_url i url (rc_verify rc) (br_src s)\<rparr>"

definition sync_stream :: "reconciler_config \<Rightarrow> unifi_camera \<Rightarrow> bridge_state \<Rightarrow> bool \<times> bridge_state" where
  "sync_stream rc cam s =
     (let cur = rtsp_url (br_src s) (uc_id cam) in
      case best_rtsp_channel cam of
        None \<Rightarrow> if cur \<noteq> None then (True, unregister_stream (uc_id cam) s) else (False, s)
      | Some ch \<Rightarrow>
          (case stream_url (rc_host rc) ch of
             Inl _ \<Rightarrow> (False, s)
           | Inr url \<Rightarrow>
               if cur = Some url then (False, s)
               else (True, register_stream rc (uc_id cam) url s)))"

section \<open>Refresh\<close>

text \<open>The camera as Google sees it; a WebSocket flip after generation \<open>gen\<close> wins over the bootstrap.\<close>

definition merge_camera ::
  "(string \<Rightarrow> camera option) \<Rightarrow> camera_source \<Rightarrow> nat \<Rightarrow> unifi_camera \<Rightarrow> camera" where
  "merge_camera prev src gen cam =
     (let c = \<lparr>cam_id = uc_id cam, cam_name = uc_name cam, cam_manufacturer = ''Ubiquiti'',
               cam_model = uc_model cam, cam_online = uc_online cam\<rparr>
      in case prev (uc_id cam) of
           Some p \<Rightarrow> if online_changed_since src (uc_id cam) gen then c\<lparr>cam_online := cam_online p\<rparr> else c
         | None \<Rightarrow> c)"

text \<open>
  The loop over the cameras of the bootstrap: the new snapshot, the online flags to report, whether
  a stream changed.
\<close>

fun refresh_loop ::
  "reconciler_config \<Rightarrow> (string \<Rightarrow> camera option) \<Rightarrow> nat \<Rightarrow> unifi_camera list
   \<Rightarrow> camera list \<times> (string \<times> bool) list \<times> bool \<Rightarrow> bridge_state
   \<Rightarrow> (camera list \<times> (string \<times> bool) list \<times> bool) \<times> bridge_state" where
  "refresh_loop rc prev gen [] acc s = (acc, s)"
| "refresh_loop rc prev gen (cam # cams) (cs, changed, streams) s =
     (let c = merge_camera prev (br_src s) gen cam;
          changed = (case prev (uc_id cam) of
              Some p \<Rightarrow> if cam_online p \<noteq> cam_online c then AList.update (uc_id cam) (cam_online c) changed
                        else changed
            | None \<Rightarrow> AList.update (uc_id cam) (cam_online c) changed);
          (b, s1) = sync_stream rc cam s
      in refresh_loop rc prev gen cams (cs @ [c], changed, streams \<or> b) s1)"

text \<open>The loop over the registry's names: what is gone is unregistered, and counted when exposed.\<close>

fun remove_gone :: "string set \<Rightarrow> string list \<Rightarrow> nat \<times> bool \<Rightarrow> bridge_state \<Rightarrow> (nat \<times> bool) \<times> bridge_state" where
  "remove_gone seen [] acc s = (acc, s)"
| "remove_gone seen (n # ns) (removed, streams) s =
     (if n \<in> seen then remove_gone seen ns (removed, streams) s
      else remove_gone seen ns (if is_allowed (br_src s) n then removed + 1 else removed, True)
             (unregister_stream n s))"

text \<open>
  \<open>Refresh\<close> from the answer of the bootstrap on; \<open>gen\<close> was sampled before the request was sent, and
  events may have come in between. The answer is applied in one step: what other goroutines see
  between the writes of the registry and of the table is left out.
\<close>

definition refresh_apply ::
  "reconciler_config \<Rightarrow> nat \<Rightarrow> unifi_camera list \<Rightarrow> string \<Rightarrow> bridge_state
   \<Rightarrow> bridge_action list \<times> bridge_state" where
  "refresh_apply rc gen cams upd s =
     (let first = \<not> br_refreshed s;
          s0 = s\<lparr>br_refreshed := True\<rparr>;
          prev = snapshot_map (br_src s0);
          ((cs, changed, streams), s1) = refresh_loop rc prev gen cams ([], [], False) s0;
          seen = set (map uc_id cams);
          added = length (filter (\<lambda>i. prev i = None \<and> is_allowed (br_src s1) i) (remdups (map uc_id cams)));
          ((removed, streams), s2) = remove_gone seen (reg_names (br_reg s1)) (0, streams) s1;
          s3 = s2\<lparr>br_src := set_cameras cs (br_src s2)\<rparr>;
          changed = filter (\<lambda>e. is_allowed (br_src s3) (fst e)) changed
      in ((if rc_homegraph rc \<and> (added > 0 \<or> removed > 0) \<and> \<not> first then [RequestSync] else []) @
          (if rc_homegraph rc \<and> length changed > 0 then [ReportState changed] else []) @
          (if streams then [StreamsChanged] else []),
          s3\<lparr>br_src := set_last_update upd (br_src s3)\<rparr>))"

text \<open>\<open>Refresh\<close>: an error of the bootstrap changes nothing.\<close>

definition refresh ::
  "reconciler_config \<Rightarrow> nat \<Rightarrow> string + unifi_camera list \<times> string \<Rightarrow> bridge_state
   \<Rightarrow> (string + string) \<times> bridge_action list \<times> bridge_state" where
  "refresh rc gen answer s =
     (case answer of
        Inl e \<Rightarrow> (Inl e, [], s)
      | Inr (cams, upd) \<Rightarrow> (Inr upd, refresh_apply rc gen cams upd s))"

section \<open>Events of the updates WebSocket\<close>

text \<open>
  \<open>json.Unmarshal\<close> into a fresh string or bool: null leaves the zero value, without an error.
\<close>

definition decode_online :: "jobject \<Rightarrow> bool option" where
  "decode_online m =
     (let state = (case map_of m ''state'' of
            Some (JStr s) \<Rightarrow> Some (equal_fold s ''CONNECTED'')
          | Some JNull \<Rightarrow> Some (equal_fold [] ''CONNECTED'')
          | _ \<Rightarrow> None)
      in case state of
           Some b \<Rightarrow> Some b
         | None \<Rightarrow>
             (case map_of m ''isConnected'' of
                Some (JBool b) \<Rightarrow> Some b | Some JNull \<Rightarrow> Some False | _ \<Rightarrow> None))"

definition handle_state_change ::
  "reconciler_config \<Rightarrow> string \<Rightarrow> bool \<Rightarrow> bridge_state \<Rightarrow> bridge_action list \<times> bridge_state" where
  "handle_state_change rc i online s =
     (case set_online i online (br_src s) of ((changed, cam), src) \<Rightarrow>
        let s1 = s\<lparr>br_src := src\<rparr> in
        if cam = None \<or> \<not> changed then ([], s1)
        else if \<not> rc_homegraph rc \<or> \<not> is_allowed src i then ([], s1)
        else ([ReportState [(i, online)]], s1))"

definition handle_ring :: "reconciler_config \<Rightarrow> string \<Rightarrow> bridge_state \<Rightarrow> bridge_action list" where
  "handle_ring rc i s =
     (if \<not> rc_homegraph rc \<or> \<not> is_allowed (br_src s) i then []
      else case snapshot_map (br_src s) i of
             None \<Rightarrow> []
           | Some cam \<Rightarrow> if \<not> is_doorbell cam then [] else [NotifyRing i])"

definition has_field :: "jobject \<Rightarrow> string \<Rightarrow> bool" where
  "has_field m k \<longleftrightarrow> map_of m k \<noteq> None"

text \<open>
  The body of the loop over the events: the actions, whether \<open>fire\<close> is called, and the state.
\<close>

definition handle_event ::
  "reconciler_config \<Rightarrow> unifi_event \<Rightarrow> bridge_state \<Rightarrow> bridge_action list \<times> bool \<times> bridge_state" where
  "handle_event rc ev s =
     (let s = (if ev_new_update ev \<noteq> [] then s\<lparr>br_src := set_last_update (ev_new_update ev) (br_src s)\<rparr> else s)
      in if ev_model_key ev \<noteq> ''camera'' then ([], False, s)
      else
        let update = (ev_action ev = ''update'');
            ring = (if update \<and> has_field (ev_fields ev) ''lastRing'' then handle_ring rc (ev_id ev) s else []);
            (acts, s) = (if update \<or> ev_action ev = ''add''
               then (case decode_online (ev_fields ev) of
                       Some online \<Rightarrow> handle_state_change rc (ev_id ev) online s
                     | None \<Rightarrow> ([], s))
               else ([], s))
        in if update \<and> \<not> has_field (ev_fields ev) ''state'' \<and> \<not> has_field (ev_fields ev) ''isConnected'' \<and>
              \<not> has_field (ev_fields ev) ''name'' \<and> \<not> has_field (ev_fields ev) ''channels''
           then (ring @ acts, False, s)
           else (ring @ acts, True, s))"

section \<open>The registry and the URL table agree\<close>

text \<open>
  The invariant: the registry has a stream under exactly the ids of the URL table, and its producer
  dials that URL.
\<close>

definition stream_dials :: "(rtsp_producer, string) stream option \<Rightarrow> string \<Rightarrow> string \<times> bool \<Rightarrow> bool" where
  "stream_dials st i e \<longleftrightarrow>
     (case st of None \<Rightarrow> False
      | Some st \<Rightarrow> stream_name st = i \<and> (p_url (producer st), p_verify_tls (producer st)) = e)"

definition entry_ok :: "reconciler_config \<Rightarrow> bridge_state \<Rightarrow> string \<Rightarrow> bool" where
  "entry_ok rc s i \<longleftrightarrow>
     (case cs_rtsp_urls (br_src s) i of
        None \<Rightarrow> reg_get i (br_reg s) = None
      | Some e \<Rightarrow> snd e = rc_verify rc \<and>
          (case reg_get i (br_reg s) of
             None \<Rightarrow> False | Some a \<Rightarrow> a < br_next s \<and> stream_dials (br_heap s a) i e))"

definition reg_ok :: "reconciler_config \<Rightarrow> bridge_state \<Rightarrow> bool" where
  "reg_ok rc s \<longleftrightarrow> distinct (reg_names (br_reg s)) \<and> (\<forall>i. entry_ok rc s i)"

text \<open>What the table should say of a camera.\<close>

definition stream_entry :: "reconciler_config \<Rightarrow> unifi_camera \<Rightarrow> (string \<times> bool) option" where
  "stream_entry rc cam =
     map_option (\<lambda>ch. (''rtsps://'' @ host_only (rc_host rc) @ '':7441/'' @ ch_alias ch, rc_verify rc))
       (best_rtsp_channel cam)"

text \<open>The last camera with an id, as a Go map fills up.\<close>

definition camera_of :: "unifi_camera list \<Rightarrow> string \<Rightarrow> unifi_camera option" where
  "camera_of cams = map_of (rev (map (\<lambda>c. (uc_id c, c)) cams))"

lemma camera_of_simps [simp]:
  "camera_of [] i = None"
  "camera_of (c # cams) i =
   (case camera_of cams i of Some d \<Rightarrow> Some d | None \<Rightarrow> if uc_id c = i then Some c else None)"
  by (auto simp: camera_of_def map_add_def split: option.splits)

lemma camera_of_None: "camera_of cams i = None \<longleftrightarrow> i \<notin> uc_id ` set cams"
  by (induction cams) (auto split: option.splits)

lemma camera_of_distinct: "distinct (map uc_id cams) \<Longrightarrow> c \<in> set cams \<Longrightarrow> camera_of cams (uc_id c) = Some c"
proof (induction cams)
  case (Cons d cams)
  show ?case
  proof (cases "c \<in> set cams")
    case False
    then have "c = d" "camera_of cams (uc_id d) = None" using Cons.prems by (auto simp: camera_of_None)
    then show ?thesis by simp
  qed (use Cons in auto)
qed simp

lemma entry_ok_cong:
  "cs_rtsp_urls (br_src s') i = cs_rtsp_urls (br_src s) i \<Longrightarrow> reg_get i (br_reg s') = reg_get i (br_reg s) \<Longrightarrow>
   br_next s \<le> br_next s' \<Longrightarrow> (\<And>a. a < br_next s \<Longrightarrow> br_heap s' a = br_heap s a) \<Longrightarrow> entry_ok rc s i \<Longrightarrow>
   entry_ok rc s' i"
  by (auto simp: entry_ok_def split: option.splits)

lemma reg_ok_new [simp, inv_intro]: "reg_ok rc (new_bridge exposed)"
  by (simp add: reg_ok_def entry_ok_def new_bridge_def new_camera_source_def set_allowed_def reg_names_def
      reg_get_def)

lemma reg_ok_entry:
  assumes "reg_ok rc s"
  shows "cs_rtsp_urls (br_src s) i = Some (url, v) \<Longrightarrow> v = rc_verify rc"
    and "reg_get i (br_reg s) = None \<longleftrightarrow> cs_rtsp_urls (br_src s) i = None"
proof -
  have "entry_ok rc s i" using assms by (simp add: reg_ok_def)
  then show "cs_rtsp_urls (br_src s) i = Some (url, v) \<Longrightarrow> v = rc_verify rc"
    and "reg_get i (br_reg s) = None \<longleftrightarrow> cs_rtsp_urls (br_src s) i = None"
    by (auto simp: entry_ok_def split: option.splits)
qed

lemma reg_ok_names: "reg_ok rc s \<Longrightarrow> set (reg_names (br_reg s)) = dom (cs_rtsp_urls (br_src s))"
  using reg_ok_entry(2) by (auto simp: set_reg_names)

lemma reg_ok_frame:
  assumes "reg_ok rc s" and "br_reg s' = br_reg s" and "br_heap s' = br_heap s" and "br_next s' = br_next s"
    and "cs_rtsp_urls (br_src s') = cs_rtsp_urls (br_src s)"
  shows "reg_ok rc s'"
  using assms entry_ok_cong [of s' _ s rc] by (simp add: reg_ok_def)

lemma reg_ok_unregister [inv_intro]:
  assumes "reg_ok rc s"
  shows "reg_ok rc (unregister_stream i s)"
proof -
  have "entry_ok rc (unregister_stream i s) j" for j
    using assms entry_ok_cong [of "unregister_stream i s" j s rc]
    by (cases "j = i") (auto simp: reg_ok_def unregister_stream_def delete_rtsp_url_def entry_ok_def)
  then show ?thesis
    using assms by (simp add: reg_ok_def unregister_stream_def distinct_reg_names)
qed

lemma reg_ok_register [inv_intro]:
  assumes "reg_ok rc s"
  shows "reg_ok rc (register_stream rc i url s)"
proof -
  have "entry_ok rc (register_stream rc i url s) j" for j
    using assms entry_ok_cong [of "register_stream rc i url s" j s rc]
    by (cases "j = i")
      (auto simp: reg_ok_def register_stream_def set_rtsp_url_def entry_ok_def stream_dials_def new_stream_def
        new_producer_def)
  then show ?thesis
    using assms by (simp add: reg_ok_def register_stream_def distinct_reg_names)
qed

lemma register_fields [frame]:
  "br_src (register_stream rc i url s) = set_rtsp_url i url (rc_verify rc) (br_src s)"
  "br_src (unregister_stream i s) = delete_rtsp_url i (br_src s)"
  "br_refreshed (register_stream rc i url s) = br_refreshed s"
  "br_refreshed (unregister_stream i s) = br_refreshed s"
  by (simp_all add: register_stream_def unregister_stream_def)

lemma sync_stream_spec:
  assumes "reg_ok rc s" and "sync_stream rc cam s = (b, s')"
  shows "reg_ok rc s'"
    and "br_src s' = (br_src s)\<lparr>cs_rtsp_urls := (cs_rtsp_urls (br_src s))(uc_id cam := stream_entry rc cam)\<rparr>"
    and "b \<longleftrightarrow> cs_rtsp_urls (br_src s) (uc_id cam) \<noteq> stream_entry rc cam"
    and "br_refreshed s' = br_refreshed s"
proof -
  let ?t = "cs_rtsp_urls (br_src s)" and ?i = "uc_id cam"
  consider (keep) "?t ?i = stream_entry rc cam" "(b, s') = (False, s)"
    | (drop) "?t ?i \<noteq> None" "stream_entry rc cam = None" "(b, s') = (True, unregister_stream ?i s)"
    | (put) url where "?t ?i \<noteq> Some (url, rc_verify rc)" "stream_entry rc cam = Some (url, rc_verify rc)"
        "(b, s') = (True, register_stream rc ?i url s)"
  proof (cases "best_rtsp_channel cam")
    case None
    then have "stream_entry rc cam = None" by (simp add: stream_entry_def)
    then show thesis
      using that(1,2) assms(2) None by (cases "?t ?i") (simp_all add: sync_stream_def rtsp_url_def)
  next
    case (Some ch)
    define url where "url = ''rtsps://'' @ host_only (rc_host rc) @ '':7441/'' @ ch_alias ch"
    have e: "stream_entry rc cam = Some (url, rc_verify rc)"
      using Some by (simp add: stream_entry_def url_def)
    have "usable ch"
      using best_channel_mem [of None "uc_channels cam" ch] Some by (simp add: best_rtsp_channel_def)
    then have "stream_url (rc_host rc) ch = Inr url" by (simp add: stream_url_def usable_def url_def)
    then have r: "(b, s') = (if rtsp_url (br_src s) ?i = Some url then (False, s) else (True, register_stream rc ?i url s))"
      using assms(2) Some by (simp add: sync_stream_def)
    show thesis
    proof (cases "rtsp_url (br_src s) ?i = Some url")
      case True
      then have "?t ?i = Some (url, rc_verify rc)"
        using reg_ok_entry(1) [OF assms(1)] by (auto simp: rtsp_url_def)
      with e r True show thesis using that(1) by simp
    next
      case False
      then have "?t ?i \<noteq> Some (url, rc_verify rc)" by (auto simp: rtsp_url_def)
      with e r False show thesis using that(3) by simp
    qed
  qed
  then have *: "reg_ok rc s' \<and> br_src s' = (br_src s)\<lparr>cs_rtsp_urls := ?t(?i := stream_entry rc cam)\<rparr> \<and>
    (b \<longleftrightarrow> ?t ?i \<noteq> stream_entry rc cam) \<and> br_refreshed s' = br_refreshed s"
    by cases
      (use assms(1) in \<open>simp_all add: fun_upd_idem reg_ok_unregister reg_ok_register frame delete_rtsp_url_def set_rtsp_url_def\<close>)
  then show "reg_ok rc s'" "br_src s' = (br_src s)\<lparr>cs_rtsp_urls := ?t(?i := stream_entry rc cam)\<rparr>"
    "b \<longleftrightarrow> ?t ?i \<noteq> stream_entry rc cam" "br_refreshed s' = br_refreshed s"
    by blast+
qed

lemma is_allowed_urls [simp]: "is_allowed (src\<lparr>cs_rtsp_urls := t\<rparr>) i = is_allowed src i"
  by (simp add: is_allowed_def)

lemma merge_camera_urls [simp]: "merge_camera prev (src\<lparr>cs_rtsp_urls := t\<rparr>) gen cam = merge_camera prev src gen cam"
  by (auto simp: merge_camera_def online_changed_since_def Let_def split: option.splits)

lemma refresh_loop_spec:
  assumes "reg_ok rc s" and "refresh_loop rc prev gen cams (cs, changed, streams) s = ((cs', changed', streams'), s')"
  shows "reg_ok rc s' \<and>
    br_src s' = (br_src s)\<lparr>cs_rtsp_urls := (\<lambda>i. case camera_of cams i of
      None \<Rightarrow> cs_rtsp_urls (br_src s) i | Some c \<Rightarrow> stream_entry rc c)\<rparr> \<and>
    cs' = cs @ map (merge_camera prev (br_src s) gen) cams \<and>
    (streams \<or> cs_rtsp_urls (br_src s') \<noteq> cs_rtsp_urls (br_src s) \<longrightarrow> streams') \<and>
    br_refreshed s' = br_refreshed s"
  using assms
proof (induction cams arbitrary: cs changed streams s)
  case (Cons cam cams)
  obtain b s1 where b: "sync_stream rc cam s = (b, s1)" by (cases "sync_stream rc cam s")
  note s1 = sync_stream_spec [OF Cons.prems(1) b]
  let ?c = "merge_camera prev (br_src s) gen cam"
  obtain ch where "refresh_loop rc prev gen cams (cs @ [?c], ch, streams \<or> b) s1 = ((cs', changed', streams'), s')"
    using Cons.prems(2) by (simp add: b Let_def)
  note IH = Cons.IH [OF s1(1) this]
  show ?case
    using IH s1(3) by (auto simp: s1(2,4) fun_eq_iff split: option.splits)
qed simp_all

lemma remove_gone_spec:
  assumes "reg_ok rc s" and "remove_gone seen ns (removed, streams) s = ((removed', streams'), s')"
  shows "reg_ok rc s' \<and>
    br_src s' = (br_src s)\<lparr>cs_rtsp_urls := (\<lambda>i. if i \<in> set ns \<and> i \<notin> seen then None else cs_rtsp_urls (br_src s) i)\<rparr> \<and>
    removed' = removed + length (filter (\<lambda>n. n \<notin> seen \<and> is_allowed (br_src s) n) ns) \<and>
    (streams' \<longleftrightarrow> streams \<or> \<not> set ns \<subseteq> seen) \<and> br_refreshed s' = br_refreshed s"
  using assms
proof (induction ns arbitrary: removed streams s)
  case (Cons n ns)
  show ?case
  proof (cases "n \<in> seen")
    case True
    then show ?thesis using Cons by (auto intro!: camera_source.equality)
  next
    case False
    have a: "is_allowed (br_src (unregister_stream n s)) = is_allowed (br_src s)" by (simp add: frame fun_eq_iff)
    have r: "remove_gone seen ns (if is_allowed (br_src s) n then removed + 1 else removed, True)
      (unregister_stream n s) = ((removed', streams'), s')"
      using Cons.prems(2) False by simp
    show ?thesis
      using Cons.IH [OF reg_ok_unregister [OF Cons.prems(1), of n] r] False unfolding a
      by (auto simp: frame delete_rtsp_url_def intro!: camera_source.equality)
  qed
qed simp

lemma cam_id_merge [simp]: "cam_id (merge_camera prev src gen cam) = uc_id cam"
  by (simp add: merge_camera_def Let_def split: option.splits)

text \<open>The flags to report: those of the cameras that are new, or whose flag is not the one before.\<close>

definition flips :: "(string \<Rightarrow> camera option) \<Rightarrow> camera list \<Rightarrow> (string \<times> bool) list" where
  "flips prev cs =
     map (\<lambda>c. (cam_id c, cam_online c))
       (filter (\<lambda>c. map_option cam_online (prev (cam_id c)) \<noteq> Some (cam_online c)) cs)"

lemma flips_append: "flips prev (xs @ ys) = flips prev xs @ flips prev ys"
  by (simp add: flips_def)

lemma refresh_loop_changed:
  assumes "reg_ok rc s" and "refresh_loop rc prev gen cams (cs, changed, streams) s = ((cs', changed', streams'), s')"
    and "distinct (map uc_id cams)" and "fst ` set changed \<inter> uc_id ` set cams = {}"
  shows "changed' = changed @ flips prev (map (merge_camera prev (br_src s) gen) cams) \<and>
    (streams' \<longleftrightarrow> streams \<or> (\<exists>c \<in> set cams. cs_rtsp_urls (br_src s) (uc_id c) \<noteq> stream_entry rc c))"
  using assms
proof (induction cams arbitrary: cs changed streams s)
  case (Cons cam cams)
  obtain b s1 where b: "sync_stream rc cam s = (b, s1)" by (cases "sync_stream rc cam s")
  note s1 = sync_stream_spec [OF Cons.prems(1) b]
  let ?c = "merge_camera prev (br_src s) gen cam"
  let ?ch = "changed @ flips prev [?c]"
  have "map_of changed (uc_id cam) = None" using Cons.prems(4) by (auto simp: map_of_eq_None_iff)
  then have r: "refresh_loop rc prev gen cams (cs @ [?c], ?ch, streams \<or> b) s1 = ((cs', changed', streams'), s')"
    using Cons.prems(2) by (auto simp: b Let_def flips_def update_absent split: option.splits if_splits)
  have h: "fst ` set ?ch \<inter> uc_id ` set cams = {}"
    using Cons.prems(3,4) by (auto simp: flips_def split: if_splits)
  have d: "distinct (map uc_id cams)" using Cons.prems(3) by simp
  have m: "merge_camera prev (br_src s1) gen = merge_camera prev (br_src s) gen"
    by (simp add: s1(2) fun_eq_iff)
  have "changed' = ?ch @ flips prev (map (merge_camera prev (br_src s) gen) cams)"
    using Cons.IH [OF s1(1) r d h] unfolding m by (rule conjunct1)
  then have "changed' = changed @ flips prev (map (merge_camera prev (br_src s) gen) (cam # cams))"
    using flips_append [of prev "[?c]" "map (merge_camera prev (br_src s) gen) cams"] by simp
  moreover have "cs_rtsp_urls (br_src s1) (uc_id c) = cs_rtsp_urls (br_src s) (uc_id c)" if "c \<in> set cams" for c
    using imageI [OF that, of uc_id] Cons.prems(3) by (auto simp: s1(2))
  ultimately show ?case
    using Cons.IH [OF s1(1) r d h, THEN conjunct2] s1(3) by auto
qed (simp add: flips_def)

text \<open>What \<open>Refresh\<close> does, in one equation per part of the state.\<close>

lemma refresh_apply_spec:
  assumes "reg_ok rc s" and "refresh_apply rc gen cams upd s = (acts, s')"
  defines "prev \<equiv> snapshot_map (br_src s)"
  defines "cs \<equiv> map (merge_camera prev (br_src s) gen) cams"
  shows "reg_ok rc s'"
    and "cs_cameras (br_src s') = cs"
    and "cs_rtsp_urls (br_src s') i = Option.bind (camera_of cams i) (stream_entry rc)"
    and "cs_allowed (br_src s') = cs_allowed (br_src s)" and "br_refreshed s'"
    and "cs_gen (br_src s') = cs_gen (br_src s)" and "cs_online_gen (br_src s') = cs_online_gen (br_src s)"
    and "RequestSync \<in> set acts \<longleftrightarrow> rc_homegraph rc \<and> br_refreshed s \<and>
      ((\<exists>c \<in> set cams. prev (uc_id c) = None \<and> is_allowed (br_src s) (uc_id c)) \<or>
       (\<exists>i. cs_rtsp_urls (br_src s) i \<noteq> None \<and> i \<notin> uc_id ` set cams \<and> is_allowed (br_src s) i))"
    and "distinct (map uc_id cams) \<Longrightarrow> ReportState st \<in> set acts \<longleftrightarrow> rc_homegraph rc \<and> st \<noteq> [] \<and>
      st = filter (\<lambda>e. is_allowed (br_src s) (fst e)) (flips prev cs)"
    and "cs_rtsp_urls (br_src s') \<noteq> cs_rtsp_urls (br_src s) \<Longrightarrow> StreamsChanged \<in> set acts"
    and "distinct (map uc_id cams) \<Longrightarrow> StreamsChanged \<in> set acts \<Longrightarrow>
      cs_rtsp_urls (br_src s') \<noteq> cs_rtsp_urls (br_src s)"
    and "set acts \<subseteq> {RequestSync, StreamsChanged} \<union> range ReportState"
    and "ReportState st \<in> set acts \<Longrightarrow> rc_homegraph rc \<and> st \<noteq> [] \<and> list_all (\<lambda>e. is_allowed (br_src s) (fst e)) st"
proof -
  let ?s0 = "s\<lparr>br_refreshed := True\<rparr>"
  obtain cs1 ch1 st1 s1 where 1: "refresh_loop rc prev gen cams ([], [], False) ?s0 = ((cs1, ch1, st1), s1)"
    by (metis prod.collapse)
  obtain r2 st2 s2 where 2: "remove_gone (set (map uc_id cams)) (reg_names (br_reg s1)) (0, st1) s1 = ((r2, st2), s2)"
    by (metis prod.collapse)
  have "reg_ok rc ?s0" by (rule reg_ok_frame [OF assms(1)]) simp_all
  note l = refresh_loop_spec [OF this 1] and ch = refresh_loop_changed [OF this 1]
  note g = remove_gone_spec [OF l [THEN conjunct1] 2]
  let ?s3 = "s2\<lparr>br_src := set_cameras cs1 (br_src s2)\<rparr>"
  define added where "added = length (filter (\<lambda>i. prev i = None \<and> is_allowed (br_src s1) i) (remdups (map uc_id cams)))"
  define chg where "chg = filter (\<lambda>e. is_allowed (br_src ?s3) (fst e)) ch1"
  have "refresh_apply rc gen cams upd s =
    ((if rc_homegraph rc \<and> (added > 0 \<or> r2 > 0) \<and> br_refreshed s then [RequestSync] else []) @
     (if rc_homegraph rc \<and> length chg > 0 then [ReportState chg] else []) @ (if st2 then [StreamsChanged] else []),
     ?s3\<lparr>br_src := set_last_update upd (br_src ?s3)\<rparr>)"
    using 1 2 by (simp add: refresh_apply_def Let_def prev_def added_def chg_def)
  then have s': "s' = ?s3\<lparr>br_src := set_last_update upd (br_src ?s3)\<rparr>" and acts: "acts =
    (if rc_homegraph rc \<and> (added > 0 \<or> r2 > 0) \<and> br_refreshed s then [RequestSync] else []) @
     (if rc_homegraph rc \<and> length chg > 0 then [ReportState chg] else []) @ (if st2 then [StreamsChanged] else [])"
    using assms(2) by simp_all
  have src: "cs_cameras (br_src s') = cs1" "cs_rtsp_urls (br_src s') = cs_rtsp_urls (br_src s2)"
    "cs_allowed (br_src s') = cs_allowed (br_src s2)"
    by (simp_all add: s' set_cameras_def set_last_update_def)
  show "reg_ok rc s'"
    by (rule reg_ok_frame [OF g [THEN conjunct1]]) (simp_all add: s' set_cameras_def set_last_update_def)
  show "cs_cameras (br_src s') = cs" using l by (simp add: src cs_def prev_def)
  show "cs_allowed (br_src s') = cs_allowed (br_src s)" using l g by (simp add: src)
  show "br_refreshed s'" using l g by (simp add: s')
  show "cs_gen (br_src s') = cs_gen (br_src s)" "cs_online_gen (br_src s') = cs_online_gen (br_src s)"
    using l g by (simp_all add: s' set_cameras_def set_last_update_def)
  have s1: "br_src s1 = (br_src s)\<lparr>cs_rtsp_urls := cs_rtsp_urls (br_src s1)\<rparr>"
    and t1: "cs_rtsp_urls (br_src s1) i =
      (case camera_of cams i of None \<Rightarrow> cs_rtsp_urls (br_src s) i | Some c \<Rightarrow> stream_entry rc c)" for i
    using l by (simp_all split: option.split)
  have a1: "is_allowed (br_src s1) = is_allowed (br_src s)"
    by (subst s1) (simp add: fun_eq_iff)
  have a3: "is_allowed (br_src ?s3) = is_allowed (br_src s)"
    using g by (simp add: a1 fun_eq_iff)
  have names: "set (reg_names (br_reg s1)) = dom (cs_rtsp_urls (br_src s1))"
    by (rule reg_ok_names [OF l [THEN conjunct1]])
  show "cs_rtsp_urls (br_src s') i = Option.bind (camera_of cams i) (stream_entry rc)"
    using g by (auto simp: src names t1 camera_of_None [symmetric] split: option.splits)
  have "added > 0 \<longleftrightarrow> (\<exists>c \<in> set cams. prev (uc_id c) = None \<and> is_allowed (br_src s) (uc_id c))"
    by (auto simp: added_def a1 filter_empty_conv)
  moreover have "r2 > 0 \<longleftrightarrow>
      (\<exists>i. cs_rtsp_urls (br_src s) i \<noteq> None \<and> i \<notin> uc_id ` set cams \<and> is_allowed (br_src s) i)"
  proof -
    have "r2 > 0 \<longleftrightarrow> (\<exists>i \<in> dom (cs_rtsp_urls (br_src s1)). i \<notin> uc_id ` set cams \<and> is_allowed (br_src s) i)"
      using g by (auto simp: a1 filter_empty_conv names)
    also have "\<dots> \<longleftrightarrow> (\<exists>i. cs_rtsp_urls (br_src s1) i \<noteq> None \<and> i \<notin> uc_id ` set cams \<and> is_allowed (br_src s) i)"
      by blast
    finally show ?thesis
      by (auto simp: t1 camera_of_None [symmetric] split: option.splits)
  qed
  moreover have iff: "RequestSync \<in> set acts \<longleftrightarrow> rc_homegraph rc \<and> br_refreshed s \<and> (added > 0 \<or> r2 > 0)"
    by (auto simp: acts)
  ultimately show "RequestSync \<in> set acts \<longleftrightarrow> rc_homegraph rc \<and> br_refreshed s \<and>
      ((\<exists>c \<in> set cams. prev (uc_id c) = None \<and> is_allowed (br_src s) (uc_id c)) \<or>
       (\<exists>i. cs_rtsp_urls (br_src s) i \<noteq> None \<and> i \<notin> uc_id ` set cams \<and> is_allowed (br_src s) i))"
    using iff by (simp only:)
  show "ReportState st \<in> set acts \<longleftrightarrow> rc_homegraph rc \<and> st \<noteq> [] \<and>
      st = filter (\<lambda>e. is_allowed (br_src s) (fst e)) (flips prev cs)" if "distinct (map uc_id cams)"
  proof -
    have "ch1 = flips prev cs" using ch [OF that] by (simp add: cs_def)
    then have "chg = filter (\<lambda>e. is_allowed (br_src s) (fst e)) (flips prev cs)"
      unfolding chg_def a3 by simp
    then show ?thesis by (auto simp: acts)
  qed
  show "StreamsChanged \<in> set acts" if "cs_rtsp_urls (br_src s') \<noteq> cs_rtsp_urls (br_src s)"
  proof -
    have "st2" using that l g names by (auto simp: src fun_eq_iff split: if_splits)
    then show ?thesis by (simp add: acts)
  qed
  show "cs_rtsp_urls (br_src s') \<noteq> cs_rtsp_urls (br_src s)"
    if d: "distinct (map uc_id cams)" and "StreamsChanged \<in> set acts"
  proof -
    have u: "cs_rtsp_urls (br_src s') j = Option.bind (camera_of cams j) (stream_entry rc)" for j
      using g by (auto simp: src names t1 camera_of_None [symmetric] split: option.splits)
    have "st2" using that(2) by (simp add: acts split: if_splits)
    then have "st1 \<or> \<not> dom (cs_rtsp_urls (br_src s1)) \<subseteq> uc_id ` set cams" using g by (simp add: names)
    then show ?thesis
    proof
      assume st1
      then obtain c where "c \<in> set cams" "cs_rtsp_urls (br_src s) (uc_id c) \<noteq> stream_entry rc c"
        using ch [OF d] by auto
      then show ?thesis using u [of "uc_id c"] camera_of_distinct [OF d] by auto
    next
      assume "\<not> dom (cs_rtsp_urls (br_src s1)) \<subseteq> uc_id ` set cams"
      then obtain j where "cs_rtsp_urls (br_src s1) j \<noteq> None" "camera_of cams j = None"
        by (auto simp: camera_of_None)
      then show ?thesis using u [of j] t1 [of j] by auto
    qed
  qed
  show "set acts \<subseteq> {RequestSync, StreamsChanged} \<union> range ReportState"
    by (auto simp: acts)
  show "rc_homegraph rc \<and> st \<noteq> [] \<and> list_all (\<lambda>e. is_allowed (br_src s) (fst e)) st" if "ReportState st \<in> set acts"
    using that unfolding acts chg_def a3 by (auto simp: list_all_iff split: if_splits)
qed

section \<open>Online flips between the request and its answer\<close>

text \<open>WebSocket flips in a row, and whether one of them changed the flag of camera \<open>i\<close>.\<close>

fun set_onlines :: "(string \<times> bool) list \<Rightarrow> camera_source \<Rightarrow> camera_source" where
  "set_onlines [] src = src"
| "set_onlines ((j, b) # fs) src = set_onlines fs (snd (set_online j b src))"

fun flipped :: "string \<Rightarrow> (string \<times> bool) list \<Rightarrow> camera_source \<Rightarrow> bool" where
  "flipped i [] src \<longleftrightarrow> False"
| "flipped i ((j, b) # fs) src \<longleftrightarrow>
     j = i \<and> fst (fst (set_online j b src)) \<or> flipped i fs (snd (set_online j b src))"

definition gens_ok :: "camera_source \<Rightarrow> bool" where
  "gens_ok src \<longleftrightarrow> (\<forall>i. cs_online_gen src i \<le> cs_gen src)"

lemma gens_ok_new [simp, inv_intro]: "gens_ok (new_camera_source ids)"
  by (simp add: gens_ok_def new_camera_source_def set_allowed_def)

lemma set_online_gen:
  assumes "gens_ok src"
  shows "gens_ok (snd (set_online j b src))" and "cs_gen src \<le> cs_gen (snd (set_online j b src))"
    and "g \<le> cs_gen src \<Longrightarrow> g < cs_online_gen (snd (set_online j b src)) i \<longleftrightarrow>
      j = i \<and> fst (fst (set_online j b src)) \<or> g < cs_online_gen src i"
  using assms by (auto simp: set_online_def gens_ok_def le_Suc_eq split: option.splits)

lemma set_onlines_gen:
  "gens_ok src \<Longrightarrow> g \<le> cs_gen src \<Longrightarrow>
   gens_ok (set_onlines fs src) \<and> (g < cs_online_gen (set_onlines fs src) i \<longleftrightarrow> flipped i fs src \<or> g < cs_online_gen src i)"
proof (induction fs arbitrary: src)
  case (Cons f fs)
  obtain j b where "f = (j, b)" by fastforce
  then show ?case
    using Cons.IH [of "snd (set_online j b src)"] Cons.prems set_online_gen(1,2) [OF Cons.prems(1), of j b]
      set_online_gen(3) [OF Cons.prems(1), of g j b i]
    by auto
qed simp

lemma set_onlines_ids: "map cam_id (cs_cameras (set_onlines fs src)) = map cam_id (cs_cameras src)"
proof (induction fs arbitrary: src)
  case (Cons f fs)
  obtain j b where "f = (j, b)" by fastforce
  then show ?case
    using Cons.IH [of "snd (set_online j b src)"] by (auto simp: set_online_def split: option.splits)
qed simp

lemma find_camera_map_merge:
  "distinct (map uc_id cams) \<Longrightarrow> c \<in> set cams \<Longrightarrow>
   find_camera (uc_id c) (map (merge_camera prev src gen) cams) = Some (merge_camera prev src gen c)"
  by (induction cams) auto

lemma snapshot_map_None: "snapshot_map s i = None \<longleftrightarrow> i \<notin> cam_id ` set (cs_cameras s)"
  by (simp add: snapshot_map_def map_of_eq_None_iff image_image)

section \<open>Properties of Refresh\<close>

text \<open>
  After a refresh the streams mirror the controller, whatever was registered before. For every
  id, the URL table has exactly the URL of the best RTSP channel of the bootstrap's camera with that
  id (none for a camera that is gone or has no such channel), the registry has a stream under
  exactly those ids, and its producer dials that URL with the configured TLS check. The invariant
  holds in the initial state and after every refresh.
\<close>

theorem refresh_mirrors_controller:
  assumes "reg_ok rc s" and "refresh rc gen (Inr (cams, upd)) s = (r, acts, s')"
  shows "reg_ok rc s' \<and> cs_rtsp_urls (br_src s') = (\<lambda>i. Option.bind (camera_of cams i) (stream_entry rc)) \<and>
    set (reg_names (br_reg s')) = {i. \<exists>c. camera_of cams i = Some c \<and> best_rtsp_channel c \<noteq> None} \<and>
    reg_ok rc (new_bridge exposed)"
proof -
  have "refresh_apply rc gen cams upd s = (acts, s')" using assms(2) by (simp add: refresh_def)
  note sp = refresh_apply_spec [OF assms(1) this]
  have t: "cs_rtsp_urls (br_src s') = (\<lambda>i. Option.bind (camera_of cams i) (stream_entry rc))"
    using sp(3) by (simp add: fun_eq_iff)
  moreover have "set (reg_names (br_reg s')) = {i. \<exists>c. camera_of cams i = Some c \<and> best_rtsp_channel c \<noteq> None}"
    using reg_ok_names [OF sp(1)]
    by (auto simp: t dom_def stream_entry_def Option.bind_eq_Some_conv split: option.splits)
  ultimately show ?thesis using sp(1) by simp
qed

text \<open>
  C19: what a refresh tells Home Graph, exactly. With distinct camera ids, a refresh after the first
  one asks for a SYNC if and only if an exposed camera is new, or an exposed id that had a stream is
  gone; the first one never does. These are the only two things it compares, so a renamed camera is not announced, although the
  README says so, nor one that goes without ever having had a stream
  (\<open>removed_camera_without_stream_not_synced\<close>). It reports the states of exactly the exposed cameras that are new
  or whose flag differs from the one before, in the order of the bootstrap, and sends no empty
  report. The stream servers are notified exactly when the URL table changed.
\<close>

theorem refresh_reports_exactly:
  assumes "reg_ok rc s" and "rc_homegraph rc" and "distinct (map uc_id cams)"
    and "refresh rc gen (Inr (cams, upd)) s = (r, acts, s')"
    and "prev = snapshot_map (br_src s)"
  shows "(RequestSync \<in> set acts \<longleftrightarrow> br_refreshed s \<and>
      ((\<exists>c \<in> set cams. prev (uc_id c) = None \<and> is_allowed (br_src s) (uc_id c)) \<or>
       (\<exists>i. cs_rtsp_urls (br_src s) i \<noteq> None \<and> i \<notin> uc_id ` set cams \<and> is_allowed (br_src s) i))) \<and>
    (ReportState st \<in> set acts \<longleftrightarrow> st \<noteq> [] \<and>
      st = [(cam_id c, cam_online c). c \<leftarrow> cs_cameras (br_src s'), is_allowed (br_src s) (cam_id c),
              map_option cam_online (prev (cam_id c)) \<noteq> Some (cam_online c)]) \<and>
    (StreamsChanged \<in> set acts \<longleftrightarrow> cs_rtsp_urls (br_src s') \<noteq> cs_rtsp_urls (br_src s))"
proof -
  have "refresh_apply rc gen cams upd s = (acts, s')" using assms(4) by (simp add: refresh_def)
  note sp = refresh_apply_spec [OF assms(1) this, folded assms(5)]
  have "filter (\<lambda>e. is_allowed (br_src s) (fst e)) (flips prev cs) =
    [(cam_id c, cam_online c). c \<leftarrow> cs, is_allowed (br_src s) (cam_id c),
       map_option cam_online (prev (cam_id c)) \<noteq> Some (cam_online c)]" for cs
    by (induction cs) (simp_all add: flips_def)
  then show ?thesis using sp(2,8,10) sp(9,11) [OF assms(3)] assms(2) by auto
qed

text \<open>
  C30: an event of the WebSocket is newer than a bootstrap whose request was sent before it. For a
  camera of the snapshot, the flag after the refresh is the last one the events set when they
  changed it between the request and its answer, and the bootstrap's own otherwise.
\<close>

theorem websocket_flag_wins:
  assumes "gens_ok src" and "distinct (map cam_id (cs_cameras src))" and "uc_id c \<in> cam_id ` set (cs_cameras src)"
    and "br_src s = set_onlines fs src" and "reg_ok rc s" and "distinct (map uc_id cams)" and "c \<in> set cams"
    and "refresh rc (online_generation src) (Inr (cams, upd)) s = (r, acts, s')"
  shows "map_option cam_online (find_camera (uc_id c) (cs_cameras (br_src s'))) =
    (if flipped (uc_id c) fs src then map_option cam_online (find_camera (uc_id c) (cs_cameras (br_src s)))
     else Some (uc_online c))"
proof -
  have "refresh_apply rc (online_generation src) cams upd s = (acts, s')" using assms(8) by (simp add: refresh_def)
  note sp = refresh_apply_spec(2) [OF assms(5) this]
  have ids: "map cam_id (cs_cameras (br_src s)) = map cam_id (cs_cameras src)"
    by (simp add: assms(4) set_onlines_ids)
  then have "cam_id ` set (cs_cameras (br_src s)) = cam_id ` set (cs_cameras src)"
    by (metis set_map)
  then obtain p where p: "snapshot_map (br_src s) (uc_id c) = Some p"
    using assms(3) snapshot_map_None [of "br_src s" "uc_id c"] by auto
  then have p': "find_camera (uc_id c) (cs_cameras (br_src s)) = Some p"
    using snapshot_map_find [of "br_src s"] ids assms(2) by simp
  have "online_changed_since (br_src s) (uc_id c) (online_generation src) \<longleftrightarrow> flipped (uc_id c) fs src"
    using set_onlines_gen [OF assms(1) order_refl, of fs "uc_id c"] assms(1)
    by (auto simp: online_changed_since_def online_generation_def assms(4) gens_ok_def not_less [symmetric])
  then show ?thesis
    unfolding sp p' find_camera_map_merge [OF assms(6,7)]
    by (simp add: merge_camera_def Let_def p)
qed

text \<open>
  A steady camera set is quiet: a refresh with the answer of the previous one, and no event in
  between, starts nothing at all, so it costs none of Home Graph's quota and restarts no stream.
\<close>

theorem refresh_quiescent:
  assumes "reg_ok rc s" and "gens_ok (br_src s)" and "distinct (map uc_id cams)"
    and "refresh rc (online_generation (br_src s)) (Inr (cams, upd)) s = (r, acts, s')"
    and "refresh rc (online_generation (br_src s')) (Inr (cams, upd)) s' = (r', acts', s'')"
  shows "acts' = []"
proof -
  have 1: "refresh_apply rc (online_generation (br_src s)) cams upd s = (acts, s')"
    and 2: "refresh_apply rc (online_generation (br_src s')) cams upd s' = (acts', s'')"
    using assms(4,5) by (simp_all add: refresh_def)
  note sp1 = refresh_apply_spec [OF assms(1) 1] and sp2 = refresh_apply_spec [OF refresh_apply_spec(1) [OF assms(1) 1] 2]
  let ?prev = "snapshot_map (br_src s')"
  have g: "\<not> online_changed_since (br_src s) i (online_generation (br_src s))"
    "\<not> online_changed_since (br_src s') i (online_generation (br_src s'))" for i
    using assms(2) sp1(6,7) by (simp_all add: online_changed_since_def online_generation_def gens_ok_def not_less)
  have m: "cam_online (merge_camera prev (br_src s) (online_generation (br_src s)) c) = uc_online c"
    "cam_online (merge_camera prev (br_src s') (online_generation (br_src s')) c) = uc_online c" for prev c
    by (simp_all add: merge_camera_def Let_def g split: option.splits)
  have p: "?prev (uc_id c) = Some (merge_camera (snapshot_map (br_src s)) (br_src s) (online_generation (br_src s)) c)"
    if "c \<in> set cams" for c
    using snapshot_map_find [of "br_src s'"] find_camera_map_merge [OF assms(3) that] assms(3)
    by (simp add: sp1(2) comp_def)
  have "flips ?prev (map (merge_camera ?prev (br_src s') (online_generation (br_src s'))) cams) = []"
    by (auto simp: flips_def filter_empty_conv p m)
  then have "ReportState st \<notin> set acts'" for st using sp2(9) [OF assms(3), of st] by auto
  moreover have "RequestSync \<notin> set acts'"
    using p by (auto simp: sp2(8) sp1(3) camera_of_None [symmetric])
  moreover have "StreamsChanged \<notin> set acts'"
    using sp2(11) [OF assms(3)] sp1(3) sp2(3) by (auto simp: fun_eq_iff)
  ultimately show ?thesis using sp2(12) by (cases acts') auto
qed

text \<open>
  The refresh is not atomic: a flip that arrives after its camera has been merged and before the new
  snapshot is installed is reported to Google and then overwritten in the snapshot.
\<close>

theorem refresh_loses_late_flip:
  assumes "find_camera (uc_id c) (cs_cameras src) = Some p" and "cam_online p \<noteq> b" and "uc_online c \<noteq> b"
    and "\<not> online_changed_since src (uc_id c) gen" and "distinct (map uc_id cams)" and "c \<in> set cams"
    and "set_online (uc_id c) b src = ((changed, cam), src')"
    and "cs = map (merge_camera (snapshot_map src) src gen) cams"
  shows "changed \<and> map_option cam_online (find_camera (uc_id c) (cs_cameras (set_cameras cs src'))) = Some (\<not> b)"
proof -
  have changed using assms(1,2,7) by (auto simp: set_online_def)
  moreover have "find_camera (uc_id c) (cs_cameras (set_cameras cs src')) =
    Some (merge_camera (snapshot_map src) src gen c)"
    using find_camera_map_merge [OF assms(5,6)] by (simp add: set_cameras_def assms(8))
  ultimately show ?thesis using assms(3,4) by (simp add: merge_camera_def Let_def split: option.splits)
qed

section \<open>Witnesses\<close>

definition ex_rc :: reconciler_config where
  "ex_rc = \<lparr>rc_host = ''nvr'', rc_verify = False, rc_homegraph = True\<rparr>"

definition ex_channel :: channel where
  "ex_channel = \<lparr>ch_id = 0, ch_name = ''High'', ch_width = 1920, ch_height = 1080, ch_fps = 30, ch_bitrate = 0,
     ch_alias = ''al'', ch_enabled = True\<rparr>"

definition ex_uc :: "string \<Rightarrow> bool \<Rightarrow> bool \<Rightarrow> unifi_camera" where
  "ex_uc i online rtsp =
     \<lparr>uc_id = i, uc_name = ''Yard'', uc_mac = [], uc_model = ''G4 Pro'', uc_type = ''camera'', uc_online = online,
      uc_mic = False, uc_speaker = False, uc_channels = (if rtsp then [ex_channel] else [])\<rparr>"

text \<open>The bridge after a first refresh that found the camera \<open>a\<close>, streaming, and \<open>b\<close>, without RTSP.\<close>

definition ex_first :: "(string + string) \<times> bridge_action list \<times> bridge_state" where
  "ex_first = refresh ex_rc 0 (Inr ([ex_uc ''a'' True True, ex_uc ''b'' True False], ''u'')) (new_bridge [])"

lemma ex_first_ok: "reg_ok ex_rc (snd (snd ex_first))"
  using refresh_apply_spec(1) [OF reg_ok_new, of ex_rc 0 _ "''u''" "[]" _ "snd (snd ex_first)"]
  by (simp add: ex_first_def refresh_def prod_eq_iff)

text \<open>
  A camera that never had a stream leaves without Google being told. Here the second refresh no
  longer has the camera \<open>b\<close>, which SYNC had listed; it drops it from the snapshot and starts
  nothing, because removals are counted over the names of the stream registry only.
\<close>

theorem removed_camera_without_stream_not_synced:
  "map cam_id (list_cameras (source_of base key now (br_src (snd (snd ex_first))))) = [''a'', ''b''] \<and>
   (case refresh ex_rc 0 (Inr ([ex_uc ''a'' True True], ''u'')) (snd (snd ex_first)) of
      (r, acts, s') \<Rightarrow> map cam_id (list_cameras (source_of base key now (br_src s'))) = [''a''] \<and> acts = [])"
proof -
  have "map cam_id (listed_cameras (br_src (snd (snd ex_first)))) = [''a'', ''b'']" by code_simp
  moreover have "case refresh ex_rc 0 (Inr ([ex_uc ''a'' True True], ''u'')) (snd (snd ex_first)) of
      (r, acts, s') \<Rightarrow> map cam_id (listed_cameras (br_src s')) = [''a''] \<and> acts = []" by code_simp
  ultimately show ?thesis by (simp add: source_of_def)
qed

theorem refresh_mirrors_controller_witness:
  "cs_rtsp_urls (br_src (snd (snd ex_first))) =
     (\<lambda>i. Option.bind (camera_of [ex_uc ''a'' True True, ex_uc ''b'' True False] i) (stream_entry ex_rc))"
  using refresh_mirrors_controller [OF reg_ok_new, of ex_rc 0 "[ex_uc ''a'' True True, ex_uc ''b'' True False]" "''u''" "[]"
    "fst ex_first" "fst (snd ex_first)" "snd (snd ex_first)" "[]"]
  by (simp add: ex_first_def)

theorem refresh_reports_exactly_witness:
  "ReportState [(''a'', True), (''b'', True)] \<in> set (fst (snd ex_first)) \<and> RequestSync \<notin> set (fst (snd ex_first))"
proof -
  have c: "cs_cameras (br_src (snd (snd ex_first))) =
    map (merge_camera (\<lambda>_. None) (new_camera_source []) 0) [ex_uc ''a'' True True, ex_uc ''b'' True False]"
    by code_simp
  have r: "\<not> br_refreshed (new_bridge [])" "is_allowed (br_src (new_bridge [])) = (\<lambda>_. True)"
    "snapshot_map (br_src (new_bridge [])) = (\<lambda>_. None)"
    by (simp_all add: new_bridge_def new_camera_source_def is_allowed_def snapshot_map_def set_allowed_def fun_eq_iff)
  show ?thesis
    using refresh_reports_exactly [OF reg_ok_new, of ex_rc "[ex_uc ''a'' True True, ex_uc ''b'' True False]" 0 "''u''"
      "[]" "fst ex_first" "fst (snd ex_first)" "snd (snd ex_first)" _ "[(''a'', True), (''b'', True)]", OF _ _ _ refl]
    by (simp add: c r) (simp add: ex_rc_def ex_uc_def ex_first_def merge_camera_def)
qed

definition ex_watched :: camera_source where
  "ex_watched = set_cameras [ex_camera ''a''] (new_camera_source [])"

theorem websocket_flag_wins_witness:
  "map_option cam_online (find_camera ''a'' (cs_cameras (br_src (snd (snd
     (refresh ex_rc 0 (Inr ([ex_uc ''a'' True True], ''u''))
       ((new_bridge [])\<lparr>br_src := set_onlines [(''a'', False)] ex_watched\<rparr>))))))) = Some False"
proof -
  let ?s = "(new_bridge [])\<lparr>br_src := set_onlines [(''a'', False)] ex_watched\<rparr>"
  have ok: "reg_ok ex_rc ?s"
    by (rule reg_ok_frame [OF reg_ok_new])
      (simp_all add: new_bridge_def ex_watched_def set_cameras_def set_online_def ex_camera_def)
  have e: "gens_ok ex_watched" "cs_cameras ex_watched = [ex_camera ''a'']" "online_generation ex_watched = 0"
    "flipped ''a'' [(''a'', False)] ex_watched"
    "map_option cam_online (find_camera ''a'' (cs_cameras (set_onlines [(''a'', False)] ex_watched))) = Some False"
    by (simp_all add: gens_ok_def ex_watched_def new_camera_source_def set_allowed_def set_cameras_def
        online_generation_def set_online_def ex_camera_def)
  show ?thesis
    using websocket_flag_wins [OF e(1) _ _ _ ok, of "ex_uc ''a'' True True" "[(''a'', False)]"
      "[ex_uc ''a'' True True]" "''u''"] e
    by (simp add: ex_uc_def ex_camera_def prod_eq_iff del: set_onlines.simps flipped.simps)
qed

theorem refresh_quiescent_witness:
  "fst (snd (refresh ex_rc (online_generation (br_src (snd (snd ex_first))))
     (Inr ([ex_uc ''a'' True True, ex_uc ''b'' True False], ''u'')) (snd (snd ex_first)))) = []"
proof -
  have "gens_ok (br_src (new_bridge []))" by (simp add: new_bridge_def)
  moreover have "online_generation (br_src (new_bridge [])) = 0"
    by (simp add: new_bridge_def new_camera_source_def set_allowed_def online_generation_def)
  ultimately show ?thesis
    using refresh_quiescent [OF reg_ok_new, of "[]" "[ex_uc ''a'' True True, ex_uc ''b'' True False]" ex_rc "''u''"
      "fst ex_first" "fst (snd ex_first)" "snd (snd ex_first)"]
    by (simp add: ex_first_def [symmetric] prod_eq_iff) (simp add: ex_uc_def)
qed

end
