(* ===== verification/Bridge.thy ===== *)
theory Bridge
  imports MuxServer Reconciler
begin

text \<open>
  The running bridge, as \<open>cmd/bridge/main.go\<close> wires it: the camera source and the reconciler, the
  HLS and the MP4 server that look cameras up in the source and are pruned by its callback, and
  the allow-list of the setup page (\<open>CameraApplier\<close> of \<open>internal/bridge/setupglue.go\<close>). A run is a
  sequence of events in any order; the callback's two calls are events of their own, so requests
  and WebSocket events may come between them.
\<close>

section \<open>The system\<close>

record bridge_sys =
  sys_bridge :: bridge_state
  sys_hls :: mux_server
  sys_mp4 :: mux_server

definition new_sys :: "string list \<Rightarrow> bridge_sys" where
  "new_sys exposed = \<lparr>sys_bridge = new_bridge exposed, sys_hls = new_mux_server, sys_mp4 = new_mux_server\<rparr>"

text \<open>
  \<open>ApplyExposedCameras\<close>: the new allow-list; then, on a goroutine, a SYNC request and, if it
  succeeds, a report of the exposed cameras in the snapshot (a map, so the last camera of an id wins).
\<close>

fun exposed_states :: "camera_source \<Rightarrow> camera list \<Rightarrow> (string \<times> bool) list \<Rightarrow> (string \<times> bool) list" where
  "exposed_states src [] states = states"
| "exposed_states src (c # cs) states =
     exposed_states src cs
       (if is_allowed src (cam_id c) then AList.update (cam_id c) (cam_online c) states else states)"

definition apply_exposed_cameras ::
  "reconciler_config \<Rightarrow> bool \<Rightarrow> string list \<Rightarrow> bridge_state \<Rightarrow> bridge_action list \<times> bridge_state" where
  "apply_exposed_cameras rc sync_ok ids s =
     (let s1 = s\<lparr>br_src := set_allowed ids (br_src s)\<rparr>;
          states = exposed_states (br_src s1) (snapshot (br_src s1)) []
      in if \<not> rc_homegraph rc then ([StreamsChanged], s1)
         else if \<not> sync_ok \<or> length states = 0 then ([StreamsChanged, RequestSync], s1)
         else ([StreamsChanged, RequestSync, ReportState states], s1))"

text \<open>
  The events. \<open>Apply\<close> carries whether Home Graph will accept the SYNC request; \<open>Refreshed\<close> is an
  answered bootstrap, with the generation sampled before it. A request is one step, from the test of
  \<open>closing\<close> to \<open>muxerFor\<close>, and so is a refresh; \<open>ms_closed\<close> says that \<open>Close\<close> has run, not that a
  request in flight has not started the muxer again (\<open>HlsServer\<close>, \<open>Mp4Server\<close>).
\<close>

datatype sys_event =
    Apply bool "string list"
  | Refreshed nat "unifi_camera list" string
  | Event unifi_event
  | PruneHls
  | PruneMp4
  | HlsRequest http_request
  | Mp4Request http_request
  | ShutdownHls
  | ShutdownMp4

fun sys_step :: "reconciler_config \<Rightarrow> sys_event \<Rightarrow> bridge_sys \<Rightarrow> bridge_action list \<times> bridge_sys" where
  "sys_step rc (Apply ok ids) y =
     (case apply_exposed_cameras rc ok ids (sys_bridge y) of (acts, s) \<Rightarrow> (acts, y\<lparr>sys_bridge := s\<rparr>))"
| "sys_step rc (Refreshed gen cams upd) y =
     (case refresh_apply rc gen cams upd (sys_bridge y) of (acts, s) \<Rightarrow> (acts, y\<lparr>sys_bridge := s\<rparr>))"
| "sys_step rc (Event ev) y =
     (case handle_event rc ev (sys_bridge y) of (acts, fires, s) \<Rightarrow> (acts, y\<lparr>sys_bridge := s\<rparr>))"
| "sys_step rc PruneHls y = ([], y\<lparr>sys_hls := prune (rtsp_url_of (br_src (sys_bridge y))) (sys_hls y)\<rparr>)"
| "sys_step rc PruneMp4 y = ([], y\<lparr>sys_mp4 := mp4_prune (rtsp_url_of (br_src (sys_bridge y))) (sys_mp4 y)\<rparr>)"
| "sys_step rc (HlsRequest r) y =
     ([], y\<lparr>sys_hls := snd (hls_serve (rtsp_url_of (br_src (sys_bridge y))) r (sys_hls y))\<rparr>)"
| "sys_step rc (Mp4Request r) y =
     ([], y\<lparr>sys_mp4 := snd (mp4_serve (rtsp_url_of (br_src (sys_bridge y))) r (sys_mp4 y))\<rparr>)"
| "sys_step rc ShutdownHls y = ([], y\<lparr>sys_hls := shutdown (sys_hls y)\<rparr>)"
| "sys_step rc ShutdownMp4 y = ([], y\<lparr>sys_mp4 := mp4_shutdown (sys_mp4 y)\<rparr>)"

fun sys_run :: "reconciler_config \<Rightarrow> sys_event list \<Rightarrow> bridge_sys \<Rightarrow> bridge_sys" where
  "sys_run rc [] y = y"
| "sys_run rc (e # es) y = sys_run rc es (snd (sys_step rc e y))"

lemma sys_run_append: "sys_run rc (es @ es') y = sys_run rc es' (sys_run rc es y)"
  by (induction es arbitrary: y) simp_all

section \<open>What the events leave alone\<close>

lemma set_online_frame:
  "set_online i b src = (r, src') \<Longrightarrow>
   cs_rtsp_urls src' = cs_rtsp_urls src \<and> cs_allowed src' = cs_allowed src"
  by (auto simp: set_online_def split: option.splits if_splits)

lemma handle_state_change_frame:
  assumes "handle_state_change rc i b s = (acts, s')"
  shows "br_reg s' = br_reg s \<and> br_heap s' = br_heap s \<and> br_next s' = br_next s \<and>
    cs_rtsp_urls (br_src s') = cs_rtsp_urls (br_src s) \<and> cs_allowed (br_src s') = cs_allowed (br_src s) \<and>
    br_refreshed s' = br_refreshed s"
  using assms set_online_frame [of i b "br_src s"]
  by (auto simp: handle_state_change_def Let_def split: prod.splits if_splits)

lemma handle_event_cases:
  assumes "handle_event rc ev s = (acts, fires, s')"
  obtains s0 where "s0 = s\<lparr>br_src := set_last_update (ev_new_update ev) (br_src s)\<rparr>"
    and "s' = s0 \<or> (\<exists>i b a. handle_state_change rc i b s0 = (a, s'))"
proof -
  define s0 where "s0 = s\<lparr>br_src := set_last_update (ev_new_update ev) (br_src s)\<rparr>"
  have "(if ev_new_update ev \<noteq> [] then s\<lparr>br_src := set_last_update (ev_new_update ev) (br_src s)\<rparr> else s) = s0"
    by (simp add: s0_def set_last_update_def)
  then have "s' = s0 \<or> (\<exists>i b a. handle_state_change rc i b s0 = (a, s'))"
    using assms by (auto simp: handle_event_def Let_def split: if_splits prod.splits option.splits)
  with s0_def show thesis by (rule that)
qed

lemma handle_event_frame:
  assumes "handle_event rc ev s = (acts, fires, s')"
  shows "br_reg s' = br_reg s \<and> br_heap s' = br_heap s \<and> br_next s' = br_next s \<and>
    cs_rtsp_urls (br_src s') = cs_rtsp_urls (br_src s) \<and> cs_allowed (br_src s') = cs_allowed (br_src s) \<and>
    br_refreshed s' = br_refreshed s"
proof -
  obtain s0 where s0: "s0 = s\<lparr>br_src := set_last_update (ev_new_update ev) (br_src s)\<rparr>"
    and c: "s' = s0 \<or> (\<exists>i b a. handle_state_change rc i b s0 = (a, s'))" by (rule handle_event_cases [OF assms])
  have "br_reg s0 = br_reg s \<and> br_heap s0 = br_heap s \<and> br_next s0 = br_next s \<and>
    cs_rtsp_urls (br_src s0) = cs_rtsp_urls (br_src s) \<and> cs_allowed (br_src s0) = cs_allowed (br_src s) \<and>
    br_refreshed s0 = br_refreshed s"
    by (simp add: s0 set_last_update_def)
  with c show ?thesis using handle_state_change_frame by metis
qed

lemma apply_exposed_frame:
  "apply_exposed_cameras rc ok ids s = (acts, s') \<Longrightarrow> s' = s\<lparr>br_src := set_allowed ids (br_src s)\<rparr>"
  by (auto simp: apply_exposed_cameras_def Let_def split: if_splits)

text \<open>The allow-list changes by \<open>Apply\<close> only.\<close>

definition allowed_in :: "bridge_sys \<Rightarrow> string \<Rightarrow> bool" where
  "allowed_in y = is_allowed (br_src (sys_bridge y))"

section \<open>The invariant of a run\<close>

definition sys_ok :: "reconciler_config \<Rightarrow> bridge_sys \<Rightarrow> bool" where
  "sys_ok rc y \<longleftrightarrow> reg_ok rc (sys_bridge y) \<and> mux_ok (sys_hls y) \<and> mux_ok (sys_mp4 y)"

lemma sys_ok_new [simp, inv_intro]: "sys_ok rc (new_sys exposed)"
  by (simp add: sys_ok_def new_sys_def)

lemma mux_ok_hls: "mux_ok m \<Longrightarrow> mux_ok (snd (hls_serve l r m))"
  using served_ok [OF _ hls_serve_cases [of l r m "fst (hls_serve l r m)"]] by (metis prod.collapse)

lemma mux_ok_mp4: "mux_ok m \<Longrightarrow> mux_ok (snd (mp4_serve l r m))"
  using served_ok [OF _ mp4_serve_cases [of l r m "fst (mp4_serve l r m)"]] by (metis prod.collapse)

lemma sys_ok_step [inv_intro]:
  assumes "sys_ok rc y"
  shows "sys_ok rc (snd (sys_step rc e y))"
proof (cases e)
  case (Apply ok ids)
  obtain acts s where a: "apply_exposed_cameras rc ok ids (sys_bridge y) = (acts, s)" by fastforce
  have "reg_ok rc s"
    using apply_exposed_frame [OF a] assms reg_ok_frame [of rc "sys_bridge y" s] by (simp add: sys_ok_def set_allowed_def)
  then show ?thesis using assms by (simp add: Apply a sys_ok_def)
next
  case (Refreshed gen cams upd)
  obtain acts s where a: "refresh_apply rc gen cams upd (sys_bridge y) = (acts, s)" by fastforce
  then show ?thesis using assms refresh_apply_spec(1) [OF _ a] by (simp add: Refreshed sys_ok_def)
next
  case (Event ev)
  obtain acts f s where a: "handle_event rc ev (sys_bridge y) = (acts, f, s)" by (metis prod.collapse)
  have "reg_ok rc s"
    using handle_event_frame [OF a] assms reg_ok_frame [of rc "sys_bridge y" s] by (simp add: sys_ok_def)
  then show ?thesis using assms by (simp add: Event a sys_ok_def)
qed (use assms prune_spec mux_ok_hls mux_ok_mp4 mux_ok_shutdown mux_ok_mp4_shutdown in \<open>simp_all add: sys_ok_def\<close>)

lemma sys_ok_run [inv_intro]: "sys_ok rc y \<Longrightarrow> sys_ok rc (sys_run rc es y)"
  by (induction es arbitrary: y) (simp_all add: sys_ok_step)

section \<open>Hidden cameras\<close>

fun hides :: "string \<Rightarrow> sys_event \<Rightarrow> bool" where
  "hides i (Apply ok ids) \<longleftrightarrow> i \<notin> set ids \<and> list_ex (\<lambda>k. k \<noteq> []) ids"
| "hides i _ \<longleftrightarrow> False"

fun may_expose :: "string \<Rightarrow> sys_event \<Rightarrow> bool" where
  "may_expose i (Apply ok ids) \<longleftrightarrow> \<not> hides i (Apply ok ids)"
| "may_expose i _ \<longleftrightarrow> False"

lemma allowed_cong: "cs_allowed src' = cs_allowed src \<Longrightarrow> is_allowed src' = is_allowed src"
  by (simp add: is_allowed_def fun_eq_iff)

lemma allowed_step:
  assumes "sys_ok rc y"
  shows "allowed_in (snd (sys_step rc e y)) =
    (case e of Apply ok ids \<Rightarrow> is_allowed (set_allowed ids (br_src (sys_bridge y))) | _ \<Rightarrow> allowed_in y)"
proof (cases e)
  case (Apply ok ids)
  obtain acts s where a: "apply_exposed_cameras rc ok ids (sys_bridge y) = (acts, s)" by fastforce
  then show ?thesis using apply_exposed_frame [OF a] by (simp add: Apply allowed_in_def)
next
  case (Refreshed gen cams upd)
  obtain acts s where a: "refresh_apply rc gen cams upd (sys_bridge y) = (acts, s)" by fastforce
  have "cs_allowed (br_src s) = cs_allowed (br_src (sys_bridge y))"
    using refresh_apply_spec(4) [OF _ a] assms by (simp add: sys_ok_def)
  from allowed_cong [OF this] show ?thesis by (simp add: Refreshed a allowed_in_def)
next
  case (Event ev)
  obtain acts f s where a: "handle_event rc ev (sys_bridge y) = (acts, f, s)" by (metis prod.collapse)
  have "cs_allowed (br_src s) = cs_allowed (br_src (sys_bridge y))" using handle_event_frame [OF a] by blast
  from allowed_cong [OF this] show ?thesis by (simp add: Event a allowed_in_def)
qed (simp_all add: allowed_in_def)

lemma hides_step: "sys_ok rc y \<Longrightarrow> hides i e \<Longrightarrow> \<not> allowed_in (snd (sys_step rc e y)) i"
  by (cases e) (auto simp: allowed_step list_ex_iff simp del: sys_step.simps)

lemma hidden_step:
  "sys_ok rc y \<Longrightarrow> \<not> may_expose i e \<Longrightarrow> \<not> allowed_in y i \<Longrightarrow> \<not> allowed_in (snd (sys_step rc e y)) i"
  using hides_step [of rc y i e] by (cases e) (auto simp: allowed_step simp del: sys_step.simps)

text \<open>No muxer of the table is for \<open>i\<close>, and every muxer ever made is in the table or closed.\<close>

definition cut_off :: "string \<Rightarrow> mux_server \<Rightarrow> bool" where
  "cut_off i m \<longleftrightarrow>
     list_all (\<lambda>(c, x). c \<noteq> i \<and> mx_stream x \<noteq> i) (ms_muxers m) \<and> set (ms_closed m) = {..< ms_next m} - set (objs m)"

lemma cut_offI: "mux_ok m \<Longrightarrow> i \<notin> fst ` set (ms_muxers m) \<Longrightarrow> cut_off i m"
  by (force simp: cut_off_def mux_ok_def list_all_iff)

lemma hidden_run:
  assumes "sys_ok rc y" and "\<not> allowed_in y i" and "filter (may_expose i) es = []"
  shows "\<not> allowed_in (sys_run rc es y) i \<and>
    (PruneHls \<in> set es \<or> i \<notin> fst ` set (ms_muxers (sys_hls y)) \<longrightarrow> i \<notin> fst ` set (ms_muxers (sys_hls (sys_run rc es y)))) \<and>
    (PruneMp4 \<in> set es \<or> i \<notin> fst ` set (ms_muxers (sys_mp4 y)) \<longrightarrow> i \<notin> fst ` set (ms_muxers (sys_mp4 (sys_run rc es y))))"
  using assms
proof (induction es arbitrary: y)
  case (Cons e es)
  let ?y = "snd (sys_step rc e y)"
  have h: "\<not> is_allowed (br_src (sys_bridge y)) i" using Cons.prems(2) by (simp add: allowed_in_def)
  have n: "\<not> may_expose i e" "filter (may_expose i) es = []" using Cons.prems(3) by (auto split: if_splits)
  have hls: "i \<notin> fst ` set (ms_muxers m) \<Longrightarrow>
      i \<notin> fst ` set (ms_muxers (snd (hls_serve (rtsp_url_of (br_src (sys_bridge y))) r m)))"
    and mp4: "i \<notin> fst ` set (ms_muxers m) \<Longrightarrow>
      i \<notin> fst ` set (ms_muxers (snd (mp4_serve (rtsp_url_of (br_src (sys_bridge y))) r m)))" for r m
    using cams.hls_serve_hidden [OF h prod.collapse [symmetric]] cams.mp4_serve_hidden [OF h prod.collapse [symmetric]]
    by blast+
  have "i \<notin> fst ` set (ms_muxers (sys_hls ?y))" if "e = PruneHls \<or> i \<notin> fst ` set (ms_muxers (sys_hls y))"
    using that Cons.prems(1) h
    by (cases e) (simp_all add: sys_ok_def cams.prune_hidden shutdown_def hls split: prod.splits)
  moreover have "i \<notin> fst ` set (ms_muxers (sys_mp4 ?y))" if "e = PruneMp4 \<or> i \<notin> fst ` set (ms_muxers (sys_mp4 y))"
    using that Cons.prems(1) h
    by (cases e) (simp_all add: sys_ok_def cams.prune_hidden shutdown_def mp4_shutdown_eq mp4 split: prod.splits)
  ultimately show ?case
    using Cons.IH [OF sys_ok_step [OF Cons.prems(1), of e] hidden_step [OF Cons.prems(1) n(1) Cons.prems(2)] n(2)] by auto
qed simp

section \<open>Properties\<close>

text \<open>
  C6: hiding a camera cuts its streams, and they stay cut. In any run from the start, once an
  allow-list that leaves the camera out has been applied and the callback's two prunes have run,
  with requests, refreshes and WebSocket events anywhere in between, neither server holds a muxer
  for the camera, and every muxer ever opened for it has been closed; until a later allow-list
  exposes the camera again.
\<close>

theorem hidden_streams_cut:
  assumes "hides i (Apply ok ids)" and "filter (may_expose i) es' = []"
    and "PruneHls \<in> set es'" and "PruneMp4 \<in> set es'"
    and "y = sys_run rc (es @ Apply ok ids # es') (new_sys exposed)"
  shows "\<not> allowed_in y i \<and> cut_off i (sys_hls y) \<and> cut_off i (sys_mp4 y)"
proof -
  let ?y0 = "sys_run rc es (new_sys exposed)"
  let ?y1 = "snd (sys_step rc (Apply ok ids) ?y0)"
  have ok: "sys_ok rc ?y0" "sys_ok rc ?y1" "sys_ok rc y"
    by (simp_all only: assms(5) inv_intro sys_ok_new)
  have "y = sys_run rc es' ?y1" by (simp add: assms(5) sys_run_append)
  with hidden_run [OF ok(2) hides_step [OF ok(1) assms(1)] assms(2)] assms(3,4) ok(3) show ?thesis
    by (simp add: sys_ok_def cut_offI)
qed

text \<open>
  C11: every viewer of a camera sees the same stream. In any run, a muxer that the HLS or the MP4
  server hands a request to belongs to a camera that is exposed at that moment, and dials the URL,
  with the TLS check, of the stream that the registry hands to WebRTC under that camera's id.
\<close>

theorem served_muxer_matches_registry:
  assumes "y = sys_run rc es (new_sys exposed)" and "l = rtsp_url_of (br_src (sys_bridge y))"
    and "hls_serve l r (sys_hls y) = (Inr (x, p), m) \<or> mp4_serve l r (sys_mp4 y) = (Inr (x, p), m)"
  shows "allowed_in y (mx_stream x) \<and>
    stream_dials (Option.bind (reg_get (mx_stream x) (br_reg (sys_bridge y))) (br_heap (sys_bridge y)))
      (mx_stream x) (mx_url x, mx_verify x)"
proof -
  have ok: "sys_ok rc y" by (simp add: assms(1) inv_intro)
  obtain cam t where t: "mux_ok t" "muxer_for l cam t = (Some x, m)"
    using assms(3) hls_serve_cases [of l r "sys_hls y"] mp4_serve_cases [of l r "sys_mp4 y"] ok
    by (fastforce simp: sys_ok_def served_def)
  have "map_of (ms_muxers m) cam = Some x" using muxer_for_result [OF t(2)] by blast
  then have c: "mx_stream x = cam"
    using mux_ok_muxer_for [OF t] by (auto simp: mux_ok_def dest!: map_of_SomeD)
  have e: "is_allowed (br_src (sys_bridge y)) cam"
    "cs_rtsp_urls (br_src (sys_bridge y)) cam = Some (mx_url x, mx_verify x)"
    using cams.served_exposed [of "br_src (sys_bridge y)" cam t x m] t(2) rtsp_url_of_allowed by (auto simp: assms(2))
  have "entry_ok rc (sys_bridge y) cam" using ok by (simp add: sys_ok_def reg_ok_def)
  then show ?thesis using e c by (auto simp: entry_ok_def allowed_in_def split: option.splits)
qed

text \<open>What an action says of cameras: it is allowed after the step, a ring was by a doorbell before it.\<close>

fun action_ok :: "reconciler_config \<Rightarrow> bridge_sys \<Rightarrow> bridge_sys \<Rightarrow> bridge_action \<Rightarrow> bool" where
  "action_ok rc y y' (ReportState st) \<longleftrightarrow> rc_homegraph rc \<and> st \<noteq> [] \<and> list_all (\<lambda>e. allowed_in y' (fst e)) st"
| "action_ok rc y y' (NotifyRing i) \<longleftrightarrow> rc_homegraph rc \<and> allowed_in y' i \<and>
     (\<exists>c. snapshot_map (br_src (sys_bridge y)) i = Some c \<and> is_doorbell c)"
| "action_ok rc y y' RequestSync \<longleftrightarrow> rc_homegraph rc"
| "action_ok rc y y' StreamsChanged \<longleftrightarrow> True"

lemma exposed_states_allowed:
  "list_all (\<lambda>e. is_allowed src (fst e)) st \<Longrightarrow> list_all (\<lambda>e. is_allowed src (fst e)) (exposed_states src cs st)"
proof (induction cs arbitrary: st)
  case (Cons c cs)
  have "list_all (\<lambda>e. is_allowed src (fst e)) (AList.update (cam_id c) b st)" if "is_allowed src (cam_id c)" for b
    using Cons.prems that by (induction st) auto
  then show ?case using Cons by simp
qed simp

lemma handle_ring_ok:
  "a \<in> set (handle_ring rc i s) \<Longrightarrow> a = NotifyRing i \<and> rc_homegraph rc \<and> is_allowed (br_src s) i \<and>
   (\<exists>c. snapshot_map (br_src s) i = Some c \<and> is_doorbell c)"
  by (cases "snapshot_map (br_src s) i") (auto simp: handle_ring_def split: if_splits)

lemma handle_state_change_acts:
  assumes "handle_state_change rc i b s = (acts, s')" and "a \<in> set acts"
  shows "a = ReportState [(i, b)] \<and> rc_homegraph rc \<and> is_allowed (br_src s') i"
  using assms by (auto simp: handle_state_change_def Let_def split: prod.splits if_splits)

lemma handle_event_acts:
  assumes "handle_event rc ev s = (acts, fires, s')" and "a \<in> set acts"
  shows "rc_homegraph rc \<and>
    ((\<exists>i b. a = ReportState [(i, b)] \<and> is_allowed (br_src s') i) \<or>
     (\<exists>i. a = NotifyRing i \<and> is_allowed (br_src s) i \<and> (\<exists>c. snapshot_map (br_src s) i = Some c \<and> is_doorbell c)))"
proof -
  define s0 where "s0 = (if ev_new_update ev \<noteq> [] then s\<lparr>br_src := set_last_update (ev_new_update ev) (br_src s)\<rparr> else s)"
  have m: "snapshot_map (br_src s0) = snapshot_map (br_src s)" "is_allowed (br_src s0) = is_allowed (br_src s)"
    by (simp_all add: s0_def set_last_update_def snapshot_map_def is_allowed_def fun_eq_iff)
  have "(\<exists>i. a \<in> set (handle_ring rc i s0)) \<or> (\<exists>i b as. handle_state_change rc i b s0 = (as, s') \<and> a \<in> set as)"
    using assms by (auto simp: handle_event_def Let_def s0_def [symmetric] split: if_splits prod.splits option.splits)
  then show ?thesis
  proof (elim disjE exE conjE)
    fix i assume "a \<in> set (handle_ring rc i s0)"
    from handle_ring_ok [OF this] show ?thesis by (simp add: m)
  next
    fix i b as assume "handle_state_change rc i b s0 = (as, s')" "a \<in> set as"
    from handle_state_change_acts [OF this] show ?thesis by blast
  qed
qed

text \<open>
  Google never hears of a hidden camera. In any run, whatever the next event, the reports it
  starts are not empty and name only cameras that are exposed after it, a ring is sent only for an
  exposed doorbell of the snapshot, and without a Home Graph client nothing is sent at all.
\<close>

theorem actions_name_exposed_cameras:
  assumes "y = sys_run rc es (new_sys exposed)" and "sys_step rc e y = (acts, y')"
  shows "list_all (action_ok rc y y') acts"
proof -
  have ok: "reg_ok rc (sys_bridge y)" using sys_ok_run [OF sys_ok_new, of rc es exposed] by (simp add: assms(1) sys_ok_def)
  show ?thesis
  proof (cases e)
    case (Apply b ids)
    define s1 where "s1 = (sys_bridge y)\<lparr>br_src := set_allowed ids (br_src (sys_bridge y))\<rparr>"
    have "list_all (\<lambda>e. is_allowed (br_src s1) (fst e)) (exposed_states (br_src s1) (snapshot (br_src s1)) [])"
      by (rule exposed_states_allowed) simp
    then show ?thesis
      using assms(2) by (auto simp: Apply apply_exposed_cameras_def Let_def s1_def [symmetric] allowed_in_def
          split: if_splits)
  next
    case (Refreshed gen cams upd)
    obtain s where a: "refresh_apply rc gen cams upd (sys_bridge y) = (acts, s)" "y' = y\<lparr>sys_bridge := s\<rparr>"
      using assms(2) by (auto simp: Refreshed split: prod.splits)
    note sp = refresh_apply_spec [OF ok a(1)]
    have "is_allowed (br_src s) = is_allowed (br_src (sys_bridge y))" by (rule allowed_cong [OF sp(4)])
    then have "action_ok rc y y' a" if "a \<in> set acts" for a
      using that sp(12) sp(13) sp(8) by (cases a) (auto simp: allowed_in_def a(2))
    then show ?thesis by (simp add: list_all_iff)
  next
    case (Event ev)
    obtain f s where a: "handle_event rc ev (sys_bridge y) = (acts, f, s)" "y' = y\<lparr>sys_bridge := s\<rparr>"
      using assms(2) by (auto simp: Event split: prod.splits)
    have "cs_allowed (br_src s) = cs_allowed (br_src (sys_bridge y))" using handle_event_frame [OF a(1)] by blast
    from allowed_cong [OF this] have "action_ok rc y y' x" if "x \<in> set acts" for x
      using handle_event_acts [OF a(1) that] by (auto simp: allowed_in_def a(2))
    then show ?thesis by (simp add: list_all_iff)
  qed (use assms(2) in auto)
qed

section \<open>Witnesses\<close>

text \<open>The camera \<open>a\<close> is found and watched over HLS.\<close>

definition ex_hls_request :: http_request where
  "ex_hls_request =
     \<lparr>req_method = ''GET'', path = ''/a/index.m3u8'', raw_query = [], header = (\<lambda>_. []), remote_addr = [],
      basic_auth = None, form = None, body_json = None\<rparr>"

definition ex_events :: "sys_event list" where
  "ex_events = [Refreshed 0 [ex_uc ''a'' True True] ''u'', HlsRequest ex_hls_request]"

theorem hidden_streams_cut_witness:
  "cut_off ''a'' (sys_hls (sys_run ex_rc (ex_events @ Apply True [''z''] # [PruneHls, HlsRequest ex_hls_request, PruneMp4])
     (new_sys [])))"
  using hidden_streams_cut [of "''a''" True "[''z'']" "[PruneHls, HlsRequest ex_hls_request, PruneMp4]" _ ex_rc ex_events "[]"]
  by simp

theorem served_muxer_matches_registry_witness:
  "allowed_in (sys_run ex_rc ex_events (new_sys [])) ''a''"
proof -
  let ?y = "sys_run ex_rc ex_events (new_sys [])"
  have "case hls_serve (rtsp_url_of (br_src (sys_bridge ?y))) ex_hls_request (sys_hls ?y) of
    (Inl e, m) \<Rightarrow> False | (Inr (x, p), m) \<Rightarrow> mx_stream x = ''a''"
    by code_simp
  then obtain x p m where
    "hls_serve (rtsp_url_of (br_src (sys_bridge ?y))) ex_hls_request (sys_hls ?y) = (Inr (x, p), m)" "mx_stream x = ''a''"
    by (auto split: prod.splits sum.splits)
  then show ?thesis using served_muxer_matches_registry [OF refl refl, of ex_rc ex_events "[]" ex_hls_request x p m] by auto
qed

theorem actions_name_exposed_cameras_witness:
  "\<exists>acts. sys_step ex_rc (Apply True []) (sys_run ex_rc ex_events (new_sys [''b''])) = acts \<and>
     list_all (action_ok ex_rc (sys_run ex_rc ex_events (new_sys [''b''])) (snd acts)) (fst acts) \<and> fst acts \<noteq> []"
proof -
  let ?y = "sys_run ex_rc ex_events (new_sys [''b''])"
  obtain acts y' where a: "sys_step ex_rc (Apply True []) ?y = (acts, y')" by fastforce
  moreover have "acts \<noteq> []" using a by (auto simp: apply_exposed_cameras_def Let_def ex_rc_def split: if_splits)
  ultimately show ?thesis using actions_name_exposed_cameras [OF refl a] by auto
qed

end
