(* ===== verification/OAuth.thy ===== *)
theory OAuth
  imports Tokens
begin

text \<open>
  The OAuth authorization-code server, \<open>internal/oauth/server.go\<close>: the consent page with its
  brute-force budget (\<open>Authorize\<close>, \<open>tooManyFailures\<close>, \<open>recordFailure\<close>), the token endpoint
  (\<open>Token\<close>, \<open>exchangeCode\<close>, \<open>refreshAccess\<close>) and the stateless tokens (\<open>mintToken\<close>,
  \<open>verifyToken\<close>, \<open>Validate\<close>). A Go map keyed by IP is an association list with distinct keys.

  \<open>url.Parse\<close> is a parameter of the consent handler: its result is a \<open>parsed_url\<close>. The random
  bytes a handler draws are arguments, and so is each reading of the clock.
\<close>

section \<open>State\<close>

definition code_ttl :: duration where "code_ttl = 10 * minute"
definition access_token_ttl :: duration where "access_token_ttl = 60 * minute"
definition refresh_token_ttl :: duration where "refresh_token_ttl = 10 * 365 * 24 * hour"
definition pw_fail_window :: duration where "pw_fail_window = 15 * minute"
definition pw_max_per_ip :: nat where "pw_max_per_ip = 5"
definition pw_max_global :: nat where "pw_max_global = 20"

definition token_kind_access :: string where "token_kind_access = ''a''"
definition token_kind_refresh :: string where "token_kind_refresh = ''r''"

record code_entry =
  entry_redirect_uri :: string
  entry_expires :: instant

record oauth_server =
  client_id :: string
  client_secret :: string
  user_password :: string
  token_secret :: bytes
  codes :: "string \<rightharpoonup> code_entry"
  pw_fails :: "(string \<times> instant list) list"

definition new_oauth :: "string \<Rightarrow> string \<Rightarrow> string \<Rightarrow> bytes \<Rightarrow> oauth_server" where
  "new_oauth cid csecret password secret =
     \<lparr>client_id = cid, client_secret = csecret, user_password = password, token_secret = secret,
      codes = Map.empty, pw_fails = []\<rparr>"

text \<open>What \<open>url.Parse\<close> gives the handler; \<open>u_query\<close> is \<open>u.Query()\<close> as a list of pairs.\<close>

record parsed_url =
  u_scheme :: string
  u_hostname :: string
  u_path :: string
  u_query :: "(string \<times> string) list"

definition valid_redirect_uri :: "(string \<Rightarrow> parsed_url option) \<Rightarrow> string \<Rightarrow> bool" where
  "valid_redirect_uri url_parse raw =
     (case url_parse raw of
        None \<Rightarrow> False
      | Some u \<Rightarrow>
          if u_scheme u \<noteq> ''https'' then False
          else u_hostname u = ''oauth-redirect.googleusercontent.com'' \<or>
               u_hostname u = ''oauth-redirect-sandbox.googleusercontent.com'')"

definition client_ip :: "http_request \<Rightarrow> string" where
  "client_ip r =
     (let xff = header r ''X-Forwarded-For'' in
      if xff \<noteq> [] then
        (let i = index_byte xff CHR '','' in trim_space (if i \<ge> 0 then take (nat i) xff else xff))
      else (case split_host (remote_addr r) of None \<Rightarrow> remote_addr r | Some host \<Rightarrow> host))"

section \<open>The consent budget\<close>

definition prune_entry :: "instant \<Rightarrow> string \<times> instant list \<Rightarrow> (string \<times> instant list) option" where
  "prune_entry now = (\<lambda>(k, ts).
     let kept = filter (\<lambda>t. now - t < pw_fail_window) ts
     in if kept = [] then None else Some (k, kept))"

definition fails_of :: "(string \<times> instant list) list \<Rightarrow> string \<Rightarrow> instant list" where
  "fails_of m ip = (case map_of m ip of None \<Rightarrow> [] | Some ts \<Rightarrow> ts)"

definition too_many_failures :: "oauth_server \<Rightarrow> instant \<Rightarrow> string \<Rightarrow> oauth_server \<times> bool" where
  "too_many_failures s now ip =
     (let m = List.map_filter (prune_entry now) (pw_fails s);
          total = sum_list (map (length \<circ> snd) m)
      in (s\<lparr>pw_fails := m\<rparr>, length (fails_of m ip) \<ge> pw_max_per_ip \<or> total \<ge> pw_max_global))"

definition record_failure :: "oauth_server \<Rightarrow> instant \<Rightarrow> string \<Rightarrow> oauth_server" where
  "record_failure s now ip =
     s\<lparr>pw_fails := AList.update ip (fails_of (pw_fails s) ip @ [now]) (pw_fails s)\<rparr>"

section \<open>The consent page\<close>

record consent_data =
  cd_client_id :: string
  cd_redirect_uri :: string
  cd_state :: string
  cd_error :: string

text \<open>
  \<open>Consent code d\<close> is the consent template executed on \<open>d\<close> with status \<open>code\<close>; \<open>Found u\<close> the
  302 to \<open>u.String()\<close>.
\<close>

datatype auth_response =
    AuthError string nat
  | Consent nat consent_data
  | Found parsed_url

text \<open>\<open>url.Values.Set\<close>; \<open>Encode\<close> only orders the pairs.\<close>

definition values_set :: "string \<Rightarrow> string \<Rightarrow> (string \<times> string) list \<Rightarrow> (string \<times> string) list" where
  "values_set k v q = filter (\<lambda>(k', _). k' \<noteq> k) q @ [(k, v)]"

definition random_token :: "bytes \<Rightarrow> string" where
  "random_token b = b64url b"

definition too_many_msg :: string where
  "too_many_msg =
     ''too many failed attempts '' @ [CHR 0xE2, CHR 0x80, CHR 0x94] @ '' try again later''"

text \<open>
  \<open>Authorize\<close>: \<open>now1\<close> is the clock at the budget check, \<open>now2\<close> the later reading (the failure's
  time stamp, or the base of the code's expiry), \<open>rnd\<close> the 24 random bytes of the code. The whole
  request is one step here; \<open>consent_step\<close> has its two critical sections apart.
\<close>

definition authorize ::
  "(string \<Rightarrow> parsed_url option) \<Rightarrow> oauth_server \<Rightarrow> instant \<Rightarrow> instant \<Rightarrow> bytes \<Rightarrow> http_request
   \<Rightarrow> auth_response \<times> oauth_server" where
  "authorize url_parse s now1 now2 rnd r =
     (let q = parse_query (raw_query r);
          cid = query_get q ''client_id'';
          redirect_uri = query_get q ''redirect_uri'';
          st = query_get q ''state'';
          resp_type = query_get q ''response_type'';
          page = \<lparr>cd_client_id = cid, cd_redirect_uri = redirect_uri, cd_state = st, cd_error = []\<rparr>
      in
        if cid \<noteq> client_id s then (AuthError ''invalid client_id'' 400, s)
        else if resp_type \<noteq> ''code'' then (AuthError ''unsupported response_type'' 400, s)
        else if redirect_uri = [] then (AuthError ''missing redirect_uri'' 400, s)
        else if \<not> valid_redirect_uri url_parse redirect_uri then
          (AuthError ''invalid redirect_uri'' 400, s)
        else if req_method r = ''GET'' then (Consent 200 page, s)
        else
          case form r of
            None \<Rightarrow> (AuthError ''bad form'' 400, s)
          | Some f \<Rightarrow>
              let ip = client_ip r;
                  (s1, blocked) = too_many_failures s now1 ip
              in
                if blocked then (AuthError too_many_msg 429, s1)
                else if \<not> ct_equal (to_bytes (f ''password'')) (to_bytes (user_password s1)) then
                  (Consent 401 (page\<lparr>cd_error := ''Incorrect password''\<rparr>), record_failure s1 now2 ip)
                else
                  let code = random_token rnd;
                      s2 = s1\<lparr>codes := (codes s1)(code \<mapsto>
                             \<lparr>entry_redirect_uri = redirect_uri, entry_expires = now2 + code_ttl\<rparr>)\<rparr>
                  in case url_parse redirect_uri of
                       None \<Rightarrow> (AuthError ''bad redirect_uri'' 400, s2)
                     | Some u \<Rightarrow>
                         let rq = values_set ''code'' code (u_query u);
                             rq' = (if st \<noteq> [] then values_set ''state'' st rq else rq)
                         in (Found (u\<lparr>u_query := rq'\<rparr>), s2))"

section \<open>Tokens\<close>

text \<open>The string \<open>mintToken\<close> builds: \<open><kind>.<exp>.<nonce>.<hmac>\<close>.\<close>

definition token_payload :: "string \<Rightarrow> int \<Rightarrow> string \<Rightarrow> string" where
  "token_payload kind exp nonce = kind @ ''.'' @ format_int exp @ ''.'' @ nonce"

definition token_mac :: "bytes \<Rightarrow> string \<Rightarrow> string" where
  "token_mac secret payload = b64url (hmac_sha256 secret (to_bytes payload))"

definition oauth_token :: "bytes \<Rightarrow> string \<Rightarrow> int \<Rightarrow> bytes \<Rightarrow> string" where
  "oauth_token secret kind exp nonce =
     (let payload = token_payload kind exp (b64url nonce) in payload @ ''.'' @ token_mac secret payload)"

text \<open>\<open>mintToken\<close>: fails without a secret or when \<open>rand.Read\<close> does (\<open>nonce = None\<close>).\<close>

definition mint_token :: "bytes \<Rightarrow> instant \<Rightarrow> bytes option \<Rightarrow> string \<Rightarrow> duration \<Rightarrow> string option" where
  "mint_token secret now nonce kind ttl =
     (if secret = [] then None
      else case nonce of
        None \<Rightarrow> None
      | Some n \<Rightarrow> Some (oauth_token secret kind (unix (now + ttl)) n))"

text \<open>\<open>verifyToken\<close>: true when Go returns nil; every failure is \<open>ErrInvalidToken\<close>.\<close>

definition oauth_verify :: "bytes \<Rightarrow> instant \<Rightarrow> string \<Rightarrow> string \<Rightarrow> bool" where
  "oauth_verify secret now tok want_kind =
     (if secret = [] then False
      else case split_on CHR ''.'' tok of
        [kind, exp_str, nonce, sig] \<Rightarrow>
          if kind \<noteq> want_kind then False
          else (case parse_int64 exp_str of
            None \<Rightarrow> False
          | Some exp \<Rightarrow>
              if unix now > exp then False
              else
                let payload = kind @ ''.'' @ exp_str @ ''.'' @ nonce
                in ct_equal (to_bytes (token_mac secret payload)) (to_bytes sig))
      | _ \<Rightarrow> False)"

definition validate :: "oauth_server \<Rightarrow> instant \<Rightarrow> string \<Rightarrow> bool" where
  "validate s now access_token = oauth_verify (token_secret s) now access_token token_kind_access"

section \<open>The token endpoint\<close>

definition token_json :: "string \<Rightarrow> string \<Rightarrow> http_response" where
  "token_json access refresh =
     json_response 200
       ([(''access_token'', JStr access), (''token_type'', JStr ''Bearer''),
         (''expires_in'', JNum (access_token_ttl div second))]
        @ (if refresh \<noteq> [] then [(''refresh_token'', JStr refresh)] else []))"

definition token_err :: "string \<Rightarrow> string \<Rightarrow> http_response" where
  "token_err code desc =
     json_response 400
       ([(''error'', JStr code)] @ (if desc \<noteq> [] then [(''error_description'', JStr desc)] else []))"

definition basic_or_form_creds :: "http_request \<Rightarrow> (string \<Rightarrow> string) \<Rightarrow> (string \<times> string) option" where
  "basic_or_form_creds r f =
     (case basic_auth r of
        Some (u, p) \<Rightarrow> Some (u, p)
      | None \<Rightarrow> if f ''client_id'' = [] then None else Some (f ''client_id'', f ''client_secret''))"

definition exchange_code ::
  "oauth_server \<Rightarrow> instant \<Rightarrow> bytes option \<Rightarrow> bytes option \<Rightarrow> (string \<Rightarrow> string)
   \<Rightarrow> http_response \<times> oauth_server" where
  "exchange_code s now nonce1 nonce2 f =
     (let code = f ''code''; redirect_uri = f ''redirect_uri'';
          s1 = (case codes s code of Some _ \<Rightarrow> s\<lparr>codes := (codes s)(code := None)\<rparr> | None \<Rightarrow> s)
      in case codes s code of
           None \<Rightarrow> (token_err ''invalid_grant'' ''code invalid or expired'', s1)
         | Some entry \<Rightarrow>
             if now > entry_expires entry \<or> entry_redirect_uri entry \<noteq> redirect_uri then
               (token_err ''invalid_grant'' ''code invalid or expired'', s1)
             else case mint_token (token_secret s1) now nonce1 token_kind_access access_token_ttl of
               None \<Rightarrow> (token_err ''server_error'' ''mint access'', s1)
             | Some access \<Rightarrow>
                 (case mint_token (token_secret s1) now nonce2 token_kind_refresh refresh_token_ttl of
                    None \<Rightarrow> (token_err ''server_error'' ''mint refresh'', s1)
                  | Some refresh \<Rightarrow> (token_json access refresh, s1)))"

definition refresh_access ::
  "oauth_server \<Rightarrow> instant \<Rightarrow> bytes option \<Rightarrow> (string \<Rightarrow> string) \<Rightarrow> http_response" where
  "refresh_access s now nonce f =
     (if \<not> oauth_verify (token_secret s) now (f ''refresh_token'') token_kind_refresh then
        token_err ''invalid_grant'' ''refresh_token oauth: invalid or expired token''
      else case mint_token (token_secret s) now nonce token_kind_access access_token_ttl of
        None \<Rightarrow> token_err ''server_error'' ''mint access''
      | Some access \<Rightarrow> token_json access [])"

text \<open>\<open>Token\<close>\<close>

definition token_handler ::
  "oauth_server \<Rightarrow> instant \<Rightarrow> bytes option \<Rightarrow> bytes option \<Rightarrow> http_request
   \<Rightarrow> http_response \<times> oauth_server" where
  "token_handler s now nonce1 nonce2 r =
     (if req_method r \<noteq> ''POST'' then (http_error ''method not allowed'' 405, s)
      else case form r of
        None \<Rightarrow> (token_err ''invalid_request'' ''bad form'', s)
      | Some f \<Rightarrow>
          (case basic_or_form_creds r f of
             None \<Rightarrow> (token_err ''invalid_client'' ''bad credentials'', s)
           | Some (cid, csecret) \<Rightarrow>
               if cid \<noteq> client_id s \<or> \<not> ct_equal (to_bytes csecret) (to_bytes (client_secret s)) then
                 (token_err ''invalid_client'' ''bad credentials'', s)
               else if f ''grant_type'' = ''authorization_code'' then
                 exchange_code s now nonce1 nonce2 f
               else if f ''grant_type'' = ''refresh_token'' then
                 (refresh_access s now nonce1 f, s)
               else (token_err ''unsupported_grant_type'' [], s)))"

section \<open>Runs of the server\<close>

text \<open>
  The handlers one after the other. An event carries what the handler reads besides its state: the
  clock, the random bytes, the request.
\<close>

datatype oauth_event =
    EvAuthorize instant instant bytes http_request
  | EvToken instant "bytes option" "bytes option" http_request

datatype oauth_outcome = OutAuth auth_response | OutToken http_response

fun oauth_step ::
  "(string \<Rightarrow> parsed_url option) \<Rightarrow> oauth_server \<Rightarrow> oauth_event \<Rightarrow> oauth_outcome \<times> oauth_server" where
  "oauth_step url_parse s (EvAuthorize now1 now2 rnd r) =
     (case authorize url_parse s now1 now2 rnd r of (x, s') \<Rightarrow> (OutAuth x, s'))"
| "oauth_step url_parse s (EvToken now n1 n2 r) =
     (case token_handler s now n1 n2 r of (x, s') \<Rightarrow> (OutToken x, s'))"

type_synonym oauth_trace = "(oauth_event \<times> oauth_outcome) list"

fun oauth_run ::
  "(string \<Rightarrow> parsed_url option) \<Rightarrow> oauth_server \<Rightarrow> oauth_event list \<Rightarrow> oauth_trace \<times> oauth_server" where
  "oauth_run url_parse s [] = ([], s)"
| "oauth_run url_parse s (e # es) =
     (case oauth_step url_parse s e of (x, s1) \<Rightarrow>
        (case oauth_run url_parse s1 es of (tr, s2) \<Rightarrow> ((e, x) # tr, s2)))"

text \<open>The clock readings of the events are in order, from \<open>t\<close> on.\<close>

fun clocked :: "instant \<Rightarrow> oauth_event list \<Rightarrow> bool" where
  "clocked t [] \<longleftrightarrow> True"
| "clocked t (EvAuthorize now1 now2 rnd r # es) \<longleftrightarrow> t \<le> now1 \<and> now1 \<le> now2 \<and> clocked now2 es"
| "clocked t (EvToken now n1 n2 r # es) \<longleftrightarrow> t \<le> now \<and> clocked now es"

fun last_clock :: "instant \<Rightarrow> oauth_event list \<Rightarrow> instant" where
  "last_clock t [] = t"
| "last_clock t (EvAuthorize now1 now2 rnd r # es) = last_clock now2 es"
| "last_clock t (EvToken now n1 n2 r # es) = last_clock now es"

text \<open>The failed password attempts of a trace: who and when.\<close>

fun denied :: "oauth_event \<times> oauth_outcome \<Rightarrow> (string \<times> instant) option" where
  "denied (EvAuthorize now1 now2 rnd r, OutAuth (Consent code d)) =
     (if code = 401 then Some (client_ip r, now2) else None)"
| "denied _ = None"

definition failures :: "oauth_trace \<Rightarrow> (string \<times> instant) list" where
  "failures tr = List.map_filter denied tr"

text \<open>An event that handed out authorization code \<open>c\<close>, and one that exchanged it for tokens.\<close>

fun issued :: "string \<Rightarrow> oauth_event \<times> oauth_outcome \<Rightarrow> bool" where
  "issued c (EvAuthorize now1 now2 rnd r, OutAuth (Found u)) \<longleftrightarrow> random_token rnd = c"
| "issued c _ \<longleftrightarrow> False"

fun redeemed :: "string \<Rightarrow> oauth_event \<times> oauth_outcome \<Rightarrow> bool" where
  "redeemed c (EvToken now n1 n2 r, OutToken x) \<longleftrightarrow>
     status x = 200 \<and>
     (case form r of
        None \<Rightarrow> False
      | Some f \<Rightarrow> f ''grant_type'' = ''authorization_code'' \<and> f ''code'' = c)"
| "redeemed c _ \<longleftrightarrow> False"

section \<open>Lemmas: the budget\<close>

subsection \<open>Pruning\<close>

abbreviation in_window :: "instant \<Rightarrow> instant \<Rightarrow> bool" where
  "in_window now t \<equiv> now - t < pw_fail_window"

lemma fails_of_Nil [simp]: "fails_of [] ip = []"
  by (simp add: fails_of_def)

lemma fails_of_Cons: "fails_of ((k, ts) # m) ip = (if k = ip then ts else fails_of m ip)"
  by (simp add: fails_of_def)

lemma fails_of_absent: "ip \<notin> fst ` set m \<Longrightarrow> fails_of m ip = []"
  by (induction m) (auto simp: fails_of_Cons)

lemma prune_entry_pair:
  "prune_entry now (k, ts) =
     (if filter (in_window now) ts = [] then None else Some (k, filter (in_window now) ts))"
  by (simp add: prune_entry_def Let_def)

lemmas prune_simps = List.map_filter_simps prune_entry_pair

lemma prune_keys: "fst ` set (List.map_filter (prune_entry now) m) \<subseteq> fst ` set m"
proof (induction m)
  case (Cons e m)
  obtain k ts where "e = (k, ts)" by (cases e)
  with Cons show ?case
    by (cases "filter (in_window now) ts = []") (auto simp: prune_simps simp del: filter_empty_conv)
qed (simp add: prune_simps)

lemma prune_distinct:
  "distinct (map fst m) \<Longrightarrow> distinct (map fst (List.map_filter (prune_entry now) m))"
proof (induction m)
  case (Cons e m)
  with prune_keys [of now m] show ?case
    by (cases e) (auto simp: prune_simps simp del: filter_empty_conv)
qed (simp add: prune_simps)

lemma fails_of_prune:
  "distinct (map fst m) \<Longrightarrow>
   fails_of (List.map_filter (prune_entry now) m) ip = filter (in_window now) (fails_of m ip)"
proof (induction m)
  case (Cons e m)
  obtain k ts where e: "e = (k, ts)" by (cases e)
  have "fails_of m k = []"
    using Cons.prems e by (intro fails_of_absent) auto
  with Cons e show ?case
    by (auto simp: prune_simps fails_of_Cons simp del: filter_empty_conv)
qed (simp add: prune_simps)

lemma total_prune:
  "sum_list (map (length \<circ> snd) (List.map_filter (prune_entry now) m)) =
   sum_list (map (\<lambda>(k, ts). length (filter (in_window now) ts)) m)"
  by (induction m) (auto simp: prune_simps simp del: filter_empty_conv)

lemma total_fails_of:
  "distinct (map fst m) \<Longrightarrow>
   sum_list (map (\<lambda>(k, ts). length (filter P ts)) m) =
   (\<Sum>k \<in> fst ` set m. length (filter P (fails_of m k)))"
proof (induction m)
  case (Cons e m)
  obtain k ts where e: "e = (k, ts)" by (cases e)
  with Cons.prems have k: "k \<notin> fst ` set m" by auto
  have "(\<Sum>j \<in> fst ` set m. length (filter P (fails_of ((k, ts) # m) j))) =
    (\<Sum>j \<in> fst ` set m. length (filter P (fails_of m j)))"
    using k by (intro sum.cong) (auto simp: fails_of_Cons)
  with Cons e k show ?case by (simp add: fails_of_Cons)
qed simp

text \<open>A list split by a key into the parts of finitely many keys.\<close>

lemma length_filter_partition:
  assumes "finite K" and "\<And>x. x \<in> set xs \<Longrightarrow> P x \<Longrightarrow> f x \<in> K"
  shows "(\<Sum>k \<in> K. length (filter (\<lambda>x. f x = k \<and> P x) xs)) = length (filter P xs)"
  using assms(2)
proof (induction xs)
  case (Cons x xs)
  have "(\<Sum>k \<in> K. length (filter (\<lambda>y. f y = k \<and> P y) (x # xs))) =
    (\<Sum>k \<in> K. (if f x = k \<and> P x then 1 else 0) + length (filter (\<lambda>y. f y = k \<and> P y) xs))"
    by (intro sum.cong) auto
  also have "\<dots> = (\<Sum>k \<in> K. if f x = k \<and> P x then 1 else 0) + length (filter P xs)"
    using Cons by (simp add: sum.distrib)
  also have "(\<Sum>k \<in> K. if f x = k \<and> P x then 1 else 0 :: nat) = (if P x then 1 else 0)"
    using Cons.prems [of x] assms(1) by (auto simp: sum.delta)
  finally show ?case by simp
qed simp

subsection \<open>The budget against the full history\<close>

text \<open>
  The abstract specification keeps every failure ever recorded. The table of the code, pruned at
  every check, agrees with it on the window of any later instant.
\<close>

definition recent :: "(string \<times> instant) list \<Rightarrow> instant \<Rightarrow> nat" where
  "recent log now = length (filter (\<lambda>(_, t). in_window now t) log)"

definition recent_of :: "(string \<times> instant) list \<Rightarrow> instant \<Rightarrow> string \<Rightarrow> nat" where
  "recent_of log now ip = length (filter (\<lambda>(i, t). i = ip \<and> in_window now t) log)"

definition budget_inv ::
  "(string \<times> instant list) list \<Rightarrow> (string \<times> instant) list \<Rightarrow> instant \<Rightarrow> bool" where
  "budget_inv m log t0 \<longleftrightarrow>
     distinct (map fst m) \<and>
     (\<forall>now ip. t0 \<le> now \<longrightarrow>
        filter (in_window now) (fails_of m ip) =
        map snd (filter (\<lambda>(i, t). i = ip \<and> in_window now t) log))"

lemma budget_inv_init: "budget_inv [] [] t0"
  by (simp add: budget_inv_def)

lemma budget_inv_later: "budget_inv m log t0 \<Longrightarrow> t0 \<le> t1 \<Longrightarrow> budget_inv m log t1"
  by (auto simp: budget_inv_def)

lemma budget_inv_prune:
  assumes "budget_inv m log t0" and "t0 \<le> now"
  shows "budget_inv (List.map_filter (prune_entry now) m) log now"
  unfolding budget_inv_def
proof (intro conjI allI impI)
  show "distinct (map fst (List.map_filter (prune_entry now) m))"
    using assms by (simp add: budget_inv_def prune_distinct)
  fix now' ip assume now': "now \<le> now'"
  have "filter (in_window now') (fails_of (List.map_filter (prune_entry now) m) ip) =
      filter (in_window now') (filter (in_window now) (fails_of m ip))"
    using assms by (simp add: budget_inv_def fails_of_prune)
  also have "\<dots> = filter (in_window now') (fails_of m ip)"
    using now' by (intro filter_filter_imp) simp
  finally show "filter (in_window now') (fails_of (List.map_filter (prune_entry now) m) ip) =
      map snd (filter (\<lambda>(i, t). i = ip \<and> in_window now' t) log)"
    using assms now' by (simp add: budget_inv_def)
qed

lemma budget_inv_record:
  assumes "budget_inv m log t0"
  shows "budget_inv (AList.update ip (fails_of m ip @ [t]) m) (log @ [(ip, t)]) t0"
  using assms
  by (auto simp: budget_inv_def fails_of_def update_conv' distinct_update split: option.splits)

lemma budget_inv_check:
  assumes inv: "budget_inv (pw_fails s) log t0" and "t0 \<le> now"
  shows "snd (too_many_failures s now ip) \<longleftrightarrow>
     recent_of log now ip \<ge> pw_max_per_ip \<or> recent log now \<ge> pw_max_global"
proof -
  let ?m = "pw_fails s"
  have d: "distinct (map fst ?m)" and
    w: "filter (in_window now) (fails_of ?m k) = map snd (filter (\<lambda>(i, t). i = k \<and> in_window now t) log)" for k
    using inv \<open>t0 \<le> now\<close> by (auto simp: budget_inv_def)
  have len: "length (filter (in_window now) (fails_of ?m k)) = recent_of log now k" for k
    by (simp add: w recent_of_def)
  have keys: "i \<in> fst ` set ?m" if "(i, t) \<in> set log" "in_window now t" for i t
  proof (rule ccontr)
    assume "i \<notin> fst ` set ?m"
    then have "filter (\<lambda>(i', t). i' = i \<and> in_window now t) log = []"
      using w [of i] by (simp add: fails_of_absent)
    with that show False by (auto simp: filter_empty_conv)
  qed
  have "(\<Sum>k \<in> fst ` set ?m. recent_of log now k) = recent log now"
    using length_filter_partition [of "fst ` set ?m" log "\<lambda>(_, t). in_window now t" fst] keys
    by (simp add: recent_of_def recent_def case_prod_unfold image_iff split: prod.splits) force
  then show ?thesis
    by (simp add: too_many_failures_def Let_def fails_of_prune d len total_prune total_fails_of)
qed


subsection \<open>The budget over runs\<close>

lemma authorize_cases:
  assumes "authorize url_parse s now1 now2 rnd r = (x, s')"
  obtains
    (early) code d where "s' = s" "x = AuthError d code \<or> (\<exists>d. x = Consent 200 d)"
  | (blocked) "x = AuthError too_many_msg 429" "s' = fst (too_many_failures s now1 (client_ip r))"
      "snd (too_many_failures s now1 (client_ip r))"
  | (denied) f d where "x = Consent 401 d" "form r = Some f" "f ''password'' \<noteq> user_password s"
      "\<not> snd (too_many_failures s now1 (client_ip r))"
      "s' = record_failure (fst (too_many_failures s now1 (client_ip r))) now2 (client_ip r)"
  | (found) f u uri u0 where "x = Found u" "form r = Some f" "f ''password'' = user_password s"
      "\<not> snd (too_many_failures s now1 (client_ip r))"
      "uri = query_get (parse_query (raw_query r)) ''redirect_uri''"
      "valid_redirect_uri url_parse uri" "url_parse uri = Some u0"
      "u_scheme u = u_scheme u0" "u_hostname u = u_hostname u0"
      "(''code'', random_token rnd) \<in> set (u_query u)"
      "s' = (fst (too_many_failures s now1 (client_ip r)))
              \<lparr>codes := (codes s)(random_token rnd \<mapsto>
                 \<lparr>entry_redirect_uri = uri, entry_expires = now2 + code_ttl\<rparr>)\<rparr>"
proof -
  obtain s1 b where tm: "too_many_failures s now1 (client_ip r) = (s1, b)" by fastforce
  then have s1: "user_password s1 = user_password s" "codes s1 = codes s"
    by (auto simp: too_many_failures_def Let_def)
  show thesis
    using assms tm s1
    by (auto simp: authorize_def Let_def valid_redirect_uri_def values_set_def
        split: if_splits option.splits
        intro: early blocked denied found)
qed


lemma token_handler_pw_fails [frame]: "token_handler s now n1 n2 r = (x, s') \<Longrightarrow> pw_fails s' = pw_fails s"
  by (auto simp: token_handler_def exchange_code_def Let_def split: if_splits option.splits prod.splits)

lemma budget_inv_too_many:
  "budget_inv (pw_fails s) log t0 \<Longrightarrow> t0 \<le> now \<Longrightarrow>
   budget_inv (pw_fails (fst (too_many_failures s now ip))) log now"
  by (simp add: too_many_failures_def Let_def budget_inv_prune)

text \<open>No window of fifteen minutes holds more failures than the two limits.\<close>

definition within_budget :: "(string \<times> instant) list \<Rightarrow> bool" where
  "within_budget log \<longleftrightarrow>
     (\<forall>w. length (filter (\<lambda>(_, t). w \<le> t \<and> t < w + pw_fail_window) log) \<le> pw_max_global \<and>
          (\<forall>ip. length (filter (\<lambda>(i, t). i = ip \<and> w \<le> t \<and> t < w + pw_fail_window) log)
                \<le> pw_max_per_ip))"

lemma length_filter_mono: "(\<And>x. x \<in> set xs \<Longrightarrow> P x \<Longrightarrow> Q x) \<Longrightarrow> length (filter P xs) \<le> length (filter Q xs)"
  by (induction xs) (auto intro: le_SucI)

lemma within_budget_snoc:
  assumes "within_budget log" and "t1 \<le> t2"
    and "recent_of log t1 ip < pw_max_per_ip" and "recent log t1 < pw_max_global"
  shows "within_budget (log @ [(ip, t2)])"
  unfolding within_budget_def
proof (intro allI conjI)
  fix w :: instant and ip' :: string
  have all: "length (filter (\<lambda>(_, t). w \<le> t \<and> t < w + pw_fail_window) log) \<le> recent log t1"
    if "t2 < w + pw_fail_window"
    unfolding recent_def using that assms(2) by (intro length_filter_mono) auto
  have one: "length (filter (\<lambda>(i, t). i = ip \<and> w \<le> t \<and> t < w + pw_fail_window) log) \<le> recent_of log t1 ip"
    if "t2 < w + pw_fail_window"
    unfolding recent_of_def using that assms(2) by (intro length_filter_mono) auto
  show "length (filter (\<lambda>(_, t). w \<le> t \<and> t < w + pw_fail_window) (log @ [(ip, t2)])) \<le> pw_max_global"
    using assms(1,4) all by (auto simp: within_budget_def)
  show "length (filter (\<lambda>(i, t). i = ip' \<and> w \<le> t \<and> t < w + pw_fail_window) (log @ [(ip, t2)]))
      \<le> pw_max_per_ip"
    using assms(1,3) one by (auto simp: within_budget_def)
qed

lemma budget_step:
  assumes step: "oauth_step url_parse s e = (x, s')" and inv: "budget_inv (pw_fails s) log t0"
    and cap: "within_budget log" and clk: "clocked t0 (e # es)"
  defines "log' \<equiv> log @ (case denied (e, x) of None \<Rightarrow> [] | Some y \<Rightarrow> [y])"
  shows "budget_inv (pw_fails s') log' (last_clock t0 [e]) \<and> within_budget log' \<and>
    clocked (last_clock t0 [e]) es"
proof (cases e)
  case (EvToken now n1 n2 r)
  then obtain y where h: "token_handler s now n1 n2 r = (y, s')" and x: "x = OutToken y"
    using step by (auto split: prod.splits)
  have "log' = log" by (simp add: log'_def EvToken)
  with EvToken token_handler_pw_fails [OF h] inv cap clk show ?thesis
    by (auto intro: budget_inv_later)
next
  case (EvAuthorize now1 now2 rnd r)
  then obtain y where h: "authorize url_parse s now1 now2 rnd r = (y, s')" and x: "x = OutAuth y"
    using step by (auto split: prod.splits)
  have clk': "t0 \<le> now1" "now1 \<le> now2" "clocked now2 es"
    using clk EvAuthorize by auto
  define s1 where "s1 = fst (too_many_failures s now1 (client_ip r))"
  have s1: "budget_inv (pw_fails s1) log now2"
    unfolding s1_def by (rule budget_inv_later [OF budget_inv_too_many [OF inv clk'(1)] clk'(2)])
  from h show ?thesis
  proof (cases rule: authorize_cases)
    case (early code d)
    then have "log' = log" by (auto simp: log'_def EvAuthorize x)
    with early EvAuthorize inv cap clk' show ?thesis by (auto intro: budget_inv_later)
  next
    case blocked
    then have "log' = log" by (auto simp: log'_def EvAuthorize x)
    with blocked EvAuthorize s1 cap clk' show ?thesis by (simp add: s1_def)
  next
    case (denied f d)
    then have log': "log' = log @ [(client_ip r, now2)]" by (simp add: log'_def EvAuthorize x)
    have "within_budget log'"
      unfolding log' using cap clk'(2) denied budget_inv_check [OF inv clk'(1), of "client_ip r"]
      by (intro within_budget_snoc) auto
    moreover have "budget_inv (pw_fails s') log' now2"
      unfolding log' using denied(5) budget_inv_record [OF s1]
      by (simp add: record_failure_def s1_def)
    ultimately show ?thesis using EvAuthorize clk' by simp
  next
    case (found f u uri u0)
    then have "log' = log" by (simp add: log'_def EvAuthorize x)
    with found EvAuthorize s1 cap clk' show ?thesis by (simp add: s1_def)
  qed
qed

lemma last_clock_Cons: "last_clock t (e # es) = last_clock (last_clock t [e]) es"
  by (cases e) simp_all

lemma failures_Cons:
  "failures (ex # tr) = (case denied ex of None \<Rightarrow> [] | Some y \<Rightarrow> [y]) @ failures tr"
  by (simp add: failures_def List.map_filter_simps split: option.splits)

lemma budget_run:
  assumes "oauth_run url_parse s es = (tr, s')" and "budget_inv (pw_fails s) log t0"
    and "within_budget log" and "clocked t0 es"
  shows "budget_inv (pw_fails s') (log @ failures tr) (last_clock t0 es) \<and>
    within_budget (log @ failures tr)"
  using assms
proof (induction es arbitrary: s log t0 tr)
  case Nil
  then show ?case by (simp add: failures_def List.map_filter_simps)
next
  case (Cons e es)
  obtain x s1 where step: "oauth_step url_parse s e = (x, s1)" by fastforce
  obtain tr1 where run: "oauth_run url_parse s1 es = (tr1, s')" and tr: "tr = (e, x) # tr1"
    using Cons.prems(1) step by (auto split: prod.splits)
  from budget_step [OF step Cons.prems(2-4)] Cons.IH [OF run]
  show ?case
    unfolding tr failures_Cons last_clock_Cons [of t0 e es] append_assoc [symmetric] by blast
qed

section \<open>Lemmas: tokens\<close>

lemma token_mac_no_sep [simp]: "CHR ''.'' \<notin> set (token_mac k p)"
  by (simp add: token_mac_def)

lemma split_oauth_token:
  assumes "CHR ''.'' \<notin> set kind"
  shows "split_on CHR ''.'' (oauth_token secret kind exp nonce) =
    [kind, format_int exp, b64url nonce, token_mac secret (token_payload kind exp (b64url nonce))]"
  using assms
  by (simp add: oauth_token_def Let_def token_payload_def split_on_append split_on_no_sep)

text \<open>\<open>verifyToken\<close> takes exactly the four-part tokens of the wanted kind with a valid MAC.\<close>

lemma split_on_four:
  "split_on c s = [p1, p2, p3, p4] \<longleftrightarrow>
   s = p1 @ c # p2 @ c # p3 @ c # p4 \<and>
   c \<notin> set p1 \<and> c \<notin> set p2 \<and> c \<notin> set p3 \<and> c \<notin> set p4"
proof
  assume h: "split_on c s = [p1, p2, p3, p4]"
  with join_split_on [of c s] split_on_no_sep_parts [of c s]
  show "s = p1 @ c # p2 @ c # p3 @ c # p4 \<and>
    c \<notin> set p1 \<and> c \<notin> set p2 \<and> c \<notin> set p3 \<and> c \<notin> set p4" by simp
qed (simp add: split_on_append split_on_no_sep)

lemma oauth_verify_iff:
  "oauth_verify secret now tok kind \<longleftrightarrow>
   secret \<noteq> [] \<and> CHR ''.'' \<notin> set kind \<and>
   (\<exists>exp_str nonce exp.
      CHR ''.'' \<notin> set exp_str \<and> CHR ''.'' \<notin> set nonce \<and>
      parse_int64 exp_str = Some exp \<and> unix now \<le> exp \<and>
      tok = (kind @ ''.'' @ exp_str @ ''.'' @ nonce) @ ''.'' @
            token_mac secret (kind @ ''.'' @ exp_str @ ''.'' @ nonce))"
  (is "?l \<longleftrightarrow> ?r")
proof
  assume ?l
  then obtain exp_str nonce sig exp where
    s: "split_on CHR ''.'' tok = [kind, exp_str, nonce, sig]" and
    v: "secret \<noteq> []" "parse_int64 exp_str = Some exp" "unix now \<le> exp"
      "token_mac secret (kind @ ''.'' @ exp_str @ ''.'' @ nonce) = sig"
    by (auto simp: oauth_verify_def Let_def split: if_splits list.splits option.splits)
  from s v show ?r unfolding split_on_four by auto
next
  assume ?r
  then obtain exp_str nonce exp where v: "secret \<noteq> []" "CHR ''.'' \<notin> set kind"
    "CHR ''.'' \<notin> set exp_str" "CHR ''.'' \<notin> set nonce" "parse_int64 exp_str = Some exp" "unix now \<le> exp"
    "tok = (kind @ ''.'' @ exp_str @ ''.'' @ nonce) @ ''.'' @
       token_mac secret (kind @ ''.'' @ exp_str @ ''.'' @ nonce)" by blast
  then have "split_on CHR ''.'' tok =
      [kind, exp_str, nonce, token_mac secret (kind @ ''.'' @ exp_str @ ''.'' @ nonce)]"
    unfolding split_on_four by simp
  with v show ?l by (simp add: oauth_verify_def Let_def)
qed

lemma oauth_verify_issued:
  assumes "secret \<noteq> []" "CHR ''.'' \<notin> set kind" "int64 e"
  shows "oauth_verify secret now (oauth_token secret kind e nonce) kind \<longleftrightarrow> unix now \<le> e"
  using assms split_oauth_token [OF assms(2), of secret e nonce]
  by (auto simp: oauth_verify_def Let_def parse_int64_format_int token_payload_def)

lemma oauth_verify_kind:
  "oauth_verify secret now tok kind \<Longrightarrow> oauth_verify secret' now' tok kind' \<Longrightarrow> kind = kind'"
  by (auto simp: oauth_verify_def Let_def split: if_splits list.splits)

text \<open>OAuth tokens keep the contract of an expiring credential, subject: kind and nonce.\<close>

definition oauth_issue :: "bytes \<Rightarrow> string \<times> bytes \<Rightarrow> int \<Rightarrow> string" where
  "oauth_issue secret = (\<lambda>(kind, nonce) e. oauth_token secret kind e nonce)"

definition oauth_accepts :: "bytes \<Rightarrow> string \<times> bytes \<Rightarrow> int \<Rightarrow> string \<Rightarrow> bool" where
  "oauth_accepts secret = (\<lambda>(kind, _) t tok. oauth_verify secret (t * second) tok kind)"

interpretation oauth: expiring_credential "oauth_issue secret" "oauth_accepts secret"
  "\<lambda>(kind, _). secret \<noteq> [] \<and> CHR ''.'' \<notin> set kind" for secret
  by unfold_locales (auto simp: oauth_issue_def oauth_accepts_def oauth_verify_issued)

lemma oauth_accepts_verify:
  "oauth_accepts secret (kind, n) (unix now) tok \<longleftrightarrow> oauth_verify secret now tok kind"
  by (simp add: oauth_accepts_def oauth_verify_iff)

section \<open>Lemmas: authorization codes\<close>

text \<open>What a token request does to code \<open>c\<close>: a redemption removes it, nothing adds one.\<close>

lemma token_handler_codes:
  assumes "token_handler s now n1 n2 r = (x, s')"
  shows "codes s' c \<noteq> None \<Longrightarrow> codes s' c = codes s c"
    and "redeemed c (EvToken now n1 n2 r, OutToken x) \<Longrightarrow>
      \<exists>e f. codes s c = Some e \<and> codes s' c = None \<and> now \<le> entry_expires e \<and>
        form r = Some f \<and> f ''redirect_uri'' = entry_redirect_uri e"
  using assms
  by (auto simp: token_handler_def exchange_code_def Let_def token_err_def
      split: if_splits option.splits prod.splits)

text \<open>Where a stored code comes from.\<close>

definition grant_of :: "string \<Rightarrow> code_entry \<Rightarrow> string \<Rightarrow> oauth_event \<times> oauth_outcome \<Rightarrow> bool" where
  "grant_of password e c ex =
     (case ex of
        (EvAuthorize now1 now2 rnd r, OutAuth (Found u)) \<Rightarrow>
          random_token rnd = c \<and> entry_expires e = now2 + code_ttl \<and>
          entry_redirect_uri e = query_get (parse_query (raw_query r)) ''redirect_uri'' \<and>
          (case form r of Some f \<Rightarrow> f ''password'' = password | None \<Rightarrow> False)
      | _ \<Rightarrow> False)"

lemma grant_ofD:
  assumes "grant_of password e c ex"
  shows "\<exists>now1 now2 rnd q u g. ex = (EvAuthorize now1 now2 rnd q, OutAuth (Found u)) \<and>
    random_token rnd = c \<and> entry_expires e = now2 + code_ttl \<and> form q = Some g \<and>
    g ''password'' = password \<and>
    entry_redirect_uri e = query_get (parse_query (raw_query q)) ''redirect_uri''"
  using assms
  by (auto simp: grant_of_def split: prod.splits oauth_event.splits oauth_outcome.splits
      auth_response.splits option.splits)

definition code_origin :: "oauth_server \<Rightarrow> oauth_trace \<Rightarrow> bool" where
  "code_origin s tr \<longleftrightarrow>
     (\<forall>c e. codes s c = Some e \<longrightarrow> (\<exists>ex \<in> set tr. grant_of (user_password s) e c ex))"

lemma too_many_codes [frame, simp]:
  "codes (fst (too_many_failures s now ip)) = codes s"
  "user_password (fst (too_many_failures s now ip)) = user_password s"
  "codes (record_failure s now ip) = codes s"
  "user_password (record_failure s now ip) = user_password s"
  by (simp_all add: too_many_failures_def record_failure_def Let_def)

lemma token_handler_password [frame]:
  "token_handler s now n1 n2 r = (x, s') \<Longrightarrow> user_password s' = user_password s"
  by (auto simp: token_handler_def exchange_code_def Let_def split: if_splits option.splits prod.splits)

lemma authorize_password [frame]:
  "authorize url_parse s now1 now2 rnd r = (x, s') \<Longrightarrow> user_password s' = user_password s"
  by (erule authorize_cases) simp_all

lemma oauth_step_password [frame]:
  "oauth_step url_parse s e = (x, s') \<Longrightarrow> user_password s' = user_password s"
  by (cases e) (auto split: prod.splits dest: token_handler_password authorize_password)

lemma oauth_step_codes:
  assumes "oauth_step url_parse s e = (x, s')"
  shows "codes s' c = Some en \<Longrightarrow> codes s c = Some en \<or> grant_of (user_password s) en c (e, x)"
    and "(if redeemed c (e, x) then 1 else 0) + (if codes s' c = None then 0 else 1) \<le>
      (if issued c (e, x) then 1 else 0) + (if codes s c = None then 0 else (1 :: nat))"
proof -
  have "(codes s' c = Some en \<longrightarrow> codes s c = Some en \<or> grant_of (user_password s) en c (e, x)) \<and>
    (if redeemed c (e, x) then 1 else 0) + (if codes s' c = None then 0 else 1) \<le>
      (if issued c (e, x) then 1 else 0) + (if codes s c = None then 0 else (1 :: nat))"
  proof (cases e)
    case (EvToken now n1 n2 r)
    then obtain y where h: "token_handler s now n1 n2 r = (y, s')" and x: "x = OutToken y"
      using assms by (auto split: prod.splits)
    from token_handler_codes [OF h, of c] EvToken x show ?thesis by fastforce
  next
    case (EvAuthorize now1 now2 rnd r)
    then obtain y where h: "authorize url_parse s now1 now2 rnd r = (y, s')" and x: "x = OutAuth y"
      using assms by (auto split: prod.splits)
    from h show ?thesis
      by (cases rule: authorize_cases) (auto simp: EvAuthorize x grant_of_def split: if_splits)
  qed
  then show "codes s' c = Some en \<Longrightarrow> codes s c = Some en \<or> grant_of (user_password s) en c (e, x)"
    and "(if redeemed c (e, x) then 1 else 0) + (if codes s' c = None then 0 else 1) \<le>
      (if issued c (e, x) then 1 else 0) + (if codes s c = None then 0 else (1 :: nat))"
    by blast+
qed

lemma code_origin_step:
  assumes "code_origin s tr" and "oauth_step url_parse s e = (x, s')"
  shows "code_origin s' (tr @ [(e, x)])"
  using assms(1) oauth_step_codes(1) [OF assms(2)] oauth_step_password [OF assms(2)]
  unfolding code_origin_def by fastforce

lemma code_count_run:
  assumes "oauth_run url_parse s es = (tr, s')"
  shows "length (filter (redeemed c) tr) + (if codes s' c = None then 0 else 1) \<le>
    length (filter (issued c) tr) + (if codes s c = None then 0 else 1)"
  using assms
proof (induction es arbitrary: s tr)
  case (Cons e es)
  obtain x s1 where step: "oauth_step url_parse s e = (x, s1)" by fastforce
  obtain tr1 where run: "oauth_run url_parse s1 es = (tr1, s')" and tr: "tr = (e, x) # tr1"
    using Cons.prems step by (auto split: prod.splits)
  from Cons.IH [OF run] oauth_step_codes(2) [OF step, of c] show ?case
    unfolding tr by (auto split: if_splits)
qed simp

lemma code_origin_run:
  assumes "oauth_run url_parse s es = (pre @ (e, x) # post, s')" and "code_origin s tr0"
  shows "\<exists>s1 s2. oauth_step url_parse s1 e = (x, s2) \<and> code_origin s1 (tr0 @ pre) \<and>
    user_password s1 = user_password s"
  using assms
proof (induction es arbitrary: s pre tr0)
  case (Cons d es)
  obtain y s1 where step: "oauth_step url_parse s d = (y, s1)" by fastforce
  obtain tr1 where run: "oauth_run url_parse s1 es = (tr1, s')"
    and tr: "pre @ (e, x) # post = (d, y) # tr1"
    using Cons.prems(1) step by (auto split: prod.splits)
  show ?case
  proof (cases pre)
    case Nil
    with tr step Cons.prems(2) show ?thesis by auto
  next
    case (Cons p pre')
    with tr have "tr1 = pre' @ (e, x) # post" "p = (d, y)" by auto
    with Cons.IH [of s1 pre' "tr0 @ [(d, y)]"] run code_origin_step [OF Cons.prems(2) step]
      oauth_step_password [OF step] Cons
    show ?thesis by auto
  qed
qed simp

section \<open>Concurrent attempts\<close>

text \<open>
  The handler takes the lock once to check the budget and once to record the failure, and releases
  it in between. In-flight requests between the two are the list \<open>in_flight\<close>; each of them has its
  password compared whatever the others record meanwhile.
\<close>

record consent_sys =
  server :: oauth_server
  in_flight :: "string list"

inductive consent_step :: "instant \<Rightarrow> consent_sys \<Rightarrow> consent_sys \<Rightarrow> bool" for now where
  check: "too_many_failures (server c) now ip = (s1, False) \<Longrightarrow>
    consent_step now c (c\<lparr>server := s1, in_flight := ip # in_flight c\<rparr>)"
| refuse: "too_many_failures (server c) now ip = (s1, True) \<Longrightarrow>
    consent_step now c (c\<lparr>server := s1\<rparr>)"
| wrong_password: "in_flight c = ip # rest \<Longrightarrow>
    consent_step now c (c\<lparr>server := record_failure (server c) now ip, in_flight := rest\<rparr>)"

inductive_cases consent_stepE: "consent_step now c c'"

lemma checks_empty:
  assumes "pw_fails s = []"
  shows "(consent_step now)\<^sup>*\<^sup>* \<lparr>server = s, in_flight = []\<rparr> \<lparr>server = s, in_flight = replicate n ip\<rparr>"
proof (induction n)
  case (Suc n)
  have "too_many_failures s now ip = (s, False)"
    using assms by (simp add: too_many_failures_def List.map_filter_simps pw_max_per_ip_def
        pw_max_global_def)
  then have "consent_step now \<lparr>server = s, in_flight = replicate n ip\<rparr>
      \<lparr>server = s, in_flight = replicate (Suc n) ip\<rparr>"
    using check [of "\<lparr>server = s, in_flight = replicate n ip\<rparr>" now ip s] by simp
  with Suc show ?case by (rule rtranclp.rtrancl_into_rtrancl)
qed simp

lemma records_all:
  "\<exists>s'. (consent_step now)\<^sup>*\<^sup>* \<lparr>server = s, in_flight = replicate n ip\<rparr> \<lparr>server = s', in_flight = []\<rparr> \<and>
     fails_of (pw_fails s') ip = fails_of (pw_fails s) ip @ replicate n now"
proof (induction n arbitrary: s)
  case (Suc n)
  let ?s1 = "record_failure s now ip"
  have "consent_step now \<lparr>server = s, in_flight = replicate (Suc n) ip\<rparr>
      \<lparr>server = ?s1, in_flight = replicate n ip\<rparr>"
    using wrong_password [of "\<lparr>server = s, in_flight = replicate (Suc n) ip\<rparr>" ip "replicate n ip" now]
    by simp
  moreover have "fails_of (pw_fails ?s1) ip = fails_of (pw_fails s) ip @ [now]"
    by (simp add: record_failure_def fails_of_def update_conv')
  ultimately show ?case
    using Suc.IH [of ?s1] by (fastforce intro: converse_rtranclp_into_rtranclp simp: replicate_app_Cons_same)
qed auto

section \<open>A concrete server\<close>

text \<open>A server and its requests, for the witnesses: a wrong password, consent, an exchange.\<close>

definition ex_url :: parsed_url where
  "ex_url = \<lparr>u_scheme = ''https'', u_hostname = ''oauth-redirect.googleusercontent.com'',
     u_path = ''/r/p'', u_query = []\<rparr>"

definition ex_server :: oauth_server where
  "ex_server = new_oauth ''cid'' ''sec'' ''open'' [1]"

definition ex_request :: "string \<Rightarrow> http_request" where
  "ex_request pw =
     \<lparr>req_method = ''POST'', path = ''/oauth/authorize'',
      raw_query = ''client_id=cid&redirect_uri=g&response_type=code'', header = (\<lambda>_. []),
      remote_addr = ''10.0.0.7'', basic_auth = None,
      form = Some (\<lambda>k. if k = ''password'' then pw else []), body_json = None\<rparr>"

definition ex_exchange :: http_request where
  "ex_exchange =
     \<lparr>req_method = ''POST'', path = ''/oauth/token'', raw_query = [], header = (\<lambda>_. []),
      remote_addr = ''10.0.0.7'', basic_auth = Some (''cid'', ''sec''),
      form = Some (\<lambda>k. if k = ''grant_type'' then ''authorization_code''
                       else if k = ''code'' then random_token [7]
                       else if k = ''redirect_uri'' then ''g'' else []), body_json = None\<rparr>"

lemma ex_query: "parse_query ''client_id=cid&redirect_uri=g&response_type=code'' =
   [(''client_id'', ''cid''), (''redirect_uri'', ''g''), (''response_type'', ''code'')]"
  by code_simp

lemma ex_ip: "client_ip (ex_request pw) = ''10.0.0.7''"
  by code_simp

lemmas ex_simps = ex_query ex_ip ex_request_def ex_exchange_def ex_server_def new_oauth_def query_get_def
  valid_redirect_uri_def ex_url_def too_many_failures_def Let_def List.map_filter_simps
  pw_max_per_ip_def pw_max_global_def

lemma ex_denied:
  "authorize (\<lambda>_. Some ex_url) ex_server 0 1 [] (ex_request ''bad'') =
    (Consent 401 \<lparr>cd_client_id = ''cid'', cd_redirect_uri = ''g'', cd_state = [], cd_error = ''Incorrect password''\<rparr>,
     record_failure ex_server 1 ''10.0.0.7'')"
  unfolding authorize_def ex_ip
  by (simp add: ex_simps)

lemma ex_granted:
  "authorize (\<lambda>_. Some ex_url) ex_server 4 5 [7] (ex_request ''open'') =
    (Found (ex_url\<lparr>u_query := [(''code'', random_token [7])]\<rparr>),
     ex_server\<lparr>codes := [random_token [7] \<mapsto> \<lparr>entry_redirect_uri = ''g'', entry_expires = 5 + code_ttl\<rparr>]\<rparr>)"
  unfolding authorize_def ex_ip
  by (simp add: ex_simps values_set_def)

lemma ex_redeemed:
  "token_handler (ex_server\<lparr>codes := [random_token [7] \<mapsto> \<lparr>entry_redirect_uri = ''g'', entry_expires = 5 + code_ttl\<rparr>]\<rparr>)
     6 (Some [1]) (Some [2]) ex_exchange =
   (token_json (oauth_token [1] ''a'' (unix (6 + access_token_ttl)) [1])
      (oauth_token [1] ''r'' (unix (6 + refresh_token_ttl)) [2]), ex_server)"
  by (simp add: ex_simps token_handler_def basic_or_form_creds_def exchange_code_def mint_token_def
    token_kind_access_def token_kind_refresh_def code_ttl_def duration_defs)

abbreviation ex_parse :: "string \<Rightarrow> parsed_url option" where
  "ex_parse \<equiv> \<lambda>_. Some ex_url"

definition ex_link :: "oauth_event list" where
  "ex_link = [EvAuthorize 4 5 [7] (ex_request ''open''), EvToken 6 (Some [1]) (Some [2]) ex_exchange]"

lemma ex_link_run:
  "oauth_run ex_parse ex_server ex_link =
    ([(EvAuthorize 4 5 [7] (ex_request ''open''), OutAuth (Found (ex_url\<lparr>u_query := [(''code'', random_token [7])]\<rparr>))),
      (EvToken 6 (Some [1]) (Some [2]) ex_exchange,
       OutToken (token_json (oauth_token [1] ''a'' (unix (6 + access_token_ttl)) [1])
         (oauth_token [1] ''r'' (unix (6 + refresh_token_ttl)) [2])))], ex_server)"
  by (simp add: ex_link_def ex_granted ex_redeemed)

section \<open>Properties\<close>

text \<open>
  C1: the consent password cannot be tried more often than the two limits allow, as long as its
  requests come one after the other. Whatever requests a freshly started server handles in this way, no
  window of fifteen minutes holds more than 20 refused passwords, nor more than 5 from one client
  address. Requests that overlap can exceed both limits: \<open>consent_budget_race\<close>.
\<close>

theorem consent_budget:
  assumes "clocked t0 es"
    and "oauth_run url_parse (new_oauth cid csecret password secret) es = (tr, s)"
  shows "length (filter (\<lambda>(_, t). w \<le> t \<and> t < w + 15 * minute) (failures tr)) \<le> 20 \<and>
    length (filter (\<lambda>(i, t). i = ip \<and> w \<le> t \<and> t < w + 15 * minute) (failures tr)) \<le> 5"
proof -
  have "budget_inv (pw_fails (new_oauth cid csecret password secret)) [] t0" "within_budget []"
    by (simp_all add: new_oauth_def budget_inv_init within_budget_def)
  from budget_run [OF assms(2) this assms(1)] have "within_budget (failures tr)" by simp
  then show ?thesis
    by (simp add: within_budget_def pw_fail_window_def pw_max_global_def pw_max_per_ip_def)
qed

theorem consent_budget_witness:
  "failures (fst (oauth_run ex_parse ex_server [EvAuthorize 0 1 [] (ex_request ''bad'')])) = [(''10.0.0.7'', 1)] \<and>
   length (filter (\<lambda>(i, t). i = ''10.0.0.7'' \<and> 0 \<le> t \<and> t < 0 + 15 * minute)
     (failures (fst (oauth_run ex_parse ex_server [EvAuthorize 0 1 [] (ex_request ''bad'')])))) \<le> 5"
proof -
  have c: "clocked 0 [EvAuthorize 0 1 [] (ex_request ''bad'')]" by simp
  obtain tr s where run: "oauth_run ex_parse (new_oauth ''cid'' ''sec'' ''open'' [1])
      [EvAuthorize 0 1 [] (ex_request ''bad'')] = (tr, s)" by fastforce
  then have "failures tr = [(''10.0.0.7'', 1)]" "fst (oauth_run ex_parse ex_server
      [EvAuthorize 0 1 [] (ex_request ''bad'')]) = tr"
    by (auto simp: ex_server_def [symmetric] ex_denied failures_def List.map_filter_simps ex_ip)
  with consent_budget [OF c run, of 0 "''10.0.0.7''"] show ?thesis by simp
qed

text \<open>
  C25: the table of failures, pruned in place at every check, decides as the full history does. After
  any run of a fresh server, the budget check at a later instant refuses an address exactly when the
  unabridged log of refused passwords holds five failures of that address, or twenty in all, less
  than fifteen minutes old.
\<close>

theorem consent_budget_refines_history:
  assumes "clocked t0 es" and "last_clock t0 es \<le> now"
    and "oauth_run url_parse (new_oauth cid csecret password secret) es = (tr, s)"
  shows "snd (too_many_failures s now ip) \<longleftrightarrow>
    recent_of (failures tr) now ip \<ge> 5 \<or> recent (failures tr) now \<ge> 20"
proof -
  have "budget_inv (pw_fails (new_oauth cid csecret password secret)) [] t0" "within_budget []"
    by (simp_all add: new_oauth_def budget_inv_init within_budget_def)
  from budget_run [OF assms(3) this assms(1)]
  have "budget_inv (pw_fails s) (failures tr) (last_clock t0 es)" by simp
  from budget_inv_check [OF this assms(2)] show ?thesis
    by (simp add: pw_max_global_def pw_max_per_ip_def)
qed

theorem consent_budget_refines_history_witness:
  "snd (too_many_failures (record_failure ex_server 1 ''10.0.0.7'') 9 ''10.0.0.7'') \<longleftrightarrow>
    recent_of [(''10.0.0.7'', 1)] 9 ''10.0.0.7'' \<ge> 5 \<or> recent [(''10.0.0.7'', 1)] 9 \<ge> 20"
proof -
  have c: "clocked 0 [EvAuthorize 0 1 [] (ex_request ''bad'')]"
    "last_clock 0 [EvAuthorize 0 1 [] (ex_request ''bad'')] \<le> 9" by simp_all
  obtain tr s where run: "oauth_run ex_parse (new_oauth ''cid'' ''sec'' ''open'' [1])
      [EvAuthorize 0 1 [] (ex_request ''bad'')] = (tr, s)" by fastforce
  then have "s = record_failure ex_server 1 ''10.0.0.7''" "failures tr = [(''10.0.0.7'', 1)]"
    by (auto simp: ex_server_def [symmetric] ex_denied failures_def List.map_filter_simps ex_ip)
  with consent_budget_refines_history [OF c run, of "''10.0.0.7''"] show ?thesis by simp
qed

text \<open>
  The budget holds only for attempts made one after the other. The check and the recording of
  a failure are two critical sections, so \<open>n\<close> requests in flight together, for any \<open>n\<close>, can all pass
  the check of an untouched server and all have their password compared at the same instant.
\<close>

theorem consent_budget_race:
  "\<exists>s'. (consent_step now)\<^sup>*\<^sup>*
      \<lparr>server = new_oauth cid csecret password secret, in_flight = []\<rparr>
      \<lparr>server = s', in_flight = []\<rparr> \<and>
    length (fails_of (pw_fails s') ip) = n"
proof -
  let ?s = "new_oauth cid csecret password secret"
  have none: "pw_fails ?s = []" by (simp add: new_oauth_def)
  obtain s' where "(consent_step now)\<^sup>*\<^sup>* \<lparr>server = ?s, in_flight = replicate n ip\<rparr> \<lparr>server = s', in_flight = []\<rparr>"
    "fails_of (pw_fails s') ip = fails_of (pw_fails ?s) ip @ replicate n now"
    using records_all by blast
  with checks_empty [OF none, of now n ip] show ?thesis
    using none by (auto intro!: exI [of _ s'] intro: rtranclp_trans)
qed

text \<open>
  C2: an authorization code is exchanged at most once. In any run of a fresh server, the token
  requests that code \<open>c\<close> paid for are at most as many as the consents that handed \<open>c\<close> out.
\<close>

theorem code_redeemed_at_most_once:
  "length (filter (redeemed c) (fst (oauth_run url_parse (new_oauth cid csecret password secret) es)))
   \<le> length (filter (issued c) (fst (oauth_run url_parse (new_oauth cid csecret password secret) es)))"
proof -
  obtain tr s' where r: "oauth_run url_parse (new_oauth cid csecret password secret) es = (tr, s')"
    by fastforce
  have "codes (new_oauth cid csecret password secret) c = None" by (simp add: new_oauth_def)
  with code_count_run [OF r, of c] show ?thesis unfolding r fst_conv by (simp split: if_splits)
qed

text \<open>
  C3: tokens are handed out only for a consent. When a run redeems code \<open>c\<close>, the same run earlier
  showed the owner's consent password and handed out \<open>c\<close> for the very redirect URI the exchange
  names, at most ten minutes before.
\<close>

theorem code_redemption_sound:
  assumes "oauth_run url_parse (new_oauth cid csecret password secret) es =
      (pre @ (EvToken now n1 n2 r, x) # post, s')"
    and "redeemed c (EvToken now n1 n2 r, x)"
  shows "\<exists>now1 now2 rnd q u f g.
    (EvAuthorize now1 now2 rnd q, OutAuth (Found u)) \<in> set pre \<and> random_token rnd = c \<and>
    form q = Some g \<and> g ''password'' = password \<and> now \<le> now2 + 10 * minute \<and>
    form r = Some f \<and> f ''redirect_uri'' = query_get (parse_query (raw_query q)) ''redirect_uri''"
proof -
  have "code_origin (new_oauth cid csecret password secret) []"
    by (simp add: code_origin_def new_oauth_def)
  then obtain s1 s2 where step: "oauth_step url_parse s1 (EvToken now n1 n2 r) = (x, s2)"
    and orig: "code_origin s1 pre" and pw: "user_password s1 = password"
    using code_origin_run [OF assms(1)] by (fastforce simp del: oauth_step.simps simp: new_oauth_def)
  obtain y where h: "token_handler s1 now n1 n2 r = (y, s2)" "x = OutToken y"
    using step by (auto split: prod.splits)
  from token_handler_codes(2) [OF h(1)] assms(2) h(2) obtain e f where
    e: "codes s1 c = Some e" "now \<le> entry_expires e" "form r = Some f" "f ''redirect_uri'' = entry_redirect_uri e"
    by blast
  from orig e(1) pw obtain ev where ev: "ev \<in> set pre" "grant_of password e c ev"
    unfolding code_origin_def by blast
  from grant_ofD [OF ev(2)] obtain now1 now2 rnd q u g where
    g: "ev = (EvAuthorize now1 now2 rnd q, OutAuth (Found u))" "random_token rnd = c"
      "entry_expires e = now2 + code_ttl" "form q = Some g" "g ''password'' = password"
      "entry_redirect_uri e = query_get (parse_query (raw_query q)) ''redirect_uri''"
    by blast
  show ?thesis
    by (rule exI [of _ now1], rule exI [of _ now2], rule exI [of _ rnd], rule exI [of _ q],
        rule exI [of _ u], rule exI [of _ f], rule exI [of _ g])
      (use ev(1) e g in \<open>simp add: code_ttl_def\<close>)
qed

theorem code_redemption_sound_witness:
  "redeemed (random_token [7]) (last (fst (oauth_run ex_parse ex_server ex_link))) \<and>
   (\<exists>now1 now2 rnd q u f g.
    (EvAuthorize now1 now2 rnd q, OutAuth (Found u)) \<in> set (butlast (fst (oauth_run ex_parse ex_server ex_link))) \<and>
    random_token rnd = random_token [7] \<and> form q = Some g \<and> g ''password'' = ''open'' \<and>
    6 \<le> now2 + 10 * minute \<and> form ex_exchange = Some f \<and>
    f ''redirect_uri'' = query_get (parse_query (raw_query q)) ''redirect_uri'')"
proof -
  define a where "a = (EvAuthorize 4 5 [7] (ex_request ''open''),
    OutAuth (Found (ex_url\<lparr>u_query := [(''code'', random_token [7])]\<rparr>)))"
  define x where "x = OutToken (token_json (oauth_token [1] ''a'' (unix (6 + access_token_ttl)) [1])
    (oauth_token [1] ''r'' (unix (6 + refresh_token_ttl)) [2]))"
  have run: "oauth_run ex_parse (new_oauth ''cid'' ''sec'' ''open'' [1]) ex_link =
      ([a] @ (EvToken 6 (Some [1]) (Some [2]) ex_exchange, x) # [], ex_server)"
    using ex_link_run by (simp add: a_def x_def ex_server_def)
  have red: "redeemed (random_token [7]) (EvToken 6 (Some [1]) (Some [2]) ex_exchange, x)"
    by (simp add: x_def token_json_def ex_exchange_def)
  show ?thesis
    using red code_redemption_sound [OF run red] run by (simp add: ex_server_def)
qed

text \<open>
  Round trip of the OAuth tokens. A token \<open>mintToken\<close> makes at \<open>now\<close> for \<open>n\<close> seconds is
  accepted for its kind at a later reading \<open>t\<close> exactly while \<open>t\<close> is at most \<open>n\<close> whole seconds
  later, and never as a token of another kind: a refresh token is no access token.
\<close>

theorem minted_token_lifetime:
  assumes "mint_token secret now nonce kind (n * second) = Some tok" and "sane_clock now"
    and "0 \<le> n" "n < 2 ^ 62" and "CHR ''.'' \<notin> set kind"
  shows "oauth_verify secret t tok kind' \<longleftrightarrow> kind' = kind \<and> unix t \<le> unix now + n"
proof -
  obtain m where m: "tok = oauth_issue secret (kind, m) (unix (now + n * second))" "secret \<noteq> []"
    using assms(1) by (auto simp: mint_token_def oauth_issue_def split: if_splits option.splits)
  have life: "oauth_verify secret t tok kind \<longleftrightarrow> unix t \<le> unix now + n" for t
    using oauth.lifetime [of secret "(kind, m)" now n t] m assms by (simp add: oauth_accepts_verify)
  show ?thesis
    using life [of t] life [of now] oauth_verify_kind [of secret t tok kind' secret now kind] assms(3)
    by auto
qed

theorem minted_token_lifetime_witness:
  "oauth_verify [1] (30 * minute) (oauth_token [1] ''a'' 3600 [2]) ''a'' \<and>
   \<not> oauth_verify [1] (30 * minute) (oauth_token [1] ''a'' 3600 [2]) ''r'' \<and>
   \<not> oauth_verify [1] (61 * minute) (oauth_token [1] ''a'' 3600 [2]) ''a''"
proof -
  have mint: "mint_token [1] 0 (Some [2]) ''a'' (3600 * second) = Some (oauth_token [1] ''a'' 3600 [2])"
    by (simp add: mint_token_def)
  have clock: "sane_clock 0" by (simp add: sane_clock_def)
  have kind: "CHR ''.'' \<notin> set ''a''" by simp
  show ?thesis
    using minted_token_lifetime [OF mint clock _ _ kind, of "30 * minute"]
      minted_token_lifetime [OF mint clock _ _ kind, of "61 * minute"]
    by (simp add: unix_def duration_defs)
qed

text \<open>
  C26: what a valid access token is. \<open>Validate\<close> accepts a string exactly when the server has a
  secret and the string is \<open>a.<exp>.<nonce>.<sig>\<close> with an unexpired decimal \<open>exp\<close> and \<open>sig\<close> the
  encoded HMAC of everything before it; no other string gets through.
\<close>

theorem validate_exactly_signed:
  "validate s now tok \<longleftrightarrow>
    token_secret s \<noteq> [] \<and>
    (\<exists>exp_str nonce exp.
      CHR ''.'' \<notin> set exp_str \<and> CHR ''.'' \<notin> set nonce \<and>
      parse_int64 exp_str = Some exp \<and> unix now \<le> exp \<and>
      tok = (''a.'' @ exp_str @ ''.'' @ nonce) @ ''.'' @
        b64url (hmac_sha256 (token_secret s) (to_bytes (''a.'' @ exp_str @ ''.'' @ nonce))))"
  by (simp add: validate_def oauth_verify_iff token_kind_access_def token_mac_def)

text \<open>
  The consent page is no open redirect. Whatever the URL parser makes of the request, a 302 goes
  only to an https URL whose host is one of Google's two account-linking hosts, only after the right
  password, and carries the code just minted.
\<close>

theorem authorize_redirects_to_google:
  assumes "authorize url_parse s now1 now2 rnd r = (Found u, s')"
  shows "u_scheme u = ''https'' \<and>
    u_hostname u \<in> {''oauth-redirect.googleusercontent.com'',
      ''oauth-redirect-sandbox.googleusercontent.com''} \<and>
    (\<exists>f. form r = Some f \<and> f ''password'' = user_password s) \<and>
    (''code'', random_token rnd) \<in> set (u_query u) \<and> codes s' (random_token rnd) \<noteq> None"
  using assms
  by (cases rule: authorize_cases) (auto simp: valid_redirect_uri_def split: if_splits)

theorem authorize_redirects_to_google_witness:
  "u_scheme (ex_url\<lparr>u_query := [(''code'', random_token [7])]\<rparr>) = ''https'' \<and>
   codes (snd (authorize ex_parse ex_server 4 5 [7] (ex_request ''open''))) (random_token [7]) \<noteq> None"
  using authorize_redirects_to_google [OF ex_granted] by (simp add: ex_granted)

end
