(* ===== verification/WebRtc.thy ===== *)
theory WebRtc
  imports Rtsp
begin

text \<open>
  WebRTC sessions over shared streams, \<open>internal/webrtc/peer.go\<close> with the registry of
  \<open>internal/streams\<close>: \<open>Negotiate\<close> with all its error paths, \<open>Session.Close\<close>, and the runs of both
  under any sequence of offers, closes and registry changes. The pion peer connection is the
  parameter \<open>pion_peer\<close>.
\<close>

section \<open>Sessions\<close>

record session =
  sess_stream :: nat
  sess_closed :: bool

text \<open>The streams by address, the registry of their names, and every session ever created.\<close>

record ('p, 't) media =
  m_streams :: "('p, 't) stream list"
  m_reg :: registry
  m_sessions :: "session list"

definition media0 :: "('p, 't) media" where
  "media0 = \<lparr>m_streams = [], m_reg = [], m_sessions = []\<rparr>"

text \<open>
  The ICE servers of a \<open>Factory\<close>, and what \<open>toPionICE\<close> hands to pion: a credential goes with a user
  name only.
\<close>

record ice_server =
  ice_urls :: "string list"
  ice_username :: string
  ice_credential :: string

definition new_factory :: "ice_server list" where
  "new_factory =
     [\<lparr>ice_urls = [''stun:stun.l.google.com:19302''], ice_username = [], ice_credential = []\<rparr>]"

definition to_pion_ice :: "ice_server list \<Rightarrow> ice_server list" where
  "to_pion_ice xs =
     map (\<lambda>x. if ice_username x \<noteq> [] then x
               else \<lparr>ice_urls = ice_urls x, ice_username = [], ice_credential = []\<rparr>) xs"

text \<open>
  What pion answers, call by call, \<open>Some\<close> an error: \<open>NewPeerConnection\<close>,
  \<open>AddTransceiverFromTrack\<close> for each track, \<open>SetRemoteDescription\<close>, \<open>CreateAnswer\<close>,
  \<open>SetLocalDescription\<close>, the wait for ICE gathering (an error when the request context ends first),
  and the SDP of \<open>LocalDescription\<close>.
\<close>

record 't pion_peer =
  pp_new :: "ice_server list \<Rightarrow> string option"
  pp_add :: "'t \<Rightarrow> string option"
  pp_remote :: "string \<Rightarrow> string option"
  pp_answer :: "string option"
  pp_local :: "string option"
  pp_gather :: "string option"
  pp_final :: "string option"

definition release_at :: "('p, 't) producer_ops \<Rightarrow> nat \<Rightarrow> ('p, 't) media \<Rightarrow> ('p, 't) media" where
  "release_at ops a w = w\<lparr>m_streams := (m_streams w)[a := release_ref ops (m_streams w ! a)]\<rparr>"

text \<open>\<open>Session.Close\<close>: the first call releases the stream, later ones do nothing.\<close>

definition close_session :: "('p, 't) producer_ops \<Rightarrow> nat \<Rightarrow> ('p, 't) media \<Rightarrow> ('p, 't) media" where
  "close_session ops i w =
     (if sess_closed (m_sessions w ! i) then w
      else release_at ops (sess_stream (m_sessions w ! i))
             (w\<lparr>m_sessions := (m_sessions w)[i := (m_sessions w ! i)\<lparr>sess_closed := True\<rparr>]\<rparr>))"

fun add_tracks :: "('t \<Rightarrow> string option) \<Rightarrow> 't list \<Rightarrow> string option" where
  "add_tracks add [] = None"
| "add_tracks add (t # ts) = (case add t of Some e \<Rightarrow> Some e | None \<Rightarrow> add_tracks add ts)"

definition negotiate ::
  "('p, 't) producer_ops \<Rightarrow> 't pion_peer \<Rightarrow> nat \<Rightarrow> string \<Rightarrow> ('p, 't) media
   \<Rightarrow> (string + string) \<times> ('p, 't) media" where
  "negotiate ops pc a sdp w =
     (if sdp = [] then (Inl ''empty offer SDP'', w)
      else case pp_new pc (to_pion_ice new_factory) of Some e \<Rightarrow> (Inl (''new peer: '' @ e), w) | None \<Rightarrow>
      case acquire ops (m_streams w ! a) of (r, s) \<Rightarrow>
      let w1 = w\<lparr>m_streams := (m_streams w)[a := s]\<rparr> in
      case r of Inl e \<Rightarrow> (Inl (''acquire stream: '' @ e), w1) | Inr ts \<Rightarrow>
      case add_tracks (pp_add pc) ts of
        Some e \<Rightarrow> (Inl (''add track: '' @ e), release_at ops a w1)
      | None \<Rightarrow>
      let i = length (m_sessions w1);
          w2 = w1\<lparr>m_sessions := m_sessions w1 @ [\<lparr>sess_stream = a, sess_closed = False\<rparr>]\<rparr>
      in
      case pp_remote pc sdp of Some e \<Rightarrow> (Inl (''set remote: '' @ e), close_session ops i w2) | None \<Rightarrow>
      case pp_answer pc of Some e \<Rightarrow> (Inl (''create answer: '' @ e), close_session ops i w2) | None \<Rightarrow>
      case pp_local pc of Some e \<Rightarrow> (Inl (''set local: '' @ e), close_session ops i w2) | None \<Rightarrow>
      case pp_gather pc of Some e \<Rightarrow> (Inl e, close_session ops i w2) | None \<Rightarrow>
      case pp_final pc of
        None \<Rightarrow> (Inl ''no local description after gather'', close_session ops i w2)
      | Some d \<Rightarrow> (Inr d, w2))"

section \<open>Runs\<close>

text \<open>
  An offer for a registered name, the closing of a session (its peer connection failed or closed),
  a stream registered, a stream removed.
\<close>

datatype ('p, 't) media_event =
    Offer string string "'t pion_peer"
  | CloseSession nat
  | PutStream string 'p
  | DeleteStream string

fun media_step :: "('p, 't) producer_ops \<Rightarrow> ('p, 't) media \<Rightarrow> ('p, 't) media_event \<Rightarrow> ('p, 't) media" where
  "media_step ops w (Offer name sdp pc) =
     (case reg_get name (m_reg w) of None \<Rightarrow> w | Some a \<Rightarrow> snd (negotiate ops pc a sdp w))"
| "media_step ops w (CloseSession i) = (if i < length (m_sessions w) then close_session ops i w else w)"
| "media_step ops w (PutStream name p) =
     w\<lparr>m_streams := m_streams w @ [new_stream name p],
       m_reg := reg_put name (length (m_streams w)) (m_reg w)\<rparr>"
| "media_step ops w (DeleteStream name) = w\<lparr>m_reg := reg_delete name (m_reg w)\<rparr>"

definition media_run :: "('p, 't) producer_ops \<Rightarrow> ('p, 't) media_event list \<Rightarrow> ('p, 't) media" where
  "media_run ops = foldl (media_step ops) media0"

section \<open>Lemmas\<close>

definition open_on :: "session list \<Rightarrow> nat \<Rightarrow> nat" where
  "open_on ss a = length (filter (\<lambda>s. sess_stream s = a \<and> \<not> sess_closed s) ss)"

text \<open>Every stream's count is the number of sessions open on it.\<close>

definition media_ok :: "(('p, 't) stream \<Rightarrow> bool) \<Rightarrow> ('p, 't) media \<Rightarrow> bool" where
  "media_ok good w \<longleftrightarrow>
     (\<forall>a < length (m_streams w). good (m_streams w ! a) \<and>
        refs (m_streams w ! a) = int (open_on (m_sessions w) a)) \<and>
     (\<forall>n a. reg_get n (m_reg w) = Some a \<longrightarrow> a < length (m_streams w)) \<and>
     (\<forall>s \<in> set (m_sessions w). sess_stream s < length (m_streams w))"

lemma open_on_Nil [simp]: "open_on [] a = 0"
  by (simp add: open_on_def)

lemma open_on_snoc [simp]:
  "open_on (ss @ [s]) a = open_on ss a + (if sess_stream s = a \<and> \<not> sess_closed s then 1 else 0)"
  by (simp add: open_on_def)

lemma open_on_Cons:
  "open_on (s # ss) a = (if sess_stream s = a \<and> \<not> sess_closed s then 1 else 0) + open_on ss a"
  by (simp add: open_on_def)

lemma open_on_close:
  "i < length ss \<Longrightarrow> \<not> sess_closed (ss ! i) \<Longrightarrow>
   int (open_on (ss[i := (ss ! i)\<lparr>sess_closed := True\<rparr>]) a) =
     int (open_on ss a) - (if sess_stream (ss ! i) = a then 1 else 0)"
proof (induction ss arbitrary: i)
  case (Cons s ss)
  then show ?case by (cases i) (auto simp: open_on_Cons)
qed simp

text \<open>
  What a property of streams must satisfy to hold in every run: the operations keep it, a release
  only of a reference that is held.
\<close>

locale shared_streams =
  fixes ops :: "('p, 't) producer_ops"
    and good :: "('p, 't) stream \<Rightarrow> bool"
    and fresh :: "'p \<Rightarrow> bool"
  assumes good_new: "fresh p \<Longrightarrow> good (new_stream n p)"
    and good_acquire: "good s \<Longrightarrow> acquire ops s = (r, s') \<Longrightarrow> good s'"
    and good_release: "good s \<Longrightarrow> 0 < refs s \<Longrightarrow> good (release_ref ops s)"
begin

lemma close_ok:
  assumes "media_ok good w" and "i < length (m_sessions w)"
  shows "media_ok good (close_session ops i w)"
proof (cases "sess_closed (m_sessions w ! i)")
  case False
  let ?s = "m_sessions w ! i"
  have a: "sess_stream ?s < length (m_streams w)"
    using assms unfolding media_ok_def by simp
  have "0 < open_on (m_sessions w) (sess_stream ?s)"
    using assms(2) False by (auto simp: open_on_def filter_empty_conv intro!: bexI [of _ ?s])
  then have "0 < refs (m_streams w ! sess_stream ?s)"
    using assms(1) a unfolding media_ok_def by simp
  then have "good (release_ref ops (m_streams w ! sess_stream ?s))"
    using assms(1) a good_release unfolding media_ok_def by simp
  moreover have "\<forall>s \<in> set ((m_sessions w)[i := ?s\<lparr>sess_closed := True\<rparr>]). sess_stream s < length (m_streams w)"
    using assms(1) a set_update_subset_insert [of "m_sessions w" i "?s\<lparr>sess_closed := True\<rparr>"]
    unfolding media_ok_def by fastforce
  ultimately show ?thesis
    using assms False
    by (auto simp: media_ok_def close_session_def release_at_def nth_list_update open_on_close)
qed (simp add: assms close_session_def)

lemma negotiate_ok:
  assumes "media_ok good w" and "a < length (m_streams w)"
  shows "media_ok good (snd (negotiate ops pc a sdp w))"
proof -
  obtain r s where acq: "acquire ops (m_streams w ! a) = (r, s)" by fastforce
  have g: "good s"
    using assms good_acquire [OF _ acq] unfolding media_ok_def by simp
  have r: "refs s = (case r of Inl _ \<Rightarrow> refs (m_streams w ! a) | Inr _ \<Rightarrow> refs (m_streams w ! a) + 1)"
    using acquire_refs [OF acq] by simp
  have ra: "refs (m_streams w ! a) = int (open_on (m_sessions w) a)"
    using assms unfolding media_ok_def by simp
  define w1 where "w1 = w\<lparr>m_streams := (m_streams w)[a := s]\<rparr>"
  define w2 where "w2 = w1\<lparr>m_sessions := m_sessions w1 @ [\<lparr>sess_stream = a, sess_closed = False\<rparr>]\<rparr>"
  show ?thesis
  proof (cases r)
    case (Inl e)
    then have "media_ok good w1"
      using assms g r by (auto simp: media_ok_def w1_def nth_list_update)
    then show ?thesis
      using assms Inl acq by (auto simp: negotiate_def Let_def w1_def split: option.splits)
  next
    case (Inr ts)
    have 1: "media_ok good w2"
      using assms g r Inr ra by (auto simp: media_ok_def w1_def w2_def nth_list_update)
    have "good (release_ref ops s)"
      using good_release [OF g] r Inr ra by simp
    then have 2: "media_ok good (release_at ops a w1)"
      using assms r Inr ra by (auto simp: media_ok_def w1_def release_at_def nth_list_update)
    have "media_ok good (close_session ops (length (m_sessions w1)) w2)"
      by (rule close_ok [OF 1]) (simp add: w2_def)
    with 1 2 show ?thesis
      using assms(1) Inr acq
      by (auto simp: negotiate_def Let_def simp flip: w1_def w2_def split: option.splits)
  qed
qed

lemma step_ok:
  assumes "media_ok good w" and "\<And>n p. e = PutStream n p \<Longrightarrow> fresh p"
  shows "media_ok good (media_step ops w e)"
proof (cases e)
  case (Offer n sdp pc)
  then show ?thesis
    using assms(1) negotiate_ok [OF assms(1)]
    by (auto simp: media_ok_def split: option.splits)
next
  case (CloseSession i)
  then show ?thesis using close_ok [OF assms(1)] assms(1) by simp
next
  case (PutStream n p)
  have "open_on (m_sessions w) (length (m_streams w)) = 0"
    using assms(1) by (auto simp: media_ok_def open_on_def filter_empty_conv)
  then show ?thesis
    using assms PutStream good_new [of p n]
    by (auto simp: media_ok_def nth_append less_Suc_eq new_stream_def split: if_splits)
next
  case (DeleteStream n)
  then show ?thesis using assms(1) by (auto simp: media_ok_def split: if_splits)
qed

lemma run_ok:
  assumes "\<forall>n p. PutStream n p \<in> set es \<longrightarrow> fresh p"
  shows "media_ok good (media_run ops es)"
  using assms
proof (induction es rule: rev_induct)
  case Nil
  then show ?case by (simp add: media_run_def media0_def media_ok_def reg_get_def)
next
  case (snoc e es)
  then show ?case
    using step_ok [of "media_run ops es" e] by (auto simp: media_run_def)
qed

end

interpretation counted: shared_streams ops stream_ok "\<lambda>_. True" for ops
  by unfold_locales (auto intro: inv_intro)

sublocale producer_contract \<subseteq> contract: shared_streams ops upstream_ok "\<lambda>p. valid p \<and> \<not> alive p"
  by unfold_locales (auto intro: upstream_new upstream_acquire upstream_release)

section \<open>Properties\<close>

text \<open>
  In every run, a stream's reference count is the number of WebRTC sessions open on it, however
  offers fail and however often a session is closed; so the upstream runs exactly while somebody
  watches, and a stream that a registry change has replaced lives on for its own sessions only.
\<close>

theorem refs_count_open_sessions:
  "list_all (\<lambda>a. refs (m_streams (media_run ops es) ! a) = int (open_on (m_sessions (media_run ops es)) a) \<and>
      (started (m_streams (media_run ops es) ! a) \<longleftrightarrow> open_on (m_sessions (media_run ops es)) a \<noteq> 0))
    [0 ..< length (m_streams (media_run ops es))]"
  using counted.run_ok [of es ops] by (auto simp: list_all_iff media_ok_def stream_ok_def)

text \<open>
  With the RTSP producer, the camera is dialed exactly while a session is open: in every run over
  producers that start out idle, a stream's producer holds a client if and only if some session is
  open on that stream.
\<close>

theorem camera_dialed_while_watched:
  assumes "\<forall>n p. PutStream n p \<in> set es \<longrightarrow> rtsp_valid p \<and> p_client p = None"
    and "w = media_run (rtsp_ops env) es" and "a < length (m_streams w)"
  shows "p_client (producer (m_streams w ! a)) \<noteq> None \<longleftrightarrow> open_on (m_sessions w) a \<noteq> 0"
  using rtsp.contract.run_ok [of es env] assms
  by (auto simp: media_ok_def rtsp.upstream_ok_def rtsp_alive_def stream_ok_def)

definition ex_pc :: "string option \<Rightarrow> string pion_peer" where
  "ex_pc gather =
     \<lparr>pp_new = (\<lambda>_. None), pp_add = (\<lambda>_. None), pp_remote = (\<lambda>_. None), pp_answer = None, pp_local = None,
      pp_gather = gather, pp_final = Some ''v=0''\<rparr>"

definition ex_media_events :: "(rtsp_producer, string) media_event list" where
  "ex_media_events =
     [PutStream ''cam'' (new_producer ''cam'' ''rtsps://h:7441/a'' False),
      Offer ''cam'' ''v=0'' (ex_pc None), Offer ''cam'' ''v=0'' (ex_pc (Some ''context canceled'')),
      PutStream ''cam'' (new_producer ''cam'' ''rtsps://h:7441/b'' False)]"

theorem camera_dialed_while_watched_witness:
  "(p_client (producer (m_streams (media_run (rtsp_ops ex_io) ex_media_events) ! 0)) \<noteq> None \<longleftrightarrow>
     open_on (m_sessions (media_run (rtsp_ops ex_io) ex_media_events)) 0 \<noteq> 0) \<and>
   m_sessions (media_run (rtsp_ops ex_io) ex_media_events) =
     [\<lparr>sess_stream = 0, sess_closed = False\<rparr>, \<lparr>sess_stream = 0, sess_closed = True\<rparr>]"
proof
  have "length (m_streams (media_run (rtsp_ops ex_io) ex_media_events)) = 2"
    by (simp add: media_run_def media0_def ex_media_events_def negotiate_def acquire_def rtsp_ops_def
        rtsp_start_def connect_def ex_io_def ex_pc_def new_stream_def new_producer_def Let_def
        close_session_def release_at_def release_ref_def reg_get_def reg_put_def)
  moreover have "\<forall>n p. PutStream n p \<in> set ex_media_events \<longrightarrow> rtsp_valid p \<and> p_client p = None"
    by (auto simp: ex_media_events_def new_producer_def rtsp_valid_def)
  ultimately show "p_client (producer (m_streams (media_run (rtsp_ops ex_io) ex_media_events) ! 0)) \<noteq> None \<longleftrightarrow>
     open_on (m_sessions (media_run (rtsp_ops ex_io) ex_media_events)) 0 \<noteq> 0"
    using camera_dialed_while_watched [OF _ refl] by simp
  show "m_sessions (media_run (rtsp_ops ex_io) ex_media_events) =
     [\<lparr>sess_stream = 0, sess_closed = False\<rparr>, \<lparr>sess_stream = 0, sess_closed = True\<rparr>]"
    by (simp add: media_run_def media0_def ex_media_events_def negotiate_def acquire_def rtsp_ops_def
        rtsp_start_def connect_def ex_io_def ex_pc_def new_stream_def new_producer_def Let_def
        close_session_def release_at_def release_ref_def reg_get_def reg_put_def)
qed

end
