(* ===== verification/Api.thy ===== *)
theory Api
  imports Tokens OAuth WebRtc
begin

text \<open>
  The public endpoints of \<open>internal/api/server.go\<close>: the route table, the bearer check of the
  fulfillment endpoint, and the three stream endpoints that carry HMAC tokens (WebRTC signaling,
  HLS, progressive MP4). A handler that delegates returns \<open>Inr\<close> the forwarded request.
\<close>

section \<open>Routes\<close>

datatype route =
    AuthorizeRoute
  | TokenRoute
  | SmartHomeRoute
  | SignalRoute
  | HlsRoute
  | Mp4Route
  | HealthRoute
  | NoRoute

text \<open>
  \<open>Routes\<close> as \<open>http.ServeMux\<close> matches it on a clean path: a pattern ending in a slash takes the
  subtree, the others one path. The stream routes exist when their servers do.
\<close>

definition route_of :: "bool \<Rightarrow> bool \<Rightarrow> string \<Rightarrow> route" where
  "route_of has_hls has_mp4 p =
     (if p = ''/oauth/authorize'' then AuthorizeRoute
      else if p = ''/oauth/token'' then TokenRoute
      else if p = ''/smarthome'' then SmartHomeRoute
      else if p = ''/webrtc/signal'' then SignalRoute
      else if has_hls \<and> has_prefix p ''/hls/'' then HlsRoute
      else if has_mp4 \<and> has_prefix p ''/mp4/'' then Mp4Route
      else if p = ''/healthz'' then HealthRoute
      else NoRoute)"

section \<open>The bearer check\<close>

definition auth_middleware ::
  "oauth_server \<Rightarrow> instant \<Rightarrow> http_request \<Rightarrow> http_response + http_request" where
  "auth_middleware s now r =
     (let h = header r ''Authorization'' in
      if \<not> has_prefix h ''Bearer '' then Inl (http_error ''missing bearer'' 401)
      else
        let tok = trim_prefix h ''Bearer '' in
        if \<not> validate s now tok then Inl (http_error ''invalid token'' 401)
        else Inr r)"

section \<open>Signaling\<close>

datatype signaling_shape = ShapeTypeSDP | ShapeActionSDP | ShapeOffer

fun shape_string :: "signaling_shape \<Rightarrow> string" where
  "shape_string ShapeActionSDP = ''action+sdp''"
| "shape_string ShapeOffer = ''offer''"
| "shape_string ShapeTypeSDP = ''type+sdp''"

definition extract_offer_sdp :: "jobject \<Rightarrow> string \<times> signaling_shape" where
  "extract_offer_sdp raw =
     (let action_sdp =
        (case get_str raw ''action'' of
           Some v \<Rightarrow>
             if equal_fold v ''offer'' then
               (case get_str raw ''sdp'' of Some sdp \<Rightarrow> if sdp \<noteq> [] then Some sdp else None | None \<Rightarrow> None)
             else None
         | None \<Rightarrow> None)
      in case action_sdp of Some sdp \<Rightarrow> (sdp, ShapeActionSDP) | None \<Rightarrow>
      case (case get_str raw ''offer'' of Some v \<Rightarrow> if v \<noteq> [] then Some v else None | None \<Rightarrow> None) of
        Some v \<Rightarrow> (v, ShapeOffer) | None \<Rightarrow>
      case (case get_str raw ''sdp'' of Some v \<Rightarrow> if v \<noteq> [] then Some v else None | None \<Rightarrow> None) of
        Some sdp \<Rightarrow> (sdp, ShapeTypeSDP) | None \<Rightarrow>
      ([], ShapeTypeSDP))"

fun build_answer :: "signaling_shape \<Rightarrow> string \<Rightarrow> jobject" where
  "build_answer ShapeActionSDP sdp = [(''action'', JStr ''answer''), (''sdp'', JStr sdp)]"
| "build_answer ShapeOffer sdp = [(''answer'', JStr sdp)]"
| "build_answer ShapeTypeSDP sdp = [(''type'', JStr ''answer''), (''sdp'', JStr sdp)]"

fun token_error_string :: "token_error \<Rightarrow> string" where
  "token_error_string BadExp = ''bad exp''"
| "token_error_string TokenExpired = ''token expired''"
| "token_error_string BadSignature = ''bad signature''"

definition unauthorized :: "token_error \<Rightarrow> http_response" where
  "unauthorized e = http_error (''unauthorized: '' @ token_error_string e) 401"

text \<open>
  The handler up to its token check: the camera the request is for, or the response. The CORS headers,
  the same on every path, are left out.
\<close>

definition signal_token :: "bytes \<Rightarrow> instant \<Rightarrow> http_request \<Rightarrow> http_response + string" where
  "signal_token key now r =
     (if req_method r = ''OPTIONS'' then Inl no_content
      else if req_method r \<noteq> ''POST'' then Inl (http_error ''method not allowed'' 405)
      else
        let q = parse_query (raw_query r); cam = query_get q ''cam'' in
        case verify_token key now cam (query_get q ''exp'') (query_get q ''t'') of
          Some e \<Rightarrow> Inl (unauthorized e)
        | None \<Rightarrow> Inr cam)"

text \<open>The offer in the body.\<close>

definition signal_offer :: "http_request \<Rightarrow> http_response + string \<times> signaling_shape" where
  "signal_offer r =
     (case body_json r of None \<Rightarrow> Inl (http_error ''bad offer'' 400) | Some raw \<Rightarrow>
      case extract_offer_sdp raw of (sdp, shape) \<Rightarrow>
      if sdp = [] then Inl (http_error ''bad offer: no sdp'' 400) else Inr (sdp, shape))"

text \<open>Everything in front of the negotiation: the camera's stream and the offer, or the response.\<close>

definition signal_admit ::
  "bytes \<Rightarrow> instant \<Rightarrow> (string \<Rightarrow> nat option) \<Rightarrow> (string \<Rightarrow> bool) option \<Rightarrow> http_request
   \<Rightarrow> http_response + nat \<times> string \<times> signaling_shape" where
  "signal_admit key now registered allowed r =
     (case signal_token key now r of Inl x \<Rightarrow> Inl x | Inr cam \<Rightarrow>
      case (registered cam, case allowed of None \<Rightarrow> True | Some f \<Rightarrow> f cam) of
        (None, _) \<Rightarrow> Inl (http_error ''unknown camera'' 404)
      | (Some a, False) \<Rightarrow> Inl (http_error ''unknown camera'' 404)
      | (Some a, True) \<Rightarrow>
      case signal_offer r of Inl x \<Rightarrow> Inl x | Inr (sdp, shape) \<Rightarrow> Inr (a, sdp, shape))"

definition signal_handler ::
  "('p, 't) producer_ops \<Rightarrow> 't pion_peer \<Rightarrow> bytes \<Rightarrow> instant \<Rightarrow> (string \<Rightarrow> bool) option \<Rightarrow> http_request
   \<Rightarrow> ('p, 't) media \<Rightarrow> http_response \<times> ('p, 't) media" where
  "signal_handler ops pc key now allowed r w =
     (case signal_admit key now (\<lambda>n. reg_get n (m_reg w)) allowed r of
        Inl resp \<Rightarrow> (resp, w)
      | Inr (a, sdp, shape) \<Rightarrow>
          (case negotiate ops pc a sdp w of
             (Inl e, w') \<Rightarrow> (http_error (''negotiate: '' @ e) 500, w')
           | (Inr answer, w') \<Rightarrow> (json_response 200 (build_answer shape answer), w')))"

section \<open>HLS and progressive MP4\<close>

definition hls_handler :: "bytes \<Rightarrow> instant \<Rightarrow> http_request \<Rightarrow> http_response + http_request" where
  "hls_handler key now r =
     (case split_n 4 CHR ''/'' (trim_prefix (path r) ''/hls/'') of
        [cam, exp_str, sig, rest] \<Rightarrow>
          (case verify_token key now cam exp_str sig of
             Some e \<Rightarrow> Inl (unauthorized e)
           | None \<Rightarrow> Inr (r\<lparr>path := ''/'' @ cam @ ''/'' @ rest\<rparr>))
      | _ \<Rightarrow> Inl (http_error ''bad hls path'' 400))"

definition mp4_handler :: "bytes \<Rightarrow> instant \<Rightarrow> http_request \<Rightarrow> http_response + http_request" where
  "mp4_handler key now r =
     (if req_method r \<noteq> ''GET'' \<and> req_method r \<noteq> ''HEAD'' then Inl (http_error ''method not allowed'' 405)
      else case split_n 2 CHR ''/'' (trim_prefix (path r) ''/mp4/'') of
        [cam, rest] \<Rightarrow>
          (let hdr = header r ''Authorization''; tok = trim_prefix hdr ''Bearer '' in
           if tok = hdr \<or> tok = [] then Inl (http_error ''missing bearer'' 401)
           else
             let dot = index_byte tok CHR ''.'' in
             if dot \<le> 0 then Inl (http_error ''bad token'' 401)
             else
               let exp_str = take (nat dot) tok; sig = drop (nat dot + 1) tok in
               case verify_token key now cam exp_str sig of
                 Some e \<Rightarrow> Inl (unauthorized e)
               | None \<Rightarrow> Inr (r\<lparr>path := ''/'' @ cam @ ''/'' @ rest\<rparr>))
      | _ \<Rightarrow> Inl (http_error ''bad mp4 path'' 400))"

section \<open>Lemmas\<close>

lemma status_unauthorized [simp]: "status (unauthorized e) = 401"
  by (simp add: unauthorized_def)

text \<open>The token checks alone: which camera a request is for, and whether its token is refused.\<close>

definition signal_auth :: "bytes \<Rightarrow> instant \<Rightarrow> http_request \<Rightarrow> string \<times> token_error option" where
  "signal_auth key now r =
     (let q = parse_query (raw_query r); cam = query_get q ''cam''
      in (cam, verify_token key now cam (query_get q ''exp'') (query_get q ''t'')))"

lemma signal_token_auth:
  "signal_token key now r = Inr cam \<longleftrightarrow> req_method r = ''POST'' \<and> signal_auth key now r = (cam, None)"
  by (auto simp: signal_token_def signal_auth_def Let_def split: option.splits)

lemma signal_admit_auth:
  "signal_admit key now registered allowed r = Inr (a, sdp, shape) \<Longrightarrow>
   req_method r = ''POST'' \<and>
   (\<exists>cam. signal_auth key now r = (cam, None) \<and> registered cam = Some a \<and>
      (\<forall>f. allowed = Some f \<longrightarrow> f cam)) \<and>
   (\<exists>raw. body_json r = Some raw \<and> extract_offer_sdp raw = (sdp, shape)) \<and> sdp \<noteq> []"
  by (auto simp: signal_admit_def signal_token_def signal_offer_def signal_auth_def Let_def
      split: if_splits option.splits prod.splits sum.splits bool.splits)

lemma hls_handler_Inr:
  "hls_handler key now r = Inr r' \<longleftrightarrow>
   (\<exists>cam e rest exp. trim_prefix (path r) ''/hls/'' = cam @ ''/'' @ e @ ''/'' @ sign_token key cam exp @ ''/'' @ rest \<and>
      CHR ''/'' \<notin> set cam \<and> CHR ''/'' \<notin> set e \<and> parse_int64 e = Some exp \<and> unix now \<le> exp \<and>
      r' = r\<lparr>path := ''/'' @ cam @ ''/'' @ rest\<rparr>)"
proof
  assume "hls_handler key now r = Inr r'"
  then obtain cam e sig rest where p: "split_n 4 CHR ''/'' (trim_prefix (path r) ''/hls/'') = [cam, e, sig, rest]"
    and v: "verify_token key now cam e sig = None" and r': "r' = r\<lparr>path := ''/'' @ cam @ ''/'' @ rest\<rparr>"
    by (auto simp: hls_handler_def split: list.splits option.splits)
  from v obtain exp where "parse_int64 e = Some exp" "unix now \<le> exp" "sig = sign_token key cam exp"
    by (auto simp: verify_token_ok)
  then show "\<exists>cam e rest exp. trim_prefix (path r) ''/hls/'' = cam @ ''/'' @ e @ ''/'' @ sign_token key cam exp @ ''/'' @ rest \<and>
      CHR ''/'' \<notin> set cam \<and> CHR ''/'' \<notin> set e \<and> parse_int64 e = Some exp \<and> unix now \<le> exp \<and>
      r' = r\<lparr>path := ''/'' @ cam @ ''/'' @ rest\<rparr>"
    using p r' unfolding split_n_4 by (intro exI [of _ cam] exI [of _ e] exI [of _ rest] exI [of _ exp]) simp
next
  assume "\<exists>cam e rest exp. trim_prefix (path r) ''/hls/'' = cam @ ''/'' @ e @ ''/'' @ sign_token key cam exp @ ''/'' @ rest \<and>
      CHR ''/'' \<notin> set cam \<and> CHR ''/'' \<notin> set e \<and> parse_int64 e = Some exp \<and> unix now \<le> exp \<and>
      r' = r\<lparr>path := ''/'' @ cam @ ''/'' @ rest\<rparr>"
  then show "hls_handler key now r = Inr r'"
    by (auto simp: hls_handler_def split_n_4_append)
qed

lemma mp4_handler_Inr:
  "mp4_handler key now r = Inr r' \<longleftrightarrow>
   (req_method r = ''GET'' \<or> req_method r = ''HEAD'') \<and>
   (\<exists>cam e rest exp. trim_prefix (path r) ''/mp4/'' = cam @ ''/'' @ rest \<and> CHR ''/'' \<notin> set cam \<and>
      header r ''Authorization'' = ''Bearer '' @ e @ ''.'' @ sign_token key cam exp \<and>
      CHR ''.'' \<notin> set e \<and> parse_int64 e = Some exp \<and> unix now \<le> exp \<and>
      r' = r\<lparr>path := ''/'' @ cam @ ''/'' @ rest\<rparr>)" (is "?l \<longleftrightarrow> ?m \<and> ?r")
proof
  assume ?l
  let ?h = "header r ''Authorization''"
  let ?tok = "trim_prefix ?h ''Bearer ''"
  let ?dot = "index_byte ?tok CHR ''.''"
  from \<open>?l\<close> obtain cam rest where m: ?m
    and p: "split_n 2 CHR ''/'' (trim_prefix (path r) ''/mp4/'') = [cam, rest]"
    and t: "?tok \<noteq> ?h" and d: "?dot > 0"
    and v: "verify_token key now cam (take (nat ?dot) ?tok) (drop (nat ?dot + 1) ?tok) = None"
    and r': "r' = r\<lparr>path := ''/'' @ cam @ ''/'' @ rest\<rparr>"
    by (auto simp: mp4_handler_def Let_def split: list.splits option.splits if_splits)
  have h: "?h = ''Bearer '' @ ?tok" by (rule trim_prefix_changed [OF t])
  have s: "?tok = take (nat ?dot) ?tok @ CHR ''.'' # drop (Suc (nat ?dot)) ?tok \<and> CHR ''.'' \<notin> set (take (nat ?dot) ?tok)"
    by (rule index_byte_split) (use d in simp)
  from v obtain exp where "parse_int64 (take (nat ?dot) ?tok) = Some exp" "unix now \<le> exp"
    "drop (Suc (nat ?dot)) ?tok = sign_token key cam exp"
    by (auto simp: verify_token_ok)
  then show "?m \<and> ?r"
    using m p r' h s unfolding split_n_2
    by (intro conjI exI [of _ cam] exI [of _ "take (nat ?dot) ?tok"] exI [of _ rest] exI [of _ exp]) auto
next
  assume "?m \<and> ?r"
  then obtain cam e rest exp where *: ?m "trim_prefix (path r) ''/mp4/'' = cam @ ''/'' @ rest" "CHR ''/'' \<notin> set cam"
      "header r ''Authorization'' = ''Bearer '' @ e @ ''.'' @ sign_token key cam exp"
      "CHR ''.'' \<notin> set e" "parse_int64 e = Some exp" "unix now \<le> exp"
      "r' = r\<lparr>path := ''/'' @ cam @ ''/'' @ rest\<rparr>" by blast
  have "e \<noteq> []" using *(6) by (auto simp: parse_int64_def parse_digits_def)
  then have "index_byte (e @ CHR ''.'' # sign_token key cam exp) CHR ''.'' > 0"
    using *(5) by simp
  moreover have "trim_prefix (header r ''Authorization'') ''Bearer '' = e @ CHR ''.'' # sign_token key cam exp"
    using *(4) trim_prefix_append [of "''Bearer ''"] by simp
  ultimately show ?l
    using * by (auto simp: mp4_handler_def Let_def split_n_2_append)
qed

text \<open>The query of a signaling URL parses back into its three values.\<close>

lemma signaling_query:
  assumes "query_safe cam"
  shows "parse_query (''cam='' @ cam @ ''&exp='' @ format_int e @ ''&t='' @ sign_token key c e) =
    [(''cam'', cam), (''exp'', format_int e), (''t'', sign_token key c e)]"
  using parse_query_three [of "''cam''" cam "''exp''" "format_int e" "''t''" "sign_token key c e"] assms
  by (simp add: query_safe_def [of "''cam''"] query_safe_def [of "''exp''"] query_safe_def [of "''t''"])

lemma bearer_checked:
  "auth_middleware s now r = Inr r' \<longleftrightarrow>
   r' = r \<and> (\<exists>tok. header r ''Authorization'' = ''Bearer '' @ tok \<and> validate s now tok)"
proof -
  have "has_prefix h ''Bearer '' \<and> validate s now (trim_prefix h ''Bearer '') \<longleftrightarrow>
      (\<exists>tok. h = ''Bearer '' @ tok \<and> validate s now tok)" for h
    using has_prefix_split [of h "''Bearer ''"] has_prefix_append [of "''Bearer ''"]
      trim_prefix_append [of "''Bearer ''"] by metis
  then show ?thesis by (auto simp: auth_middleware_def Let_def)
qed

section \<open>Properties\<close>

text \<open>
  The fulfillment endpoint is reached by exactly the requests whose \<open>Authorization\<close> header is
  \<open>Bearer\<close> and a token that \<open>OAuth.Validate\<close> takes at that moment, and it sees the request unchanged.
\<close>

theorem smarthome_needs_token:
  "auth_middleware s now r = Inr r' \<longleftrightarrow>
   r' = r \<and> (\<exists>tok. header r ''Authorization'' = ''Bearer '' @ tok \<and> validate s now tok)"
  by (rule bearer_checked)

text \<open>
  A stream token opens only the camera it was signed for, only until its expiry: if a token made
  for one camera and expiry is taken with another camera or expiry, then two different messages
  with the same HMAC are at hand.
\<close>

theorem stream_token_bound_to_camera:
  assumes "verify_token key now cam exp_str (sign_token key cam' exp') = None"
  shows "cam = cam' \<and> parse_int64 exp_str = Some exp' \<and> unix now \<le> exp' \<or>
    (\<exists>m m'. m \<noteq> m' \<and> hmac_sha256 key m = hmac_sha256 key m')"
proof -
  from assms obtain exp where e: "parse_int64 exp_str = Some exp" "unix now \<le> exp"
    and eq: "sign_token key cam' exp' = sign_token key cam exp" by (auto simp: verify_token_ok)
  show ?thesis
  proof (cases "sign_payload cam exp = sign_payload cam' exp'")
    case True
    then show ?thesis using e by (simp add: sign_payload_inject)
  next
    case False
    then have "to_bytes (sign_payload cam' exp') \<noteq> to_bytes (sign_payload cam exp)" by simp
    then show ?thesis using eq unfolding sign_token_eq by blast
  qed
qed

theorem stream_token_bound_to_camera_witness:
  "parse_int64 ''3720'' = Some 3720 \<and> unix 0 \<le> 3720 \<or>
    (\<exists>m m'. m \<noteq> m' \<and> hmac_sha256 [1] m = hmac_sha256 [1] m')"
proof -
  have "parse_int64 ''3720'' = Some 3720" by code_simp
  then have "verify_token [1] 0 ''cam'' ''3720'' (sign_token [1] ''cam'' 3720) = None"
    by (simp add: unix_def)
  from stream_token_bound_to_camera [OF this] show ?thesis by simp
qed

lemma hls_url_served:
  assumes "CHR ''/'' \<notin> set cam" and "sane_clock now"
  shows "\<exists>dir. hls_url base key now cam = trim_right base CHR ''/'' @ ''/hls/'' @ dir @ ''index.m3u8'' \<and>
    (\<forall>fname. hls_handler key t (r\<lparr>path := ''/hls/'' @ dir @ fname\<rparr>) =
       (if unix t \<le> unix now + 3600 then Inr (r\<lparr>path := ''/'' @ cam @ ''/'' @ fname\<rparr>)
        else Inl (unauthorized TokenExpired)))"
proof -
  define e where "e = unix now + 3600"
  have e: "unix (now + 1 * hour) = e"
    using unix_add_seconds [of now 3600] by (simp add: e_def hour_def minute_def)
  have i: "int64 e" unfolding e_def using sane_clock_unix [OF assms(2), of 3600] by simp
  let ?dir = "cam @ ''/'' @ format_int e @ ''/'' @ sign_token key cam e @ ''/''"
  have "hls_handler key t (r\<lparr>path := ''/hls/'' @ ?dir @ fname\<rparr>) =
       (if unix t \<le> e then Inr (r\<lparr>path := ''/'' @ cam @ ''/'' @ fname\<rparr>)
        else Inl (unauthorized TokenExpired))" for fname
  proof -
    have "trim_prefix (''/hls/'' @ ?dir @ fname) ''/hls/'' =
        cam @ CHR ''/'' # format_int e @ CHR ''/'' # sign_token key cam e @ CHR ''/'' # fname"
      using trim_prefix_append [of "''/hls/''" "?dir @ fname"] by simp
    then show ?thesis
      using assms(1) i verify_token_issued [OF i, of key t cam] verify_token_expired [OF i, of t key cam]
      by (auto simp: hls_handler_def split_n_4_append)
  qed
  then show ?thesis
    unfolding e_def [symmetric] by (intro exI [of _ ?dir]) (simp add: hls_url_def Let_def e [simplified])
qed

text \<open>
  The HLS URL works as long as it should. With the playlist URL issued for a camera, the
  playlist and every other file under the same directory reach the HLS server as \<open>/cam/file\<close> until
  an hour after it was issued, and are refused as expired after that.
\<close>

theorem hls_url_served_for_an_hour:
  assumes "CHR ''/'' \<notin> set cam" and "sane_clock now"
  shows "\<exists>dir. hls_url base key now cam = trim_right base CHR ''/'' @ ''/hls/'' @ dir @ ''index.m3u8'' \<and>
    (\<forall>fname. hls_handler key t (r\<lparr>path := ''/hls/'' @ dir @ fname\<rparr>) =
       (if unix t \<le> unix now + 3600 then Inr (r\<lparr>path := ''/'' @ cam @ ''/'' @ fname\<rparr>)
        else Inl (unauthorized TokenExpired)))"
  by (rule hls_url_served [OF assms])

definition ex_get :: "string \<Rightarrow> http_request" where
  "ex_get auth =
     \<lparr>req_method = ''GET'', path = ''/mp4/c/stream.mp4'', raw_query = [],
      header = (\<lambda>k. if k = ''Authorization'' then auth else []), remote_addr = ''10.0.0.7:1'',
      basic_auth = None, form = None, body_json = None\<rparr>"

theorem hls_url_served_for_an_hour_witness:
  "\<exists>dir. hls_url ''https://x/'' [1] 0 ''c'' = ''https://x'' @ ''/hls/'' @ dir @ ''index.m3u8'' \<and>
    hls_handler [1] 0 ((ex_get [])\<lparr>path := ''/hls/'' @ dir @ ''seg0.ts''\<rparr>) =
      Inr ((ex_get [])\<lparr>path := ''/c/seg0.ts''\<rparr>)"
proof -
  have "trim_right ''https://x/'' CHR ''/'' = ''https://x''" by code_simp
  with hls_url_served_for_an_hour [of "''c''" 0 "''https://x/''" "[1]" 0 "ex_get []"] show ?thesis
    by (auto simp: sane_clock_def unix_def)
qed

text \<open>
  The progressive MP4 URL and its bearer token work as long as they should: a GET of the URL's
  path with the token reaches the MP4 server as \<open>/cam/stream.mp4\<close> until an hour after they were
  issued, and is refused as expired after that.
\<close>

theorem mp4_token_served_for_an_hour:
  assumes "CHR ''/'' \<notin> set cam" and "sane_clock now"
    and "progressive_mp4_url base key now cam = (url, tok)"
    and "req_method r = ''GET''" and "path r = ''/mp4/'' @ cam @ ''/stream.mp4''"
    and "header r ''Authorization'' = ''Bearer '' @ tok"
  shows "url = trim_right base CHR ''/'' @ path r \<and>
    mp4_handler key t r =
      (if unix t \<le> unix now + 3600 then Inr (r\<lparr>path := ''/'' @ cam @ ''/stream.mp4''\<rparr>)
       else Inl (unauthorized TokenExpired))"
proof -
  define e where "e = unix now + 3600"
  have e: "unix (now + 1 * hour) = e"
    using unix_add_seconds [of now 3600] by (simp add: e_def hour_def minute_def)
  have i: "int64 e" unfolding e_def using sane_clock_unix [OF assms(2), of 3600] by simp
  have ut: "url = trim_right base CHR ''/'' @ ''/mp4/'' @ cam @ ''/stream.mp4''"
    "tok = format_int e @ CHR ''.'' # sign_token key cam e"
    using assms(3) by (auto simp: progressive_mp4_url_def Let_def e [simplified])
  have p: "trim_prefix (path r) ''/mp4/'' = cam @ CHR ''/'' # ''stream.mp4''"
    using trim_prefix_append [of "''/mp4/''"] by (simp add: assms(5))
  have h: "trim_prefix (header r ''Authorization'') ''Bearer '' = tok" "tok \<noteq> header r ''Authorization''"
    using trim_prefix_append [of "''Bearer ''"] by (simp_all add: assms(6))
  have d: "index_byte tok CHR ''.'' = int (length (format_int e))" by (simp add: ut)
  show ?thesis
    using assms(1,4,5) p h d i verify_token_issued [OF i, of key t cam] verify_token_expired [OF i, of t key cam]
    unfolding e_def [symmetric]
    by (auto simp: mp4_handler_def Let_def split_n_2_append ut)
qed

theorem mp4_token_served_for_an_hour_witness:
  "fst (progressive_mp4_url ''https://x/'' [1] 0 ''c'') = ''https://x/mp4/c/stream.mp4'' \<and>
   mp4_handler [1] 0 (ex_get (''Bearer '' @ snd (progressive_mp4_url ''https://x/'' [1] 0 ''c''))) =
     Inr ((ex_get (''Bearer '' @ snd (progressive_mp4_url ''https://x/'' [1] 0 ''c'')))\<lparr>path := ''/c/stream.mp4''\<rparr>)"
proof -
  have "trim_right ''https://x/'' CHR ''/'' = ''https://x''" by code_simp
  with mp4_token_served_for_an_hour [of "''c''" 0 "''https://x/''" "[1]", OF _ _ prod.collapse [symmetric],
      of "ex_get (''Bearer '' @ snd (progressive_mp4_url ''https://x/'' [1] 0 ''c''))" 0]
  show ?thesis by (auto simp: sane_clock_def unix_def ex_get_def)
qed

text \<open>
  The signaling URL works for two minutes: a request with the query of the URL issued for a
  camera is one for that camera, with a token that is taken until two minutes after it was issued.
\<close>

theorem signaling_url_valid_two_minutes:
  assumes "query_safe cam" and "sane_clock now"
    and "signaling_url base key now cam = trim_right base CHR ''/'' @ ''/webrtc/signal?'' @ raw_query r"
  shows "signal_auth key t r = (cam, if unix t \<le> unix now + 120 then None else Some TokenExpired)"
proof -
  define e where "e = unix now + 120"
  have e: "unix (now + 2 * minute) = e"
    using unix_add_seconds [of now 120] by (simp add: e_def minute_def)
  have i: "int64 e" unfolding e_def using sane_clock_unix [OF assms(2), of 120] by simp
  have "raw_query r = ''cam='' @ cam @ ''&exp='' @ format_int e @ ''&t='' @ sign_token key cam e"
    using assms(3) by (simp add: signaling_url_def Let_def e)
  then have "parse_query (raw_query r) = [(''cam'', cam), (''exp'', format_int e), (''t'', sign_token key cam e)]"
    using signaling_query [OF assms(1)] by simp
  then show ?thesis
    using verify_token_issued [OF i, of key t cam] verify_token_expired [OF i, of t key cam]
    unfolding e_def [symmetric] by (auto simp: signal_auth_def Let_def query_get_def)
qed

theorem signaling_url_valid_two_minutes_witness:
  "signal_auth [1] (100 * second) ((ex_get [])\<lparr>raw_query := drop (length ''https://x/webrtc/signal?'')
     (signaling_url ''https://x/'' [1] 0 ''c'')\<rparr>) = (''c'', None)"
proof -
  have "trim_right ''https://x/'' CHR ''/'' = ''https://x''" by code_simp
  then show ?thesis
    using signaling_url_valid_two_minutes [of "''c''" 0 "''https://x/''" "[1]"
      "(ex_get [])\<lparr>raw_query := drop (length ''https://x/webrtc/signal?'')
         (signaling_url ''https://x/'' [1] 0 ''c'')\<rparr>" "100 * second"]
    by (simp add: query_safe_def sane_clock_def signaling_url_def Let_def unix_def second_def)
qed

text \<open>
  C9: nobody starts a session without the right to: a signaling request that changes anything, or is
  answered with an SDP, is a POST for a registered camera that is exposed at that moment, with a
  token signed for that camera that has not expired, and with a non-empty offer.
\<close>

theorem signaling_gate:
  assumes "signal_handler ops pc key now allowed r w = (resp, w')" and "w' \<noteq> w \<or> status resp = 200"
  shows "\<exists>cam exp a raw. req_method r = ''POST'' \<and>
    query_get (parse_query (raw_query r)) ''cam'' = cam \<and>
    query_get (parse_query (raw_query r)) ''t'' = sign_token key cam exp \<and>
    parse_int64 (query_get (parse_query (raw_query r)) ''exp'') = Some exp \<and> unix now \<le> exp \<and>
    reg_get cam (m_reg w) = Some a \<and> (allowed = None \<or> (\<exists>f. allowed = Some f \<and> f cam)) \<and>
    body_json r = Some raw \<and> fst (extract_offer_sdp raw) \<noteq> []"
proof (cases "signal_admit key now (\<lambda>n. reg_get n (m_reg w)) allowed r")
  case (Inl e)
  then have "resp = e \<and> w' = w" using assms(1) by (simp add: signal_handler_def)
  moreover have "status e \<noteq> 200"
    using Inl by (auto simp: signal_admit_def signal_token_def signal_offer_def Let_def
      split: if_splits option.splits prod.splits sum.splits bool.splits)
  ultimately show ?thesis using assms(2) by simp
next
  case (Inr x)
  obtain a sdp shape where x: "x = (a, sdp, shape)" by (cases x)
  note adm = signal_admit_auth [OF Inr [unfolded x]]
  then obtain cam raw where *: "req_method r = ''POST''" "signal_auth key now r = (cam, None)" "reg_get cam (m_reg w) = Some a"
      "\<forall>f. allowed = Some f \<longrightarrow> f cam" "body_json r = Some raw" "extract_offer_sdp raw = (sdp, shape)" "sdp \<noteq> []"
    by (elim conjE exE) (rule that)
  from *(2) obtain exp where "parse_int64 (query_get (parse_query (raw_query r)) ''exp'') = Some exp"
    "unix now \<le> exp" "query_get (parse_query (raw_query r)) ''t'' = sign_token key cam exp"
    "query_get (parse_query (raw_query r)) ''cam'' = cam"
    by (auto simp: signal_auth_def Let_def verify_token_ok)
  moreover have "allowed = None \<or> (\<exists>f. allowed = Some f \<and> f cam)"
    using *(4) by (cases allowed) simp_all
  moreover have "fst (extract_offer_sdp raw) \<noteq> []" by (simp add: *)
  ultimately show ?thesis using *(1,3,5) by (intro exI conjI)
qed

definition ex_post :: http_request where
  "ex_post =
     (ex_get [])\<lparr>req_method := ''POST'', path := ''/webrtc/signal'',
       raw_query := ''cam='' @ ''cam'' @ ''&exp='' @ format_int 60 @ ''&t='' @ sign_token [1] ''cam'' 60,
       body_json := Some [(''action'', JStr ''offer''), (''sdp'', JStr ''v=0'')]\<rparr>"

definition ex_media :: "(rtsp_producer, string) media" where
  "ex_media = media_run (rtsp_ops ex_io) [PutStream ''cam'' (new_producer ''cam'' ''rtsps://h:7441/a'' False)]"

lemma ex_post_token: "signal_token [1] 0 ex_post = Inr ''cam''"
proof -
  have q: "parse_query (raw_query ex_post) =
      [(''cam'', ''cam''), (''exp'', format_int 60), (''t'', sign_token [1] ''cam'' 60)]"
    using signaling_query [of "''cam''" 60 "[1]" "''cam''"] by (simp add: ex_post_def query_safe_def)
  have v: "verify_token [1] 0 ''cam'' (format_int 60) (sign_token [1] ''cam'' 60) = None"
    using verify_token_issued [of 60 "[1]" 0 "''cam''"] by (simp add: int64_def unix_def)
  show ?thesis unfolding signal_token_def Let_def q by (simp add: query_get_def v ex_post_def ex_get_def)
qed

lemma ex_post_offer: "signal_offer ex_post = Inr (''v=0'', ShapeActionSDP)"
proof -
  have eq: "equal_fold ''offer'' ''offer''" by code_simp
  show ?thesis by (simp add: signal_offer_def ex_post_def ex_get_def extract_offer_sdp_def get_str_def eq)
qed

lemma ex_post_admitted:
  assumes "registered ''cam'' = Some a" and "\<forall>f. allowed = Some f \<longrightarrow> f ''cam''"
  shows "signal_admit [1] 0 registered allowed ex_post = Inr (a, ''v=0'', ShapeActionSDP)"
  using assms by (cases allowed) (simp_all add: signal_admit_def ex_post_token ex_post_offer)

lemma ex_post_answered:
  "fst (signal_handler (rtsp_ops ex_io) (ex_pc None) [1] 0 None ex_post ex_media) =
     json_response 200 [(''action'', JStr ''answer''), (''sdp'', JStr ''v=0'')]"
proof -
  have "signal_admit [1] 0 (\<lambda>n. reg_get n (m_reg ex_media)) None ex_post = Inr (0, ''v=0'', ShapeActionSDP)"
    by (rule ex_post_admitted) (simp_all add: ex_media_def media_run_def media0_def reg_get_def reg_put_def)
  then show ?thesis
    by (simp add: signal_handler_def ex_media_def media_run_def media0_def negotiate_def acquire_def
        rtsp_ops_def rtsp_start_def connect_def ex_io_def ex_pc_def new_stream_def new_producer_def Let_def)
qed

theorem signaling_gate_witness:
  "\<exists>cam exp. query_get (parse_query (raw_query ex_post)) ''cam'' = cam \<and>
     query_get (parse_query (raw_query ex_post)) ''t'' = sign_token [1] cam exp \<and> 0 \<le> exp \<and>
     reg_get cam (m_reg ex_media) \<noteq> None"
  using signaling_gate [OF prod.collapse [symmetric], of "rtsp_ops ex_io" "ex_pc None" "[1]" 0 None ex_post ex_media]
  unfolding ex_post_answered by (force simp: unix_def)

text \<open>
  An SDP offer is found exactly when the body carries one, in any of the three request styles:
  a non-empty string under \<open>offer\<close> or under \<open>sdp\<close>.
\<close>

theorem offer_found_iff:
  "fst (extract_offer_sdp raw) \<noteq> [] \<longleftrightarrow>
   (\<exists>s. s \<noteq> [] \<and> (get_str raw ''offer'' = Some s \<or> get_str raw ''sdp'' = Some s))"
  by (auto simp: extract_offer_sdp_def Let_def split: option.splits)

end
