(* ===== verification/System.thy ===== *)
theory System
  imports Bridge Api
begin

text \<open>
  The running bridge of \<open>Bridge\<close> together with its WebRTC sessions: the streams the reconciler puts
  into the registry (\<open>syncStream\<close>, \<open>unregisterStream\<close>) are the ones \<open>/webrtc/signal\<close> acquires and
  \<open>Session.Close\<close> releases, with the allow-list of the camera source as the signaling gate
  (\<open>cmd/bridge/main.go\<close>). A signaling request is a handler under way: it has taken the stream out of
  the registry, it has been let through by the allow-list, it has read its body and negotiates, each
  a step of its own, with refreshes, exposure changes and other requests in between.
\<close>

section \<open>The whole\<close>

text \<open>
  A handler of \<open>/webrtc/signal\<close>: the camera asked for, the stream \<open>Registry.Get\<close> returned, the
  request with its body still unread, and how far it has got.
\<close>

datatype flight_stage = Fetched | Permitted | Over

record flight =
  fl_camera :: string
  fl_stream :: nat
  fl_request :: http_request
  fl_stage :: flight_stage

record whole =
  wh_sys :: bridge_sys
  wh_sessions :: "session list"
  wh_flights :: "flight list"

definition new_whole :: "string list \<Rightarrow> whole" where
  "new_whole exposed = \<lparr>wh_sys = new_sys exposed, wh_sessions = [], wh_flights = []\<rparr>"

text \<open>The streams, the registry and the sessions as \<open>WebRtc\<close> sees them, and back.\<close>

definition media_of :: "whole \<Rightarrow> (rtsp_producer, string) media" where
  "media_of w =
     (let b = sys_bridge (wh_sys w) in
      \<lparr>m_streams = map (\<lambda>a. the (br_heap b a)) [0 ..< br_next b], m_reg = br_reg b, m_sessions = wh_sessions w\<rparr>)"

definition with_media :: "(rtsp_producer, string) media \<Rightarrow> whole \<Rightarrow> whole" where
  "with_media m w =
     (let b = sys_bridge (wh_sys w);
          heap = (\<lambda>a. if a < length (m_streams m) then Some (m_streams m ! a) else br_heap b a)
      in w\<lparr>wh_sys := (wh_sys w)\<lparr>sys_bridge := b\<lparr>br_heap := heap\<rparr>\<rparr>, wh_sessions := m_sessions m\<rparr>)"

text \<open>
  The goroutine of \<open>run\<close> dialing the camera again after its session was lost: a client that is
  connected is installed unless the producer has been stopped meanwhile. The loss itself changes none
  of the producer's fields.
\<close>

definition redialed :: "(nat \<Rightarrow> rtsp_io) \<Rightarrow> rtsp_producer \<Rightarrow> rtsp_producer" where
  "redialed env p =
     (let n = p_dialed p; p1 = p\<lparr>p_dialed := n + 1\<rparr>
      in case fst (connect (env n)) of
           Inl _ \<Rightarrow> p1
         | Inr _ \<Rightarrow> if p_client p = None then p1 else p1\<lparr>p_client := Some n\<rparr>)"

definition redial_at :: "(nat \<Rightarrow> rtsp_io) \<Rightarrow> nat \<Rightarrow> (rtsp_producer, string) media \<Rightarrow> (rtsp_producer, string) media" where
  "redial_at env a m =
     (let st = m_streams m ! a in m\<lparr>m_streams := (m_streams m)[a := st\<lparr>producer := redialed env (producer st)\<rparr>]\<rparr>)"

text \<open>
  A step: an event of the bridge; of a POST to \<open>/webrtc/signal\<close> the token check with \<open>Registry.Get\<close>
  (at the time given), the look at the allow-list, and the reading of the body with \<open>Negotiate\<close> (with
  what pion says); the end of a session; a redial of a producer that was started. \<open>env\<close> is what the
  cameras answer.
\<close>

datatype whole_event =
    Sys sys_event
  | SignalGet instant http_request
  | SignalAllowed nat
  | SignalOffer nat "string pion_peer"
  | SessionOver nat
  | Redial nat

definition in_stage :: "nat \<Rightarrow> flight_stage \<Rightarrow> whole \<Rightarrow> bool" where
  "in_stage k st w \<longleftrightarrow> k < length (wh_flights w) \<and> fl_stage (wh_flights w ! k) = st"

definition set_stage :: "nat \<Rightarrow> flight_stage \<Rightarrow> whole \<Rightarrow> whole" where
  "set_stage k st w = w\<lparr>wh_flights := (wh_flights w)[k := (wh_flights w ! k)\<lparr>fl_stage := st\<rparr>]\<rparr>"

text \<open>
  The three steps of \<open>signalHandler\<close>: \<open>Registry.Get\<close> for the camera of a good token; \<open>Allowed\<close>;
  \<open>Decode\<close> of the body with \<open>Negotiate\<close> on the stream the handler holds.
\<close>

definition handler_gets :: "bytes \<Rightarrow> instant \<Rightarrow> http_request \<Rightarrow> whole \<Rightarrow> whole" where
  [simp]: "handler_gets key now r w =
     (case signal_token key now r of Inl _ \<Rightarrow> w | Inr cam \<Rightarrow>
      case reg_get cam (br_reg (sys_bridge (wh_sys w))) of None \<Rightarrow> w | Some a \<Rightarrow>
      w\<lparr>wh_flights := wh_flights w @ [\<lparr>fl_camera = cam, fl_stream = a, fl_request = r, fl_stage = Fetched\<rparr>]\<rparr>)"

definition handler_asks :: "nat \<Rightarrow> whole \<Rightarrow> whole" where
  [simp]: "handler_asks k w =
     (if in_stage k Fetched w
      then set_stage k (if is_allowed (br_src (sys_bridge (wh_sys w))) (fl_camera (wh_flights w ! k)) then Permitted else Over) w
      else w)"

definition handler_offers :: "(nat \<Rightarrow> rtsp_io) \<Rightarrow> nat \<Rightarrow> string pion_peer \<Rightarrow> whole \<Rightarrow> whole" where
  [simp]: "handler_offers env k pc w =
     (if in_stage k Permitted w
      then let f = wh_flights w ! k; w1 = set_stage k Over w
           in case signal_offer (fl_request f) of
                Inl _ \<Rightarrow> w1
              | Inr (sdp, shape) \<Rightarrow> with_media (snd (negotiate (rtsp_ops env) pc (fl_stream f) sdp (media_of w1))) w1
      else w)"

fun whole_step ::
  "reconciler_config \<Rightarrow> (nat \<Rightarrow> rtsp_io) \<Rightarrow> bytes \<Rightarrow> whole_event \<Rightarrow> whole \<Rightarrow> whole" where
  "whole_step rc env key (Sys e) w = w\<lparr>wh_sys := snd (sys_step rc e (wh_sys w))\<rparr>"
| "whole_step rc env key (SignalGet now r) w = handler_gets key now r w"
| "whole_step rc env key (SignalAllowed k) w = handler_asks k w"
| "whole_step rc env key (SignalOffer k pc) w = handler_offers env k pc w"
| "whole_step rc env key (SessionOver i) w =
     (if i < length (wh_sessions w) then with_media (close_session (rtsp_ops env) i (media_of w)) w else w)"
| "whole_step rc env key (Redial a) w =
     (if a < br_next (sys_bridge (wh_sys w)) \<and>
         (let p = producer (the (br_heap (sys_bridge (wh_sys w)) a)) in p_client p \<noteq> None \<or> p_closed p)
      then with_media (redial_at env a (media_of w)) w else w)"

definition whole_run ::
  "reconciler_config \<Rightarrow> (nat \<Rightarrow> rtsp_io) \<Rightarrow> bytes \<Rightarrow> whole_event list \<Rightarrow> whole \<Rightarrow> whole" where
  "whole_run rc env key es w = fold (whole_step rc env key) es w"

section \<open>The reconciler as a sequence of registry operations\<close>

definition idle_puts :: "(rtsp_producer, string) media_event list \<Rightarrow> bool" where
  "idle_puts mes \<longleftrightarrow> (\<forall>n p. PutStream n p \<in> set mes \<longrightarrow> rtsp_valid p \<and> \<not> rtsp_alive p)"

text \<open>The streams and the registry of a bridge state, for any sessions.\<close>

definition bridge_media :: "session list \<Rightarrow> bridge_state \<Rightarrow> (rtsp_producer, string) media" where
  "bridge_media ss b = \<lparr>m_streams = map (\<lambda>a. the (br_heap b a)) [0 ..< br_next b], m_reg = br_reg b, m_sessions = ss\<rparr>"

definition registers ::
  "(rtsp_producer, string) producer_ops \<Rightarrow> session list \<Rightarrow> bridge_state \<Rightarrow> bridge_state \<Rightarrow> bool" where
  "registers ops ss b b' \<longleftrightarrow> (\<exists>mes. bridge_media ss b' = foldl (media_step ops) (bridge_media ss b) mes \<and> idle_puts mes)"

lemma registers_refl [simp]: "registers ops ss b b"
  unfolding registers_def by (rule exI [of _ "[]"]) (simp add: idle_puts_def)

lemma registers_same: "br_heap b' = br_heap b \<Longrightarrow> br_next b' = br_next b \<Longrightarrow> br_reg b' = br_reg b \<Longrightarrow> registers ops ss b b'"
  unfolding registers_def by (rule exI [of _ "[]"]) (simp add: idle_puts_def bridge_media_def)

lemma registers_trans: "registers ops ss b b1 \<Longrightarrow> registers ops ss b1 b2 \<Longrightarrow> registers ops ss b b2"
proof -
  assume "registers ops ss b b1" "registers ops ss b1 b2"
  then obtain ms ns where "bridge_media ss b1 = foldl (media_step ops) (bridge_media ss b) ms" "idle_puts ms"
    "bridge_media ss b2 = foldl (media_step ops) (bridge_media ss b1) ns" "idle_puts ns"
    by (auto simp: registers_def)
  then show ?thesis unfolding registers_def by (intro exI [of _ "ms @ ns"]) (auto simp: idle_puts_def)
qed

lemma registers_put: "registers ops ss b (register_stream rc i url b)"
  unfolding registers_def
  by (rule exI [of _ "[PutStream i (new_producer i url (rc_verify rc))]"])
    (auto simp: idle_puts_def bridge_media_def register_stream_def)

lemma registers_delete: "registers ops ss b (unregister_stream i b)"
  unfolding registers_def
  by (rule exI [of _ "[DeleteStream i]"]) (simp add: idle_puts_def bridge_media_def unregister_stream_def)

lemma registers_sync: "registers ops ss b (snd (sync_stream rc cam b))"
  by (simp add: sync_stream_def Let_def registers_put registers_delete split: option.split sum.split)

lemma registers_loop: "registers ops ss b (snd (refresh_loop rc prev gen cams acc b))"
proof (induction rc prev gen cams acc b rule: refresh_loop.induct)
  case (2 rc prev gen cam cams cs changed streams b)
  obtain x b1 where "sync_stream rc cam b = (x, b1)" by fastforce
  with 2 registers_sync [of ops ss b rc cam] show ?case by (simp add: Let_def) (blast intro: registers_trans)
qed simp

lemma registers_gone: "registers ops ss b (snd (remove_gone seen ns acc b))"
proof (induction seen ns acc b rule: remove_gone.induct)
  case (2 seen n ns removed streams b)
  then show ?case using registers_delete [of ops ss b n] by (auto intro: registers_trans)
qed simp

lemma registers_refresh: "registers ops ss b (snd (refresh_apply rc gen cams upd b))"
proof -
  let ?b0 = "b\<lparr>br_refreshed := True\<rparr>"
  obtain x b1 where 1: "refresh_loop rc (snapshot_map (br_src ?b0)) gen cams ([], [], False) ?b0 = (x, b1)" by fastforce
  obtain cs ch st where x: "x = (cs, ch, st)" by (cases x)
  obtain y b2 where 2: "remove_gone (set (map uc_id cams)) (reg_names (br_reg b1)) (0, st) b1 = (y, b2)" by fastforce
  obtain r st' where y: "y = (r, st')" by (cases y)
  have "registers ops ss b ?b0" by (rule registers_same) simp_all
  moreover have "registers ops ss ?b0 b1" using registers_loop by (metis 1 snd_conv)
  moreover have "registers ops ss b1 b2" using registers_gone by (metis 2 snd_conv)
  moreover have "registers ops ss b2 (snd (refresh_apply rc gen cams upd b))"
    by (rule registers_same) (use 1 2 x y in \<open>simp_all add: refresh_apply_def Let_def\<close>)
  ultimately show ?thesis by (blast intro: registers_trans)
qed

lemma registers_event: "registers ops ss b (snd (snd (handle_event rc ev b)))"
proof -
  obtain acts f b' where "handle_event rc ev b = (acts, f, b')" by (metis prod.collapse)
  with handle_event_frame [OF this] show ?thesis by (simp add: registers_same)
qed

lemma registers_sys: "registers ops ss (sys_bridge y) (sys_bridge (snd (sys_step rc e y)))"
proof (cases e)
  case (Apply ok ids)
  obtain acts s where a: "apply_exposed_cameras rc ok ids (sys_bridge y) = (acts, s)" by fastforce
  from apply_exposed_frame [OF a] show ?thesis by (simp add: Apply a registers_same)
next
  case (Refreshed gen cams upd)
  then show ?thesis
    using registers_refresh [of ops ss "sys_bridge y" rc gen cams upd]
    by (cases "refresh_apply rc gen cams upd (sys_bridge y)") simp
next
  case (Event ev)
  then show ?thesis
    using registers_event [of ops ss "sys_bridge y" rc ev] by (cases "handle_event rc ev (sys_bridge y)") simp
qed simp_all


section \<open>Sessions leave the registry and the URLs alone\<close>

definition same_streams :: "(rtsp_producer, string) media \<Rightarrow> (rtsp_producer, string) media \<Rightarrow> bool" where
  "same_streams m m' \<longleftrightarrow> m_reg m' = m_reg m \<and> length (m_streams m') = length (m_streams m) \<and>
     (\<forall>a < length (m_streams m). stream_name (m_streams m' ! a) = stream_name (m_streams m ! a) \<and>
        p_url (producer (m_streams m' ! a)) = p_url (producer (m_streams m ! a)) \<and>
        p_verify_tls (producer (m_streams m' ! a)) = p_verify_tls (producer (m_streams m ! a)))"

lemma same_streams_refl [simp]: "same_streams m m"
  by (simp add: same_streams_def)

lemma same_streams_trans: "same_streams m m1 \<Longrightarrow> same_streams m1 m2 \<Longrightarrow> same_streams m m2"
  by (simp add: same_streams_def)

lemma same_streams_sessions [simp]: "same_streams m (m1\<lparr>m_sessions := ss\<rparr>) = same_streams m m1"
  by (simp add: same_streams_def)

lemma rtsp_start_url: "rtsp_start env p = (r, p') \<Longrightarrow> p_url p' = p_url p \<and> p_verify_tls p' = p_verify_tls p"
  by (auto simp: rtsp_start_def Let_def split: sum.splits option.splits prod.splits)

lemma rtsp_stop_url: "p_url (rtsp_stop p) = p_url p \<and> p_verify_tls (rtsp_stop p) = p_verify_tls p"
  by (simp add: rtsp_stop_def)

lemma same_streams_update:
  "stream_name s = stream_name (m_streams m ! a) \<and> p_url (producer s) = p_url (producer (m_streams m ! a)) \<and>
   p_verify_tls (producer s) = p_verify_tls (producer (m_streams m ! a)) \<Longrightarrow>
   same_streams m (m\<lparr>m_streams := (m_streams m)[a := s]\<rparr>)"
  by (cases "a < length (m_streams m)") (simp_all add: same_streams_def nth_list_update)

lemma same_streams_acquire:
  assumes "acquire (rtsp_ops env) (m_streams m ! a) = (r, s)"
  shows "same_streams m (m\<lparr>m_streams := (m_streams m)[a := s]\<rparr>)"
  using assms acquire_refs [OF assms]
  by (intro same_streams_update)
    (auto simp: acquire_def rtsp_ops_def Let_def rtsp_stop_url dest: rtsp_start_url split: if_splits sum.splits prod.splits)

lemma same_streams_release: "same_streams m (release_at (rtsp_ops env) a m)"
  unfolding release_at_def
  by (intro same_streams_update) (simp add: release_ref_def rtsp_ops_def Let_def rtsp_stop_url)

lemma release_at_sessions: "release_at ops a (m\<lparr>m_sessions := ss\<rparr>) = (release_at ops a m)\<lparr>m_sessions := ss\<rparr>"
  by (simp add: release_at_def)

lemma same_streams_close: "same_streams m (close_session (rtsp_ops env) i m)"
  by (simp add: close_session_def release_at_sessions same_streams_release)

lemma same_streams_negotiate: "same_streams m (snd (negotiate (rtsp_ops env) pc a sdp m))"
proof -
  obtain r s where a: "acquire (rtsp_ops env) (m_streams m ! a) = (r, s)" by fastforce
  note 1 = same_streams_acquire [OF a]
  note 2 = same_streams_trans [OF 1 same_streams_release]
  have 3: "same_streams m (close_session (rtsp_ops env) i (m\<lparr>m_streams := (m_streams m)[a := s], m_sessions := ss\<rparr>))" for i ss
    using same_streams_trans [OF _ same_streams_close, of m "m\<lparr>m_streams := (m_streams m)[a := s], m_sessions := ss\<rparr>"] 1 by simp
  show ?thesis using 1 2 3 a by (auto simp: negotiate_def Let_def split: option.splits sum.splits)
qed

lemma same_streams_signal: "same_streams m (snd (signal_handler (rtsp_ops env) pc key now allowed r m))"
proof -
  have "same_streams m m'" if "negotiate (rtsp_ops env) pc a sdp m = (q, m')" for a sdp q m'
    using same_streams_negotiate [of m env pc a sdp] that by simp
  then show ?thesis by (auto simp: signal_handler_def split: sum.split prod.split)
qed

lemma redialed_keeps:
  "p_url (redialed env p) = p_url p \<and> p_verify_tls (redialed env p) = p_verify_tls p \<and>
   (p_client (redialed env p) = None \<longleftrightarrow> p_client p = None) \<and> p_closed (redialed env p) = p_closed p \<and>
   p_track (redialed env p) = p_track p"
  by (simp add: redialed_def Let_def split: sum.split)

lemma same_streams_redial: "same_streams m (redial_at env a m)"
  unfolding redial_at_def Let_def by (intro same_streams_update) (simp add: redialed_keeps)

section \<open>The invariant\<close>

lemma media_of_sys: "media_of w = bridge_media (wh_sessions w) (sys_bridge (wh_sys w))"
  by (simp add: media_of_def bridge_media_def Let_def)

lemma media_of_fields [simp]:
  "m_sessions (media_of w) = wh_sessions w" "m_reg (media_of w) = br_reg (sys_bridge (wh_sys w))"
  "length (m_streams (media_of w)) = br_next (sys_bridge (wh_sys w))"
  "a < br_next (sys_bridge (wh_sys w)) \<Longrightarrow> m_streams (media_of w) ! a = the (br_heap (sys_bridge (wh_sys w)) a)"
  by (simp_all add: media_of_def Let_def)

lemma media_with:
  assumes "same_streams (media_of w) m"
  shows "media_of (with_media m w) = m"
proof -
  let ?b = "sys_bridge (wh_sys w)"
  have l: "length (m_streams m) = br_next ?b" "m_reg m = br_reg ?b"
    using assms by (simp_all add: same_streams_def media_of_def Let_def)
  have "map (\<lambda>a. the (if a < length (m_streams m) then Some (m_streams m ! a) else br_heap ?b a)) [0 ..< br_next ?b] = m_streams m"
    by (rule nth_equalityI) (simp_all add: l(1))
  then show ?thesis using l(2) by (simp add: media_of_def with_media_def Let_def)
qed

definition whole_ok :: "reconciler_config \<Rightarrow> whole \<Rightarrow> bool" where
  "whole_ok rc w \<longleftrightarrow> sys_ok rc (wh_sys w) \<and> media_ok rtsp.upstream_ok (media_of w) \<and>
     (\<forall>f \<in> set (wh_flights w). fl_stream f < br_next (sys_bridge (wh_sys w)))"

lemma whole_ok_new [simp]: "whole_ok rc (new_whole exposed)"
proof -
  have "media_of (new_whole exposed) = media0"
    by (simp add: media_of_def new_whole_def new_sys_def new_bridge_def media0_def)
  moreover have "media_ok rtsp.upstream_ok media0"
    by (simp add: media0_def media_ok_def reg_get_def)
  ultimately show ?thesis by (simp add: whole_ok_def) (simp add: new_whole_def)
qed

lemma sys_ok_with_media:
  assumes ok: "sys_ok rc (wh_sys w)" and s: "same_streams (media_of w) m"
  shows "sys_ok rc (wh_sys (with_media m w))"
proof -
  let ?b = "sys_bridge (wh_sys w)" let ?b' = "sys_bridge (wh_sys (with_media m w))"
  have b': "br_src ?b' = br_src ?b" "br_reg ?b' = br_reg ?b" "br_next ?b' = br_next ?b"
    "br_heap ?b' = (\<lambda>a. if a < br_next ?b then Some (m_streams m ! a) else br_heap ?b a)"
    using s by (simp_all add: with_media_def Let_def same_streams_def media_of_def)
  have "stream_dials (br_heap ?b' a) i e" if "a < br_next ?b" "stream_dials (br_heap ?b a) i e" for a i e
    using that s by (auto simp: b' stream_dials_def same_streams_def media_of_def Let_def split: option.splits)
  then have "entry_ok rc ?b' i" if "entry_ok rc ?b i" for i
    using that by (auto simp: entry_ok_def b'(1-3) split: option.splits)
  then have "reg_ok rc ?b'" using ok by (simp add: sys_ok_def reg_ok_def b'(2))
  then show ?thesis using ok by (simp add: sys_ok_def with_media_def Let_def)
qed

lemma steps_media_ok:
  "idle_puts mes \<Longrightarrow> media_ok rtsp.upstream_ok m \<Longrightarrow> media_ok rtsp.upstream_ok (foldl (media_step (rtsp_ops env)) m mes)"
proof (induction mes arbitrary: m)
  case (Cons e mes)
  from Cons.prems(1) have "idle_puts mes" "\<And>n p. e = PutStream n p \<Longrightarrow> rtsp_valid p \<and> \<not> rtsp_alive p"
    by (auto simp: idle_puts_def)
  then show ?case using Cons.IH Cons.prems(2) rtsp.contract.step_ok [of m e env] by simp
qed simp

lemma redial_media_ok:
  assumes "media_ok rtsp.upstream_ok m"
  shows "media_ok rtsp.upstream_ok (redial_at env a m)"
proof -
  have "rtsp.upstream_ok (st\<lparr>producer := redialed env (producer st)\<rparr>) = rtsp.upstream_ok st" for st :: "(rtsp_producer, string) stream"
    by (simp add: rtsp.upstream_ok_def rtsp_valid_def rtsp_alive_def stream_ok_def redialed_keeps)
  then show ?thesis using assms by (cases "a < length (m_streams m)") (simp_all add: media_ok_def redial_at_def Let_def nth_list_update)
qed

text \<open>
  Streams are only added, and keep the camera and the URL they were made with; with this, a step is a
  change of the sessions and of the streams' states, or an event of the bridge.
\<close>

definition keeps :: "(rtsp_producer, string) media \<Rightarrow> (rtsp_producer, string) media \<Rightarrow> bool" where
  "keeps m m' \<longleftrightarrow> length (m_streams m) \<le> length (m_streams m') \<and>
     (\<forall>a < length (m_streams m). stream_name (m_streams m' ! a) = stream_name (m_streams m ! a) \<and>
        p_url (producer (m_streams m' ! a)) = p_url (producer (m_streams m ! a)) \<and>
        p_verify_tls (producer (m_streams m' ! a)) = p_verify_tls (producer (m_streams m ! a)))"

lemma keeps_refl [simp]: "keeps m m"
  by (simp add: keeps_def)

lemma keeps_trans: "keeps m m1 \<Longrightarrow> keeps m1 m2 \<Longrightarrow> keeps m m2"
  by (simp add: keeps_def)

lemma keeps_same: "same_streams m m' \<Longrightarrow> keeps m m'"
  by (simp add: keeps_def same_streams_def)

lemma keeps_media_step: "keeps m (media_step (rtsp_ops env) m e)"
proof (cases e)
  case (Offer name sdp pc)
  then show ?thesis by (auto intro: keeps_same same_streams_negotiate split: option.split)
next
  case (CloseSession i)
  then show ?thesis by (auto intro: keeps_same same_streams_close)
qed (simp_all add: keeps_def nth_append)

lemma keeps_steps: "keeps m (foldl (media_step (rtsp_ops env)) m mes)"
proof (induction mes arbitrary: m)
  case (Cons e mes)
  show ?case using keeps_trans [OF keeps_media_step Cons.IH] by simp
qed simp

lemma stage_fields [simp]:
  "wh_sys (set_stage k st w) = wh_sys w" "wh_sessions (set_stage k st w) = wh_sessions w"
  "media_of (set_stage k st w) = media_of w" "length (wh_flights (set_stage k st w)) = length (wh_flights w)"
  by (simp_all add: set_stage_def media_of_def)

lemma with_media_flights [simp]: "wh_flights (with_media m w) = wh_flights w"
  by (simp add: with_media_def Let_def)

lemma whole_step_sys_media:
  "\<exists>mes. media_of (whole_step rc env key (Sys e) w) = foldl (media_step (rtsp_ops env)) (media_of w) mes \<and> idle_puts mes"
  using registers_sys [of "rtsp_ops env" "wh_sessions w" "wh_sys w" rc e] by (simp add: media_of_sys registers_def)

text \<open>A step that is not the bridge's leaves the streams as they are but for their state.\<close>

definition session_step :: "whole \<Rightarrow> whole \<Rightarrow> bool" where
  "session_step w w' \<longleftrightarrow>
     (\<exists>m w1. (w' = w1 \<or> w' = with_media m w1) \<and> wh_sys w1 = wh_sys w \<and> wh_sessions w1 = wh_sessions w \<and>
        same_streams (media_of w) m)"

lemma session_step_plain: "wh_sys w' = wh_sys w \<Longrightarrow> wh_sessions w' = wh_sessions w \<Longrightarrow> session_step w w'"
  unfolding session_step_def by (intro exI [of _ "media_of w"] exI [of _ w']) simp

lemma session_step_media:
  "wh_sys w1 = wh_sys w \<Longrightarrow> wh_sessions w1 = wh_sessions w \<Longrightarrow> same_streams (media_of w) m \<Longrightarrow> session_step w (with_media m w1)"
  unfolding session_step_def by (intro exI [of _ m] exI [of _ w1]) simp

lemma media_of_eq: "wh_sys w1 = wh_sys w \<Longrightarrow> wh_sessions w1 = wh_sessions w \<Longrightarrow> media_of w1 = media_of w"
  by (simp add: media_of_def)

lemma session_step_same:
  assumes "session_step w w'"
  shows "same_streams (media_of w) (media_of w')" and "sys_ok rc (wh_sys w) \<Longrightarrow> sys_ok rc (wh_sys w')"
proof -
  obtain m w1 where w': "w' = w1 \<or> w' = with_media m w1" and w1: "wh_sys w1 = wh_sys w" "wh_sessions w1 = wh_sessions w"
    and m: "same_streams (media_of w) m" using assms by (auto simp: session_step_def)
  note eq = media_of_eq [OF w1]
  from m have m1: "same_streams (media_of w1) m" by (simp add: eq)
  show "same_streams (media_of w) (media_of w')" using w' m media_with [OF m1] by (auto simp: eq)
  show "sys_ok rc (wh_sys w')" if "sys_ok rc (wh_sys w)" using w' that sys_ok_with_media [OF _ m1] by (auto simp: w1)
qed

lemma whole_step_same: "(\<And>x. e \<noteq> Sys x) \<Longrightarrow> session_step w (whole_step rc env key e w)"
  by (cases e)
    (auto simp: Let_def session_step_plain session_step_media same_streams_close same_streams_redial
      same_streams_negotiate split: sum.split option.split prod.split)

lemma whole_step_keeps: "keeps (media_of w) (media_of (whole_step rc env key e w))"
proof (cases "\<exists>x. e = Sys x")
  case True
  then obtain x where e: "e = Sys x" by blast
  obtain mes where "media_of (whole_step rc env key (Sys x) w) = foldl (media_step (rtsp_ops env)) (media_of w) mes"
    using whole_step_sys_media by blast
  then show ?thesis by (simp only: e keeps_steps)
qed (blast intro: keeps_same session_step_same(1) whole_step_same)

lemma whole_run_keeps: "keeps (media_of w) (media_of (whole_run rc env key es w))"
proof (induction es arbitrary: w)
  case (Cons e es)
  show ?case using keeps_trans [OF whole_step_keeps Cons.IH] by (simp add: whole_run_def)
qed (simp add: whole_run_def)

text \<open>What each step does to the sessions and to the handlers under way.\<close>

lemma media_after_offer:
  "media_of (whole_step rc env key (SignalOffer k pc) w) = media_of w \<or>
   in_stage k Permitted w \<and>
     (\<exists>sdp. media_of (whole_step rc env key (SignalOffer k pc) w) =
       snd (negotiate (rtsp_ops env) pc (fl_stream (wh_flights w ! k)) sdp (media_of w)))"
  by (auto simp: Let_def media_with same_streams_negotiate split: sum.split)

lemma media_after_get: "media_of (whole_step rc env key (SignalGet now r) w) = media_of w"
  by (auto intro: media_of_eq split: sum.split option.split)

lemma media_after_allowed: "media_of (whole_step rc env key (SignalAllowed k) w) = media_of w"
  by simp

lemma media_after_over:
  "media_of (whole_step rc env key (SessionOver i) w) =
     (if i < length (wh_sessions w) then close_session (rtsp_ops env) i (media_of w) else media_of w)"
  by (simp add: media_with same_streams_close)

lemma media_after_redial:
  "media_of (whole_step rc env key (Redial a) w) = media_of w \<or>
   media_of (whole_step rc env key (Redial a) w) = redial_at env a (media_of w)"
  by (simp add: Let_def media_with same_streams_redial)

lemma redial_sessions [simp]: "m_sessions (redial_at env a m) = m_sessions m" "m_reg (redial_at env a m) = m_reg m"
  by (simp_all add: redial_at_def Let_def)

lemma flights_step:
  "wh_flights (whole_step rc env key e w) =
     (case e of
        SignalGet now r \<Rightarrow>
          (case signal_token key now r of Inl _ \<Rightarrow> wh_flights w | Inr cam \<Rightarrow>
           case reg_get cam (br_reg (sys_bridge (wh_sys w))) of None \<Rightarrow> wh_flights w | Some a \<Rightarrow>
           wh_flights w @ [\<lparr>fl_camera = cam, fl_stream = a, fl_request = r, fl_stage = Fetched\<rparr>])
      | SignalAllowed k \<Rightarrow>
          if in_stage k Fetched w
          then (wh_flights w)[k := (wh_flights w ! k)\<lparr>fl_stage :=
            if is_allowed (br_src (sys_bridge (wh_sys w))) (fl_camera (wh_flights w ! k)) then Permitted else Over\<rparr>]
          else wh_flights w
      | SignalOffer k pc \<Rightarrow>
          if in_stage k Permitted w then (wh_flights w)[k := (wh_flights w ! k)\<lparr>fl_stage := Over\<rparr>] else wh_flights w
      | _ \<Rightarrow> wh_flights w)"
  by (cases e) (auto simp: set_stage_def Let_def split: sum.split option.split)

lemma step_media_ok:
  assumes ok: "whole_ok rc w"
  shows "media_ok rtsp.upstream_ok (media_of (whole_step rc env key e w))"
proof (cases e)
  case (Sys x)
  obtain mes where "media_of (whole_step rc env key (Sys x) w) = foldl (media_step (rtsp_ops env)) (media_of w) mes" "idle_puts mes"
    using whole_step_sys_media by blast
  then show ?thesis using ok steps_media_ok by (simp only: Sys whole_ok_def)
next
  case (SignalOffer k pc)
  have "fl_stream (wh_flights w ! k) < length (m_streams (media_of w))" if "in_stage k Permitted w"
    using ok that by (simp add: whole_ok_def in_stage_def)
  then show ?thesis
    using ok rtsp.contract.negotiate_ok media_after_offer [of rc env key k pc w]
    by (auto simp: SignalOffer whole_ok_def simp del: whole_step.simps)
next
  case (SessionOver i)
  then show ?thesis using ok rtsp.contract.close_ok by (simp add: media_after_over whole_ok_def del: whole_step.simps)
next
  case (Redial a)
  then show ?thesis using ok redial_media_ok media_after_redial [of rc env key a w] by (auto simp: whole_ok_def simp del: whole_step.simps)
qed (use ok in \<open>simp_all only: media_after_get media_after_allowed whole_ok_def\<close>)

lemma step_flights_ok:
  assumes ok: "whole_ok rc w" and f: "f \<in> set (wh_flights (whole_step rc env key e w))"
  shows "fl_stream f < br_next (sys_bridge (wh_sys w))"
proof -
  have old: "\<And>f. f \<in> set (wh_flights w) \<Longrightarrow> fl_stream f < br_next (sys_bridge (wh_sys w))" using ok by (simp add: whole_ok_def)
  have reg: "\<And>n a. reg_get n (br_reg (sys_bridge (wh_sys w))) = Some a \<Longrightarrow> a < br_next (sys_bridge (wh_sys w))"
    using ok by (simp add: whole_ok_def media_ok_def)
  have upd: "fl_stream f < br_next (sys_bridge (wh_sys w))"
    if "k < length (wh_flights w)" "f \<in> set ((wh_flights w)[k := (wh_flights w ! k)\<lparr>fl_stage := st\<rparr>])" for k st f
    using set_update_subset_insert [of "wh_flights w" k] that old [of f] old [OF nth_mem [OF that(1)]] by fastforce
  show ?thesis
    using f old reg upd by (auto simp: flights_step in_stage_def split: whole_event.splits sum.splits option.splits if_splits)
qed

lemma whole_ok_step: "whole_ok rc w \<Longrightarrow> whole_ok rc (whole_step rc env key e w)"
proof -
  assume ok: "whole_ok rc w"
  then have s: "sys_ok rc (wh_sys w)" by (simp add: whole_ok_def)
  have "sys_ok rc (wh_sys (whole_step rc env key e w))"
  proof (cases "\<exists>x. e = Sys x")
    case True
    then show ?thesis using sys_ok_step [OF s] by auto
  next
    case False
    then have "session_step w (whole_step rc env key e w)" by (blast intro: whole_step_same)
    from session_step_same(2) [OF this s] show ?thesis .
  qed
  moreover have "br_next (sys_bridge (wh_sys w)) \<le> br_next (sys_bridge (wh_sys (whole_step rc env key e w)))"
    using whole_step_keeps [of w rc env key e] by (simp add: keeps_def)
  ultimately show ?thesis
    using step_media_ok [OF ok] step_flights_ok [OF ok] unfolding whole_ok_def by (meson order_less_le_trans)
qed

lemma whole_ok_run: "whole_ok rc w \<Longrightarrow> whole_ok rc (whole_run rc env key es w)"
  unfolding whole_run_def by (induction es arbitrary: w) (simp_all add: whole_ok_step)

text \<open>A handler that nothing comes between does what \<open>signal_handler\<close> says.\<close>

definition signal_events :: "nat \<Rightarrow> instant \<Rightarrow> string pion_peer \<Rightarrow> http_request \<Rightarrow> whole_event list" where
  "signal_events k now pc r = [SignalGet now r, SignalAllowed k, SignalOffer k pc]"

lemma signal_run:
  fixes w :: whole
  defines "fl \<equiv> \<lambda>st cam a r. w\<lparr>wh_flights := wh_flights w @ [\<lparr>fl_camera = cam, fl_stream = a, fl_request = r, fl_stage = st\<rparr>]\<rparr>"
  shows "whole_run rc env key (signal_events (length (wh_flights w)) now pc r) w =
    (case signal_token key now r of Inl _ \<Rightarrow> w | Inr cam \<Rightarrow>
     case reg_get cam (br_reg (sys_bridge (wh_sys w))) of None \<Rightarrow> w | Some a \<Rightarrow>
     if \<not> is_allowed (br_src (sys_bridge (wh_sys w))) cam then fl Over cam a r
     else case signal_offer r of Inl _ \<Rightarrow> fl Over cam a r
     | Inr (sdp, shape) \<Rightarrow> with_media (snd (negotiate (rtsp_ops env) pc a sdp (media_of (fl Over cam a r)))) (fl Over cam a r))"
  by (simp add: fl_def signal_events_def whole_run_def in_stage_def set_stage_def Let_def split: sum.split option.split prod.split)

lemma signal_served:
  fixes rc env key now pc r and w :: whole
  defines "w' \<equiv> whole_run rc env key (signal_events (length (wh_flights w)) now pc r) w"
  shows "media_of w' = snd (signal_handler (rtsp_ops env) pc key now (Some (is_allowed (br_src (sys_bridge (wh_sys w))))) r (media_of w))"
    and "sys_hls (wh_sys w') = sys_hls (wh_sys w)" and "sys_mp4 (wh_sys w') = sys_mp4 (wh_sys w)"
proof -
  have fl: "media_of (w\<lparr>wh_flights := fs\<rparr>) = media_of w" for fs by (rule media_of_eq) simp_all
  have neg: "media_of (with_media (snd (negotiate (rtsp_ops env) pc a sdp (media_of w))) (w\<lparr>wh_flights := fs\<rparr>)) =
      snd (negotiate (rtsp_ops env) pc a sdp (media_of w))" for a sdp fs
    by (rule media_with) (simp only: fl same_streams_negotiate)
  show "media_of w' = snd (signal_handler (rtsp_ops env) pc key now (Some (is_allowed (br_src (sys_bridge (wh_sys w))))) r (media_of w))"
    unfolding w'_def signal_run
    by (auto simp: fl neg signal_handler_def signal_admit_def split: sum.split option.split prod.split)
  show "sys_hls (wh_sys w') = sys_hls (wh_sys w)" "sys_mp4 (wh_sys w') = sys_mp4 (wh_sys w)"
    unfolding w'_def signal_run by (auto simp: with_media_def Let_def split: sum.split option.split prod.split)
qed

section \<open>Streams the registry has let go of\<close>

lemma negotiate_open_on:
  "open_on (m_sessions (snd (negotiate ops pc b sdp m))) a \<le> open_on (m_sessions m) a + (if a = b then 1 else 0)"
  by (auto simp: negotiate_def close_session_def release_at_def Let_def list_update_append
      split: option.splits sum.splits prod.splits if_splits)

lemma negotiate_opens:
  "open_on (m_sessions m) a < open_on (m_sessions (snd (negotiate ops pc b sdp m))) a \<Longrightarrow> a = b"
  using negotiate_open_on [of ops pc b sdp m a] by (auto split: if_splits)

text \<open>A stream the registry has let go of gets no new sessions from the registry.\<close>

definition retired :: "nat \<Rightarrow> (rtsp_producer, string) media \<Rightarrow> bool" where
  "retired a m \<longleftrightarrow> a < length (m_streams m) \<and> (\<forall>n. reg_get n (m_reg m) \<noteq> Some a)"

lemma close_session_open: "open_on (m_sessions (close_session ops i m)) a \<le> open_on (m_sessions m) a"
proof (cases "i < length (m_sessions m) \<and> \<not> sess_closed (m_sessions m ! i)")
  case True
  then have "int (open_on (m_sessions (close_session ops i m)) a) \<le> int (open_on (m_sessions m) a)"
    using open_on_close [of i "m_sessions m" a] by (simp add: close_session_def release_at_def)
  then show ?thesis by (simp only: of_nat_le_iff)
qed (auto simp: close_session_def release_at_def list_update_beyond)

lemma retired_step:
  assumes "retired a m"
  shows "retired a (media_step (rtsp_ops env) m e) \<and> open_on (m_sessions (media_step (rtsp_ops env) m e)) a \<le> open_on (m_sessions m) a"
proof (cases e)
  case (Offer name sdp pc)
  show ?thesis
  proof (cases "reg_get name (m_reg m)")
    case (Some b)
    then have "b \<noteq> a" using assms by (auto simp: retired_def)
    then have "\<not> open_on (m_sessions m) a < open_on (m_sessions (snd (negotiate (rtsp_ops env) pc b sdp m))) a"
      using negotiate_opens by blast
    then show ?thesis
      using assms Some same_streams_negotiate [of m env pc b sdp] by (simp add: Offer retired_def same_streams_def)
  qed (use assms in \<open>simp add: Offer\<close>)
next
  case (CloseSession i)
  then show ?thesis
    using assms close_session_open [of "rtsp_ops env" i m a] same_streams_close [of m env i] by (simp add: retired_def same_streams_def)
qed (use assms in \<open>auto simp: retired_def\<close>)

lemma retired_steps:
  "retired a m \<Longrightarrow> retired a (foldl (media_step (rtsp_ops env)) m mes) \<and>
   open_on (m_sessions (foldl (media_step (rtsp_ops env)) m mes)) a \<le> open_on (m_sessions m) a"
proof (induction mes arbitrary: m)
  case (Cons e mes)
  from Cons.IH [of "media_step (rtsp_ops env) m e"] retired_step [OF Cons.prems, of env e] show ?case by auto
qed simp

text \<open>The handlers that hold a stream and may still open a session on it.\<close>

definition under_way :: "whole \<Rightarrow> nat \<Rightarrow> nat" where
  "under_way w a = length (filter (\<lambda>f. fl_stream f = a \<and> fl_stage f \<noteq> Over) (wh_flights w))"

lemma filter_update_le:
  "(P y \<Longrightarrow> P (xs ! k)) \<Longrightarrow> length (filter P (xs[k := y])) \<le> length (filter P xs)"
proof (induction xs arbitrary: k)
  case (Cons x xs)
  show ?case using Cons.IH Cons.prems by (cases k) (auto intro: le_SucI)
qed simp

lemma filter_update_less:
  "k < length xs \<Longrightarrow> P (xs ! k) \<Longrightarrow> \<not> P y \<Longrightarrow> Suc (length (filter P (xs[k := y]))) = length (filter P xs)"
proof (induction xs arbitrary: k)
  case (Cons x xs)
  then show ?case by (cases k) auto
qed simp

text \<open>
  Once the registry has let go of a stream, its open sessions and the handlers that hold it can only
  become fewer together: each such handler opens at most one session.
\<close>

lemma retired_whole_step:
  assumes "retired a (media_of w)"
  shows "retired a (media_of (whole_step rc env key e w)) \<and>
    open_on (wh_sessions (whole_step rc env key e w)) a + under_way (whole_step rc env key e w) a \<le> open_on (wh_sessions w) a + under_way w a"
proof -
  let ?w = "whole_step rc env key e w"
  have r: "retired a (media_of ?w)"
  proof (cases "\<exists>x. e = Sys x")
    case True
    then obtain x mes where "e = Sys x" "media_of ?w = foldl (media_step (rtsp_ops env)) (media_of w) mes"
      using whole_step_sys_media by metis
    then show ?thesis using retired_steps [OF assms] by simp
  next
    case False
    then have "same_streams (media_of w) (media_of ?w)" by (blast intro: session_step_same(1) whole_step_same)
    then show ?thesis using assms by (simp add: retired_def same_streams_def)
  qed
  have "open_on (m_sessions (media_of ?w)) a + under_way ?w a \<le> open_on (m_sessions (media_of w)) a + under_way w a"
  proof (cases e)
    case (SignalGet now r)
    have "reg_get n (br_reg (sys_bridge (wh_sys w))) \<noteq> Some a" for n using assms by (simp add: retired_def)
    then have "under_way ?w a = under_way w a"
      by (auto simp: under_way_def flights_step SignalGet simp del: whole_step.simps split: sum.split option.split)
    then show ?thesis by (simp only: SignalGet media_after_get)
  next
    case (SignalAllowed k)
    then have "under_way ?w a \<le> under_way w a"
      by (auto simp: under_way_def flights_step in_stage_def simp del: whole_step.simps intro!: filter_update_le)
    then show ?thesis by (simp only: SignalAllowed media_after_allowed)
  next
    case (SignalOffer k pc)
    let ?f = "wh_flights w ! k" let ?P = "\<lambda>f. fl_stream f = a \<and> fl_stage f \<noteq> Over"
    show ?thesis
    proof (cases "in_stage k Permitted w")
      case True
      then have k: "k < length (wh_flights w)" "fl_stage ?f = Permitted" by (simp_all add: in_stage_def)
      have u: "under_way ?w a = length (filter ?P ((wh_flights w)[k := ?f\<lparr>fl_stage := Over\<rparr>]))"
        using True by (simp add: under_way_def flights_step SignalOffer del: whole_step.simps)
      have "under_way ?w a + (if a = fl_stream ?f then 1 else 0) \<le> under_way w a"
        using k filter_update_less [of k "wh_flights w" ?P "?f\<lparr>fl_stage := Over\<rparr>"]
          filter_update_le [of ?P "?f\<lparr>fl_stage := Over\<rparr>" "wh_flights w" k]
        unfolding u under_way_def [of w] by (cases "a = fl_stream ?f") simp_all
      moreover have "open_on (m_sessions (media_of ?w)) a \<le> open_on (m_sessions (media_of w)) a + (if a = fl_stream ?f then 1 else 0)"
        using media_after_offer [of rc env key k pc w] unfolding SignalOffer
        by (elim disjE conjE exE) (simp_all only: negotiate_open_on le_add1)
      ultimately show ?thesis by linarith
    next
      case False
      then show ?thesis
        using media_after_offer [of rc env key k pc w] by (simp add: SignalOffer under_way_def flights_step del: whole_step.simps)
    qed
  next
    case (SessionOver i)
    then show ?thesis
      using close_session_open [of "rtsp_ops env" i "media_of w" a] by (auto simp: media_after_over under_way_def flights_step simp del: whole_step.simps)
  next
    case (Redial b)
    have "m_sessions (media_of ?w) = m_sessions (media_of w)" using media_after_redial [of rc env key b w]
      unfolding Redial by (elim disjE) (simp_all only: redial_sessions)
    then show ?thesis by (simp add: under_way_def flights_step Redial del: whole_step.simps)
  qed (simp add: under_way_def)
  with r show ?thesis by simp
qed

lemma step_opens:
  assumes "open_on (wh_sessions w) a < open_on (wh_sessions (whole_step rc env key e w)) a"
  shows "\<exists>k pc. e = SignalOffer k pc \<and> in_stage k Permitted w \<and> a = fl_stream (wh_flights w ! k)"
proof (cases e)
  case (SignalOffer k pc)
  have o: "open_on (m_sessions (media_of w)) a < open_on (m_sessions (media_of (whole_step rc env key e w))) a"
    using assms by simp
  have "\<not> media_of (whole_step rc env key (SignalOffer k pc) w) = media_of w"
    using o unfolding SignalOffer by (intro notI) (simp only: order_less_irrefl)
  then obtain sdp where st: "in_stage k Permitted w" and
    m: "media_of (whole_step rc env key e w) = snd (negotiate (rtsp_ops env) pc (fl_stream (wh_flights w ! k)) sdp (media_of w))"
    using media_after_offer [of rc env key k pc w] unfolding SignalOffer by blast
  from st negotiate_opens [OF o [unfolded m]] SignalOffer show ?thesis by blast
next
  case (SessionOver i)
  have "open_on (m_sessions (media_of (whole_step rc env key e w))) a \<le> open_on (m_sessions (media_of w)) a"
    unfolding SessionOver media_after_over by (simp only: close_session_open order_refl split: if_split) simp
  with assms show ?thesis by simp
next
  case (Redial b)
  have "m_sessions (media_of (whole_step rc env key e w)) = m_sessions (media_of w)"
    using media_after_redial [of rc env key b w] unfolding Redial by (elim disjE) (simp_all only: redial_sessions)
  with assms show ?thesis by simp
next
  case (SignalGet now r)
  have "m_sessions (media_of (whole_step rc env key e w)) = m_sessions (media_of w)" unfolding SignalGet media_after_get ..
  with assms show ?thesis by simp
qed (use assms in \<open>simp_all split: if_splits\<close>)

lemma retired_run:
  "retired a (media_of w) \<Longrightarrow> retired a (media_of (whole_run rc env key es w)) \<and>
   open_on (wh_sessions (whole_run rc env key es w)) a + under_way (whole_run rc env key es w) a \<le> open_on (wh_sessions w) a + under_way w a"
proof (induction es arbitrary: w)
  case (Cons e es)
  from retired_whole_step [OF Cons.prems, of rc env key e] Cons.IH [of "whole_step rc env key e w"] show ?case
    by (auto simp: whole_run_def simp del: whole_step.simps)
qed (simp add: whole_run_def)

section \<open>Where a handler comes from\<close>

lemma whole_run_snoc: "whole_run rc env key (es @ [e]) w = whole_step rc env key e (whole_run rc env key es w)"
  by (simp add: whole_run_def del: whole_step.simps)

lemma whole_run_append: "whole_run rc env key (es @ es') w = whole_run rc env key es' (whole_run rc env key es w)"
  by (simp add: whole_run_def)

text \<open>
  The handler \<open>f\<close>, number \<open>k\<close>, began in the run with a token that was good then and with the stream then in the
  registry; if it has been let through, the camera was exposed at that moment.
\<close>

definition came_from ::
  "reconciler_config \<Rightarrow> (nat \<Rightarrow> rtsp_io) \<Rightarrow> bytes \<Rightarrow> whole \<Rightarrow> whole_event list \<Rightarrow> nat \<Rightarrow> flight \<Rightarrow> bool" where
  "came_from rc env key w0 es k f \<longleftrightarrow>
     (\<exists>es1 now es2. es = es1 @ SignalGet now (fl_request f) # es2 \<and> k = length (wh_flights (whole_run rc env key es1 w0)) \<and>
        signal_token key now (fl_request f) = Inr (fl_camera f) \<and>
        reg_get (fl_camera f) (br_reg (sys_bridge (wh_sys (whole_run rc env key es1 w0)))) = Some (fl_stream f) \<and>
        (fl_stage f = Permitted \<longrightarrow> (\<exists>es3 es4. es2 = es3 @ SignalAllowed k # es4 \<and>
           is_allowed (br_src (sys_bridge (wh_sys (whole_run rc env key (es1 @ SignalGet now (fl_request f) # es3) w0)))) (fl_camera f))))"

lemma came_from_later:
  assumes "came_from rc env key w0 es k f"
    and "fl_request f' = fl_request f" and "fl_camera f' = fl_camera f" and "fl_stream f' = fl_stream f"
    and "fl_stage f' = Permitted \<Longrightarrow> fl_stage f = Permitted \<or>
      e = SignalAllowed k \<and> is_allowed (br_src (sys_bridge (wh_sys (whole_run rc env key es w0)))) (fl_camera f)"
  shows "came_from rc env key w0 (es @ [e]) k f'"
proof -
  from assms(1) obtain es1 now es2 where o: "es = es1 @ SignalGet now (fl_request f) # es2"
    "k = length (wh_flights (whole_run rc env key es1 w0))" "signal_token key now (fl_request f) = Inr (fl_camera f)"
    "reg_get (fl_camera f) (br_reg (sys_bridge (wh_sys (whole_run rc env key es1 w0)))) = Some (fl_stream f)"
    and p: "fl_stage f = Permitted \<Longrightarrow> \<exists>es3 es4. es2 = es3 @ SignalAllowed k # es4 \<and>
      is_allowed (br_src (sys_bridge (wh_sys (whole_run rc env key (es1 @ SignalGet now (fl_request f) # es3) w0)))) (fl_camera f)"
    unfolding came_from_def by (elim exE conjE) (rule that, simp_all)
  have "\<exists>es3 es4. es2 @ [e] = es3 @ SignalAllowed k # es4 \<and>
      is_allowed (br_src (sys_bridge (wh_sys (whole_run rc env key (es1 @ SignalGet now (fl_request f) # es3) w0)))) (fl_camera f)"
    if st: "fl_stage f' = Permitted"
  proof (cases "fl_stage f = Permitted")
    case True
    from p [OF this] obtain es3 es4 where "es2 = es3 @ SignalAllowed k # es4"
      "is_allowed (br_src (sys_bridge (wh_sys (whole_run rc env key (es1 @ SignalGet now (fl_request f) # es3) w0)))) (fl_camera f)"
      by blast
    then show ?thesis by (intro exI [of _ es3] exI [of _ "es4 @ [e]"]) simp
  next
    case False
    with assms(5) [OF st] show ?thesis using o(1) by (intro exI [of _ es2] exI [of _ "[]"]) simp
  qed
  then show ?thesis
    unfolding came_from_def assms(2-4) using o by (intro exI [of _ es1] exI [of _ now] exI [of _ "es2 @ [e]"]) simp
qed

lemma flight_came_from:
  "wh_flights w0 = [] \<Longrightarrow> k < length (wh_flights (whole_run rc env key es w0)) \<Longrightarrow>
   came_from rc env key w0 es k (wh_flights (whole_run rc env key es w0) ! k)"
proof (induction es arbitrary: k rule: rev_induct)
  case Nil
  then show ?case by (simp add: whole_run_def)
next
  case (snoc e es)
  let ?w = "whole_run rc env key es w0"
  let ?f' = "wh_flights (whole_step rc env key e ?w) ! k"
  note flights = flights_step [of rc env key e ?w]
  show ?case
  proof (cases "k < length (wh_flights ?w)")
    case True
    have "fl_request ?f' = fl_request (wh_flights ?w ! k) \<and> fl_camera ?f' = fl_camera (wh_flights ?w ! k) \<and>
        fl_stream ?f' = fl_stream (wh_flights ?w ! k) \<and>
        (fl_stage ?f' = Permitted \<longrightarrow> fl_stage (wh_flights ?w ! k) = Permitted \<or>
          e = SignalAllowed k \<and> is_allowed (br_src (sys_bridge (wh_sys ?w))) (fl_camera (wh_flights ?w ! k)))"
      unfolding flights using True
      by (auto simp: nth_append nth_list_update in_stage_def split: whole_event.split sum.split option.split)
    then show ?thesis unfolding whole_run_snoc by (intro came_from_later [OF snoc.IH [OF snoc.prems(1) True]]) simp_all
  next
    case False
    with snoc.prems(2) obtain now r cam a where n: "e = SignalGet now r" "signal_token key now r = Inr cam"
      "reg_get cam (br_reg (sys_bridge (wh_sys ?w))) = Some a" and k: "k = length (wh_flights ?w)"
      and f': "?f' = \<lparr>fl_camera = cam, fl_stream = a, fl_request = r, fl_stage = Fetched\<rparr>"
      unfolding whole_run_snoc flights by (auto split: whole_event.splits sum.splits option.splits if_splits)
    show ?thesis
      unfolding came_from_def whole_run_snoc f' using n k
      by (intro exI [of _ es] exI [of _ now] exI [of _ "[]"]) simp
  qed
qed

section \<open>Properties\<close>

text \<open>
  C13: in every run of the whole bridge, with refreshes, exposure changes, the steps of any number of signaling
  handlers, hang-ups and lost camera sessions in any order, each stream the reconciler has ever
  registered has as many references as there are WebRTC sessions open on it, and its producer runs (it
  holds a client, which its loop replaces when the camera ends the session) exactly while there is one. Once
  the reconciler has replaced or removed a stream it never comes back, and only a handler that had already taken it out of the
  registry can still open a session on it, one at most: the open sessions and those handlers only become fewer together.
\<close>

theorem upstream_open_while_watched:
  assumes "w = whole_run rc env key es (new_whole exposed)" and "w' = whole_run rc env key es' w"
    and "a < br_next (sys_bridge (wh_sys w))" and "st = the (br_heap (sys_bridge (wh_sys w)) a)"
  shows "refs st = int (open_on (wh_sessions w) a) \<and>
    (p_client (producer st) \<noteq> None \<longleftrightarrow> open_on (wh_sessions w) a \<noteq> 0) \<and>
    ((\<forall>i. reg_get i (br_reg (sys_bridge (wh_sys w))) \<noteq> Some a) \<longrightarrow>
      open_on (wh_sessions w') a + under_way w' a \<le> open_on (wh_sessions w) a + under_way w a \<and>
      (\<forall>i. reg_get i (br_reg (sys_bridge (wh_sys w'))) \<noteq> Some a))"
proof -
  have "whole_ok rc w" unfolding assms(1) by (rule whole_ok_run [OF whole_ok_new])
  with assms(3) have m: "rtsp.upstream_ok st" "refs st = int (open_on (wh_sessions w) a)"
    by (simp_all add: whole_ok_def media_ok_def assms(4))
  then have "p_client (producer st) \<noteq> None \<longleftrightarrow> open_on (wh_sessions w) a \<noteq> 0"
    by (auto simp: rtsp.upstream_ok_def rtsp_alive_def stream_ok_def)
  moreover have "open_on (wh_sessions w') a + under_way w' a \<le> open_on (wh_sessions w) a + under_way w a \<and> retired a (media_of w')"
    if "retired a (media_of w)" using retired_run [OF that, of rc env key es'] by (simp add: assms(2))
  ultimately show ?thesis using m(2) assms(3) by (simp add: retired_def)
qed

text \<open>
  C10: who gets live video over WebRTC, in every run of the whole, whatever happens between the steps of a
  handler. Only the last step of a handler opens a session. That handler began earlier in the run with an unexpired token
  signed for a camera, and took the stream that was the registry's then, of that camera and with the URL of the
  table; later the camera was exposed when the handler asked the allow-list; and the session is on that
  stream, which still dials that URL. Between asking and opening nothing is looked at again: the camera may by then be
  hidden, or its stream replaced.
\<close>

theorem session_dials_exposed_camera:
  assumes "w = whole_run rc env key es (new_whole exposed)"
    and "w' = whole_step rc env key e w" and "open_on (wh_sessions w) a < open_on (wh_sessions w') a"
  shows "\<exists>es1 now r es2 k es3 pc cam exp st.
    es = es1 @ SignalGet now r # es2 @ SignalAllowed k # es3 \<and> e = SignalOffer k pc \<and>
    (let w1 = whole_run rc env key es1 (new_whole exposed); w2 = whole_run rc env key (es1 @ SignalGet now r # es2) (new_whole exposed);
         b = sys_bridge (wh_sys w1)
     in query_get (parse_query (raw_query r)) ''t'' = sign_token key cam exp \<and> unix now \<le> exp \<and>
        k = length (wh_flights w1) \<and> reg_get cam (br_reg b) = Some a \<and> br_heap b a = Some st \<and> stream_name st = cam \<and>
        cs_rtsp_urls (br_src b) cam = Some (p_url (producer st), p_verify_tls (producer st)) \<and>
        is_allowed (br_src (sys_bridge (wh_sys w2))) cam \<and>
        p_url (producer (the (br_heap (sys_bridge (wh_sys w)) a))) = p_url (producer st))"
proof -
  let ?w0 = "new_whole exposed"
  have opened: "\<exists>k pc. e = SignalOffer k pc \<and> in_stage k Permitted w \<and> a = fl_stream (wh_flights w ! k)"
    by (rule step_opens [OF assms(3) [unfolded assms(2)]])
  then obtain k pc where e: "e = SignalOffer k pc" and st: "in_stage k Permitted w" and a: "a = fl_stream (wh_flights w ! k)" by blast
  let ?f = "wh_flights w ! k"
  have "came_from rc env key ?w0 es k ?f"
    using st flight_came_from [of ?w0 k rc env key es] by (simp add: assms(1) in_stage_def new_whole_def)
  then obtain es1 now es2 es3 where es: "es = es1 @ SignalGet now (fl_request ?f) # es2 @ SignalAllowed k # es3"
    and k: "k = length (wh_flights (whole_run rc env key es1 ?w0))"
    and tok: "signal_token key now (fl_request ?f) = Inr (fl_camera ?f)"
    and reg_f: "reg_get (fl_camera ?f) (br_reg (sys_bridge (wh_sys (whole_run rc env key es1 ?w0)))) = Some (fl_stream ?f)"
    and al: "is_allowed (br_src (sys_bridge (wh_sys (whole_run rc env key (es1 @ SignalGet now (fl_request ?f) # es2) ?w0)))) (fl_camera ?f)"
    using st unfolding came_from_def in_stage_def by (elim exE conjE impE) (simp, rule that, simp_all)
  note reg = reg_f [folded a]
  define w1 where "w1 = whole_run rc env key es1 ?w0"
  let ?b = "sys_bridge (wh_sys w1)" let ?cam = "fl_camera ?f"
  have ok: "whole_ok rc w1" unfolding w1_def by (rule whole_ok_run [OF whole_ok_new])
  then have "entry_ok rc ?b ?cam" by (simp add: whole_ok_def sys_ok_def reg_ok_def)
  then obtain s where s: "a < br_next ?b" "br_heap ?b a = Some s" "stream_name s = ?cam"
    "cs_rtsp_urls (br_src ?b) ?cam = Some (p_url (producer s), p_verify_tls (producer s))"
    using reg unfolding w1_def by (auto simp: entry_ok_def stream_dials_def split: option.splits)
  define esr where "esr = SignalGet now (fl_request ?f) # es2 @ SignalAllowed k # es3"
  have "whole_run rc env key esr w1 = whole_run rc env key es ?w0"
    by (simp only: w1_def whole_run_append [symmetric] esr_def es [symmetric])
  then have w: "whole_run rc env key esr w1 = w" by (rule trans) (rule assms(1) [symmetric])
  have "keeps (media_of w1) (media_of w)" using whole_run_keeps [of w1 rc env key esr] unfolding w .
  then have url: "p_url (producer (the (br_heap (sys_bridge (wh_sys w)) a))) = p_url (producer s)"
    using s(1,2) by (auto simp: keeps_def)
  from tok obtain exp where x: "unix now \<le> exp" "query_get (parse_query (raw_query (fl_request ?f))) ''t'' = sign_token key ?cam exp"
    by (auto simp: signal_token_auth signal_auth_def Let_def verify_token_ok)
  show ?thesis
    by (intro exI conjI) (rule es, rule e, unfold Let_def, intro conjI, rule x(2), rule x(1), rule k, rule reg,
      use s url in \<open>simp_all add: w1_def\<close>, rule al)
qed

text \<open>
  A gap of the exposure control: the callback of the camera source prunes the HLS and MP4 servers
  only. Nothing the bridge does of itself ends a WebRTC session: not hiding the camera, not the two
  prunes, not a refresh that finds the camera gone. The session stays open and its camera's producer
  running until the viewer leaves.
\<close>

theorem bridge_ends_no_session:
  assumes "w = whole_run rc env key es (new_whole exposed)" and "w' = whole_run rc env key (map Sys es') w"
    and "open_on (wh_sessions w) a \<noteq> 0"
  shows "open_on (wh_sessions w') a = open_on (wh_sessions w) a \<and>
    p_client (producer (the (br_heap (sys_bridge (wh_sys w')) a))) \<noteq> None"
proof -
  have "whole_ok rc w'" unfolding assms(1,2) by (intro whole_ok_run whole_ok_new)
  then have ok: "media_ok rtsp.upstream_ok (media_of w')" by (simp add: whole_ok_def)
  have "wh_sessions (whole_run rc env key (map Sys es') w) = wh_sessions w" for w
    by (induction es' arbitrary: w) (simp_all add: whole_run_def)
  then have s: "wh_sessions w' = wh_sessions w" by (simp add: assms(2))
  then have "\<exists>x \<in> set (m_sessions (media_of w')). sess_stream x = a"
    using assms(3) by (auto simp: open_on_def filter_empty_conv)
  then have "a < br_next (sys_bridge (wh_sys w'))" using ok by (auto simp: media_ok_def)
  then have "rtsp.upstream_ok (the (br_heap (sys_bridge (wh_sys w')) a))"
    "refs (the (br_heap (sys_bridge (wh_sys w')) a)) = int (open_on (wh_sessions w) a)"
    using ok by (auto simp: media_ok_def s)
  then show ?thesis using s assms(3) by (auto simp: rtsp.upstream_ok_def rtsp_alive_def stream_ok_def)
qed

section \<open>Witnesses\<close>

text \<open>
  The camera \<open>cam\<close> is found; a handler asks for it and is let through; it is watched. Or, before the handler has
  read its body, the camera is hidden and the controller loses it.
\<close>

definition ex_found_events :: "whole_event list" where
  "ex_found_events = [Sys (Refreshed 0 [ex_uc ''cam'' True True] ''u'')]"

definition ex_let_in_events :: "whole_event list" where
  "ex_let_in_events = ex_found_events @ [SignalGet 0 ex_post, SignalAllowed 0]"

definition ex_gone_events :: "whole_event list" where
  "ex_gone_events = ex_let_in_events @ [Sys (Apply True [''z'']), Sys (Refreshed 0 [] ''v'')]"

definition ex_found :: whole where
  "ex_found = whole_run ex_rc ex_io [1] ex_found_events (new_whole [])"

definition ex_let_in :: whole where
  "ex_let_in = whole_run ex_rc ex_io [1] ex_let_in_events (new_whole [])"

definition ex_viewed :: whole where
  "ex_viewed = whole_run ex_rc ex_io [1] (ex_let_in_events @ [SignalOffer 0 (ex_pc None)]) (new_whole [])"

definition ex_gone :: whole where
  "ex_gone = whole_run ex_rc ex_io [1] ex_gone_events (new_whole [])"

lemma ex_let_in_eq:
  "ex_let_in = ex_found\<lparr>wh_flights := [\<lparr>fl_camera = ''cam'', fl_stream = 0, fl_request = ex_post, fl_stage = Permitted\<rparr>]\<rparr>"
proof -
  have r: "reg_get ''cam'' (br_reg (sys_bridge (wh_sys ex_found))) = Some 0" by code_simp
  have al: "is_allowed (br_src (sys_bridge (wh_sys ex_found))) ''cam''" by code_simp
  have f: "wh_flights ex_found = []" by code_simp
  have "whole_step ex_rc ex_io [1] (SignalAllowed 0) (whole_step ex_rc ex_io [1] (SignalGet 0 ex_post) ex_found) =
      ex_found\<lparr>wh_flights := [\<lparr>fl_camera = ''cam'', fl_stream = 0, fl_request = ex_post, fl_stage = Permitted\<rparr>]\<rparr>"
    by (simp add: r al f in_stage_def set_stage_def ex_post_token)
  then show ?thesis by (simp add: ex_let_in_def ex_found_def ex_let_in_events_def whole_run_def)
qed

lemma ex_viewed_step: "ex_viewed = whole_step ex_rc ex_io [1] (SignalOffer 0 (ex_pc None)) ex_let_in"
  unfolding ex_viewed_def ex_let_in_def by (rule whole_run_snoc)

lemma ex_gone_sys:
  "wh_sys ex_gone = snd (sys_step ex_rc (Refreshed 0 [] ''v'') (snd (sys_step ex_rc (Apply True [''z'']) (wh_sys ex_found))))"
  "wh_sessions ex_gone = wh_sessions ex_found" "wh_flights ex_gone = wh_flights ex_let_in"
proof -
  have eq: "ex_gone = whole_step ex_rc ex_io [1] (Sys (Refreshed 0 [] ''v'')) (whole_step ex_rc ex_io [1] (Sys (Apply True [''z''])) ex_let_in)"
    by (simp add: ex_gone_def ex_gone_events_def ex_let_in_def whole_run_def del: whole_step.simps)
  show "wh_sys ex_gone = snd (sys_step ex_rc (Refreshed 0 [] ''v'') (snd (sys_step ex_rc (Apply True [''z'']) (wh_sys ex_found))))"
    "wh_sessions ex_gone = wh_sessions ex_found" "wh_flights ex_gone = wh_flights ex_let_in"
    unfolding eq by (simp_all add: ex_let_in_eq del: sys_step.simps)
qed

text \<open>The offer of the handler opens a session on stream 0 wherever that stream is still the idle one it was made.\<close>

lemma ex_offer_opens:
  assumes "m_streams (media_of w) = [new_stream ''cam'' (new_producer ''cam'' ''rtsps://nvr:7441/al'' False)]" and "wh_sessions w = []"
    and "wh_flights w = wh_flights ex_let_in"
  shows "wh_sessions (whole_step ex_rc ex_io [1] (SignalOffer 0 (ex_pc None)) w) = [\<lparr>sess_stream = 0, sess_closed = False\<rparr>]"
proof -
  have f: "in_stage 0 Permitted w" "fl_request (wh_flights w ! 0) = ex_post" "fl_stream (wh_flights w ! 0) = 0"
    by (simp_all add: assms(3) ex_let_in_eq in_stage_def)
  have "wh_sessions (whole_step ex_rc ex_io [1] (SignalOffer 0 (ex_pc None)) w) =
      m_sessions (snd (negotiate (rtsp_ops ex_io) (ex_pc None) 0 ''v=0'' (media_of w)))"
    by (simp add: f ex_post_offer with_media_def Let_def)
  also have "\<dots> = [\<lparr>sess_stream = 0, sess_closed = False\<rparr>]"
    by (simp add: negotiate_def assms acquire_def rtsp_ops_def rtsp_start_def connect_def ex_io_def ex_pc_def
        new_stream_def new_producer_def Let_def)
  finally show ?thesis .
qed

lemma ex_sessions: "wh_sessions ex_found = []" "wh_sessions ex_viewed = [\<lparr>sess_stream = 0, sess_closed = False\<rparr>]"
  "wh_sessions (whole_step ex_rc ex_io [1] (SignalOffer 0 (ex_pc None)) ex_gone) = [\<lparr>sess_stream = 0, sess_closed = False\<rparr>]"
proof -
  show s: "wh_sessions ex_found = []" by code_simp
  have m: "m_streams (media_of ex_found) = [new_stream ''cam'' (new_producer ''cam'' ''rtsps://nvr:7441/al'' False)]"
    by code_simp
  have "media_of ex_let_in = media_of ex_found" by (rule media_of_eq) (simp_all add: ex_let_in_eq)
  then show "wh_sessions ex_viewed = [\<lparr>sess_stream = 0, sess_closed = False\<rparr>]"
    unfolding ex_viewed_step by (intro ex_offer_opens) (simp_all add: m, simp_all add: ex_let_in_eq s)
  let ?y = "snd (sys_step ex_rc (Refreshed 0 [] ''v'') (snd (sys_step ex_rc (Apply True [''z'']) (wh_sys ex_found))))"
  have "media_of ex_gone = media_of (ex_found\<lparr>wh_sys := ?y\<rparr>)" by (rule media_of_eq) (simp_all add: ex_gone_sys del: sys_step.simps)
  moreover have "m_streams (media_of (ex_found\<lparr>wh_sys := ?y\<rparr>)) = [new_stream ''cam'' (new_producer ''cam'' ''rtsps://nvr:7441/al'' False)]"
    by code_simp
  ultimately show "wh_sessions (whole_step ex_rc ex_io [1] (SignalOffer 0 (ex_pc None)) ex_gone) = [\<lparr>sess_stream = 0, sess_closed = False\<rparr>]"
    by (intro ex_offer_opens) (simp_all only: ex_gone_sys s)
qed

lemma ex_viewed_open: "open_on (wh_sessions ex_viewed) 0 = 1" "open_on (wh_sessions ex_found) 0 = 0" "open_on (wh_sessions ex_gone) 0 = 0"
  "open_on (wh_sessions (whole_step ex_rc ex_io [1] (SignalOffer 0 (ex_pc None)) ex_gone)) 0 = 1"
  by (simp_all add: ex_sessions ex_gone_sys(2) open_on_def del: whole_step.simps)

lemma ex_gone_hidden: "\<not> is_allowed (br_src (sys_bridge (wh_sys ex_gone))) ''cam''"
  "br_reg (sys_bridge (wh_sys ex_gone)) = []" "br_next (sys_bridge (wh_sys ex_gone)) = 1"
proof -
  show "\<not> is_allowed (br_src (sys_bridge (wh_sys ex_gone))) ''cam''" unfolding ex_gone_sys(1) by code_simp
  show "br_reg (sys_bridge (wh_sys ex_gone)) = []" unfolding ex_gone_sys(1) by code_simp
  show "br_next (sys_bridge (wh_sys ex_gone)) = 1" unfolding ex_gone_sys(1) by code_simp
qed

theorem session_dials_exposed_camera_witness:
  "\<exists>es1 now r es2 k es3. ex_gone_events = es1 @ SignalGet now r # es2 @ SignalAllowed k # es3 \<and>
     (\<exists>cam. is_allowed (br_src (sys_bridge (wh_sys (whole_run ex_rc ex_io [1] (es1 @ SignalGet now r # es2) (new_whole []))))) cam)"
proof -
  have "open_on (wh_sessions ex_gone) 0 < open_on (wh_sessions (whole_step ex_rc ex_io [1] (SignalOffer 0 (ex_pc None)) ex_gone)) 0"
    by (simp only: ex_viewed_open less_one)
  from session_dials_exposed_camera [OF ex_gone_def refl this] show ?thesis
    unfolding Let_def by (elim exE conjE) (intro exI conjI, assumption+)
qed

theorem bridge_ends_no_session_witness:
  "let w' = whole_run ex_rc ex_io [1] (map Sys [Apply True [''z''], PruneHls, PruneMp4, Refreshed 0 [] ''v'']) ex_viewed
   in open_on (wh_sessions w') 0 = 1"
  using bridge_ends_no_session [OF ex_viewed_def refl, of 0] ex_viewed_open by (simp only: Let_def)

theorem upstream_open_while_watched_witness:
  "open_on (wh_sessions (whole_run ex_rc ex_io [1] [SignalOffer 0 (ex_pc None)] ex_gone)) 0 +
     under_way (whole_run ex_rc ex_io [1] [SignalOffer 0 (ex_pc None)] ex_gone) 0 \<le> 1 \<and>
   p_client (producer (the (br_heap (sys_bridge (wh_sys ex_gone)) 0))) = None"
proof -
  have "under_way ex_gone 0 = 1" by (simp add: under_way_def ex_gone_sys(3) ex_let_in_eq)
  moreover have "\<And>i. reg_get i (br_reg (sys_bridge (wh_sys ex_gone))) \<noteq> Some 0" by (simp add: ex_gone_hidden(2) reg_get_def)
  moreover have "0 < br_next (sys_bridge (wh_sys ex_gone))" by (simp add: ex_gone_hidden(3))
  ultimately show ?thesis
    using upstream_open_while_watched [OF ex_gone_def refl _ refl, of 0 "[SignalOffer 0 (ex_pc None)]"] ex_viewed_open(3)
    by (simp del: whole_step.simps)
qed

end
