(* ===== verification/PublicServer.thy ===== *)
theory PublicServer
  imports System Intents
begin

text \<open>
  The public listener as a whole, \<open>Server.Routes\<close> of \<open>internal/api/server.go\<close> over everything behind
  it: the account linking, the fulfillment, signaling and the two stream servers of the running
  bridge, each behind its check and its body limit. The theorems say what a request from the
  internet can reach, and that the listener does nothing the parts do not.
\<close>

section \<open>Requests\<close>

text \<open>
  The body limits, and a request before they apply: what the decoders make of its body when reading
  it fails after so many bytes (\<open>http.MaxBytesReader\<close>).
\<close>

definition max_oauth_body :: nat where "max_oauth_body = 64 * 1024"

definition max_intent_body :: nat where "max_intent_body = 1024 * 1024"

definition max_signal_body :: nat where "max_signal_body = 256 * 1024"

record public_request =
  pq_head :: http_request
  pq_form :: "nat \<Rightarrow> (string \<Rightarrow> string) option"
  pq_json :: "nat \<Rightarrow> jobject option"
  pq_intent :: "nat \<Rightarrow> intent_request option"

definition limit_body :: "nat \<Rightarrow> public_request \<Rightarrow> http_request" where
  "limit_body n p = (pq_head p)\<lparr>form := pq_form p n, body_json := pq_json p n\<rparr>"

text \<open>What a request meets: the clock, random bytes, \<open>url.Parse\<close>, the peer connection and the cameras.\<close>

record public_env =
  pe_now :: instant
  pe_now2 :: instant
  pe_code :: bytes
  pe_nonce1 :: "bytes option"
  pe_nonce2 :: "bytes option"
  pe_url_parse :: "string \<Rightarrow> parsed_url option"
  pe_pion :: "string pion_peer"
  pe_cameras :: "nat \<Rightarrow> rtsp_io"

section \<open>The server\<close>

record public =
  pu_base :: string
  pu_key :: bytes
  pu_agent :: string
  pu_oauth :: oauth_server
  pu_whole :: whole

text \<open>The answer: a page or redirect, a response, an intent's, or the muxer that takes the request over.\<close>

datatype public_answer =
    AuthAnswer auth_response
  | Plain http_response
  | IntentAnswer intent_response
  | ToHls muxer string
  | ToMp4 muxer string

definition public_serve ::
  "reconciler_config \<Rightarrow> public_env \<Rightarrow> public_request \<Rightarrow> public \<Rightarrow> public_answer \<times> public" where
  "public_serve rc en p s =
     (let r = pq_head p; now = pe_now en; y = wh_sys (pu_whole s); src = br_src (sys_bridge y);
          step = whole_step rc (pe_cameras en) (pu_key s)
      in case route_of True True (path r) of
           AuthorizeRoute \<Rightarrow>
             (case authorize (pe_url_parse en) (pu_oauth s) now (pe_now2 en) (pe_code en) (limit_body max_oauth_body p) of
                (x, o') \<Rightarrow> (AuthAnswer x, s\<lparr>pu_oauth := o'\<rparr>))
         | TokenRoute \<Rightarrow>
             (case token_handler (pu_oauth s) now (pe_nonce1 en) (pe_nonce2 en) (limit_body max_oauth_body p) of
                (x, o') \<Rightarrow> (Plain x, s\<lparr>pu_oauth := o'\<rparr>))
         | SmartHomeRoute \<Rightarrow>
             (case auth_middleware (pu_oauth s) now r of
                Inl x \<Rightarrow> (Plain x, s)
              | Inr _ \<Rightarrow>
                  (case fulfill (pu_agent s) (source_of (pu_base s) (pu_key s) now src) (pq_intent p max_intent_body) of
                     Inl x \<Rightarrow> (Plain x, s)
                   | Inr x \<Rightarrow> (IntentAnswer x, s)))
         | SignalRoute \<Rightarrow>
             let r' = limit_body max_signal_body p
             in (Plain (fst (signal_handler (rtsp_ops (pe_cameras en)) (pe_pion en) (pu_key s) now (Some (is_allowed src)) r'
                    (media_of (pu_whole s)))),
                 s\<lparr>pu_whole := whole_run rc (pe_cameras en) (pu_key s)
                    (signal_events (length (wh_flights (pu_whole s))) now (pe_pion en) r') (pu_whole s)\<rparr>)
         | HlsRoute \<Rightarrow>
             (case hls_handler (pu_key s) now r of
                Inl x \<Rightarrow> (Plain x, s)
              | Inr r' \<Rightarrow>
                  (case fst (hls_serve (rtsp_url_of src) r' (sys_hls y)) of Inl x \<Rightarrow> Plain x | Inr (m, sub) \<Rightarrow> ToHls m sub,
                   s\<lparr>pu_whole := step (Sys (HlsRequest r')) (pu_whole s)\<rparr>))
         | Mp4Route \<Rightarrow>
             (case mp4_handler (pu_key s) now r of
                Inl x \<Rightarrow> (Plain x, s)
              | Inr r' \<Rightarrow>
                  (case fst (mp4_serve (rtsp_url_of src) r' (sys_mp4 y)) of Inl x \<Rightarrow> Plain x | Inr (m, sub) \<Rightarrow> ToMp4 m sub,
                   s\<lparr>pu_whole := step (Sys (Mp4Request r')) (pu_whole s)\<rparr>))
         | HealthRoute \<Rightarrow> (Plain \<lparr>status = 200, content = TextBody ''ok''\<rparr>, s)
         | NoRoute \<Rightarrow> (Plain (http_error ''404 page not found'' 404), s))"

section \<open>Specifications\<close>

text \<open>The request carries a token for the camera that has not expired: in its path, its header or its query.\<close>

definition opens :: "bytes \<Rightarrow> instant \<Rightarrow> http_request \<Rightarrow> string \<Rightarrow> bool" where
  "opens key now r cam \<longleftrightarrow>
     (\<exists>e exp. parse_int64 e = Some exp \<and> unix now \<le> exp \<and>
        ((\<exists>rest. path r = ''/hls/'' @ cam @ ''/'' @ e @ ''/'' @ sign_token key cam exp @ ''/'' @ rest) \<or>
         (\<exists>rest. path r = ''/mp4/'' @ cam @ ''/'' @ rest \<and>
            header r ''Authorization'' = ''Bearer '' @ e @ ''.'' @ sign_token key cam exp) \<or>
         path r = ''/webrtc/signal'' \<and> query_get (parse_query (raw_query r)) ''cam'' = cam \<and>
           query_get (parse_query (raw_query r)) ''exp'' = e \<and>
           query_get (parse_query (raw_query r)) ''t'' = sign_token key cam exp))"

text \<open>The request reaches a camera: a session comes or goes, or a muxer takes it over.\<close>

fun handed_over :: "public_answer \<Rightarrow> muxer option" where
  "handed_over (ToHls m sub) = Some m"
| "handed_over (ToMp4 m sub) = Some m"
| "handed_over _ = None"

section \<open>Lemmas\<close>

lemma route_of_path:
  "route_of a b p = AuthorizeRoute \<Longrightarrow> p = ''/oauth/authorize''"
  "route_of a b p = TokenRoute \<Longrightarrow> p = ''/oauth/token''"
  "route_of a b p = SmartHomeRoute \<Longrightarrow> p = ''/smarthome''"
  "route_of a b p = SignalRoute \<Longrightarrow> p = ''/webrtc/signal''"
  "route_of a b p = HlsRoute \<Longrightarrow> has_prefix p ''/hls/''"
  "route_of a b p = Mp4Route \<Longrightarrow> has_prefix p ''/mp4/''"
  by (simp_all add: route_of_def split: if_splits)

lemma route_of_hls:
  assumes "has_prefix p ''/hls/''"
  shows "route_of True b p = HlsRoute"
proof -
  obtain q where q: "p = ''/hls/'' @ q" using has_prefix_split [OF assms] by blast
  have "p \<noteq> ''/oauth/authorize''" "p \<noteq> ''/oauth/token''" "p \<noteq> ''/smarthome''" "p \<noteq> ''/webrtc/signal''"
    by (simp_all add: q)
  then show ?thesis using assms by (simp add: route_of_def)
qed

lemma limit_body_fields [simp]:
  "req_method (limit_body n p) = req_method (pq_head p)" "path (limit_body n p) = path (pq_head p)"
  "raw_query (limit_body n p) = raw_query (pq_head p)" "header (limit_body n p) = header (pq_head p)"
  by (simp_all add: limit_body_def)

lemma hls_handler_opens:
  assumes "hls_handler key now r = Inr r'" and "has_prefix (path r) ''/hls/''"
  shows "\<exists>cam rest. opens key now r cam \<and> CHR ''/'' \<notin> set cam \<and> r' = r\<lparr>path := ''/'' @ cam @ ''/'' @ rest\<rparr>"
proof -
  obtain cam e rest exp where c: "trim_prefix (path r) ''/hls/'' = cam @ ''/'' @ e @ ''/'' @ sign_token key cam exp @ ''/'' @ rest"
      "CHR ''/'' \<notin> set cam" "parse_int64 e = Some exp" "unix now \<le> exp" "r' = r\<lparr>path := ''/'' @ cam @ ''/'' @ rest\<rparr>"
    using assms(1) unfolding hls_handler_Inr by (elim exE conjE) (rule that)
  have "opens key now r cam"
    unfolding opens_def
    by (intro exI [of _ e] exI [of _ exp] conjI disjI1 exI [of _ rest]) (rule c has_prefix_split [OF assms(2), unfolded c(1)])+
  with c show ?thesis by (intro exI conjI)
qed

lemma mp4_handler_opens:
  assumes "mp4_handler key now r = Inr r'" and "has_prefix (path r) ''/mp4/''"
  shows "\<exists>cam rest. opens key now r cam \<and> CHR ''/'' \<notin> set cam \<and> r' = r\<lparr>path := ''/'' @ cam @ ''/'' @ rest\<rparr>"
proof -
  obtain cam e rest exp where c: "trim_prefix (path r) ''/mp4/'' = cam @ ''/'' @ rest" "CHR ''/'' \<notin> set cam"
      "header r ''Authorization'' = ''Bearer '' @ e @ ''.'' @ sign_token key cam exp" "parse_int64 e = Some exp" "unix now \<le> exp"
      "r' = r\<lparr>path := ''/'' @ cam @ ''/'' @ rest\<rparr>"
    using assms(1) unfolding mp4_handler_Inr by (elim exE conjE) (rule that)
  have "opens key now r cam"
    unfolding opens_def
    by (rule exI [of _ e], rule exI [of _ exp], intro conjI c(4,5) disjI2 [OF disjI1] exI [of _ rest])
      (rule c has_prefix_split [OF assms(2), unfolded c(1)])+
  with c show ?thesis by (intro exI conjI)
qed

lemma signal_opens:
  assumes "signal_handler ops pc key now allowed r w = (resp, w')" and "w' \<noteq> w" and "path r = ''/webrtc/signal''"
  shows "\<exists>cam. opens key now r cam \<and> (\<forall>f. allowed = Some f \<longrightarrow> f cam)"
proof -
  obtain a sdp shape where adm: "signal_admit key now (\<lambda>n. reg_get n (m_reg w)) allowed r = Inr (a, sdp, shape)"
    using assms(1,2) by (auto simp: signal_handler_def split: sum.splits)
  from signal_admit_auth [OF this] obtain cam where c: "signal_auth key now r = (cam, None)" "\<forall>f. allowed = Some f \<longrightarrow> f cam"
    by (elim conjE exE) (rule that)
  let ?q = "parse_query (raw_query r)"
  from c(1) obtain exp where e: "parse_int64 (query_get ?q ''exp'') = Some exp" "unix now \<le> exp"
    "query_get ?q ''cam'' = cam" "query_get ?q ''t'' = sign_token key cam exp"
    by (auto simp: signal_auth_def Let_def verify_token_ok)
  have "opens key now r cam"
    unfolding opens_def
    by (rule exI [of _ "query_get ?q ''exp''"], rule exI [of _ exp], intro conjI e(1,2) disjI2) (rule e assms(3) refl)+
  with c(2) show ?thesis by blast
qed

lemma cut_path:
  "CHR ''/'' \<notin> set cam \<Longrightarrow> cut (trim_prefix (''/'' @ cam @ ''/'' @ rest) ''/'') CHR ''/'' = (cam, rest, True)"
  using trim_prefix_append [of "''/''" "cam @ ''/'' @ rest"] by simp

lemma hls_serve_path:
  assumes "path r = ''/'' @ cam @ ''/'' @ rest" and "CHR ''/'' \<notin> set cam" and "hls_serve lookup r t = (Inr (m, sub), t')"
  shows "lookup cam = Some (mx_url m, mx_verify m) \<and> map_of (ms_muxers t') cam = Some m"
proof -
  have "cut (trim_prefix (path r) ''/'') CHR ''/'' = (cam, rest, True)" unfolding assms(1) by (rule cut_path [OF assms(2)])
  then have "muxer_for lookup cam t = (Some m, t')"
    using assms(3) by (auto simp: hls_serve_def split: if_splits option.splits prod.splits)
  then show ?thesis using muxer_for_result by blast
qed

lemma mp4_serve_path:
  assumes "path r = ''/'' @ cam @ ''/'' @ rest" and "CHR ''/'' \<notin> set cam" and "mp4_serve lookup r t = (Inr (m, sub), t')"
  shows "lookup cam = Some (mx_url m, mx_verify m) \<and> map_of (ms_muxers t') cam = Some m"
proof -
  have "index_byte (cam @ CHR ''/'' # rest) CHR ''/'' = int (length cam)" using assms(2) by simp
  then have "muxer_for lookup cam t = (Some m, t')"
    using assms(3) by (auto simp: mp4_serve_def assms(1) Let_def split: if_splits option.splits prod.splits)
  then show ?thesis using muxer_for_result by blast
qed

text \<open>The routes one by one: what is reached, by whom, and what stays.\<close>

definition reaches :: "public_env \<Rightarrow> public_request \<Rightarrow> public \<Rightarrow> public_answer \<Rightarrow> public \<Rightarrow> bool" where
  "reaches en p s ans s' \<longleftrightarrow> media_of (pu_whole s') \<noteq> media_of (pu_whole s) \<or> handed_over ans \<noteq> None"

definition by_right :: "public_env \<Rightarrow> public_request \<Rightarrow> public \<Rightarrow> public_answer \<Rightarrow> bool" where
  "by_right en p s ans \<longleftrightarrow>
     (let src = br_src (sys_bridge (wh_sys (pu_whole s))) in
      \<exists>cam. opens (pu_key s) (pe_now en) (pq_head p) cam \<and> is_allowed src cam \<and>
        (\<forall>m. handed_over ans = Some m \<longrightarrow> rtsp_url_of src cam = Some (mx_url m, mx_verify m)))"

lemma media_of_tables: "media_of (w\<lparr>wh_sys := snd (sys_step rc (HlsRequest r) (wh_sys w))\<rparr>) = media_of w"
  "media_of (w\<lparr>wh_sys := snd (sys_step rc (Mp4Request r) (wh_sys w))\<rparr>) = media_of w"
  by (simp_all add: media_of_def)

lemma signal_route:
  assumes "route_of True True (path (pq_head p)) = SignalRoute" and "public_serve rc en p s = (ans, s')"
  shows "(reaches en p s ans s' \<longrightarrow> by_right en p s ans) \<and> pu_oauth s' = pu_oauth s \<and> (\<nexists>x. ans = IntentAnswer x) \<and>
    sys_hls (wh_sys (pu_whole s')) = sys_hls (wh_sys (pu_whole s)) \<and> sys_mp4 (wh_sys (pu_whole s')) = sys_mp4 (wh_sys (pu_whole s))"
proof -
  let ?w = "pu_whole s" let ?r = "limit_body max_signal_body p"
  let ?al = "Some (is_allowed (br_src (sys_bridge (wh_sys ?w))))"
  let ?w' = "whole_run rc (pe_cameras en) (pu_key s) (signal_events (length (wh_flights ?w)) (pe_now en) (pe_pion en) ?r) ?w"
  obtain resp m where h: "signal_handler (rtsp_ops (pe_cameras en)) (pe_pion en) (pu_key s) (pe_now en) ?al ?r (media_of ?w) = (resp, m)"
    by fastforce
  have s': "s' = s\<lparr>pu_whole := ?w'\<rparr>" "ans = Plain resp"
    using assms h by (simp_all add: public_serve_def Let_def)
  note served = signal_served [of rc "pe_cameras en" "pu_key s" ?w "pe_now en" "pe_pion en" ?r]
  have "media_of ?w' = m" using served(1) h by simp
  then have "by_right en p s ans" if "reaches en p s ans s'"
    using signal_opens [OF h] that route_of_path(4) [OF assms(1)] by (auto simp: reaches_def by_right_def opens_def s' Let_def)
  then show ?thesis using served(2,3) by (simp add: s')
qed

lemma right_by_muxer:
  assumes "opens (pu_key s) (pe_now en) (pq_head p) cam" and "handed_over ans = Some m"
    and "rtsp_url_of (br_src (sys_bridge (wh_sys (pu_whole s)))) cam = Some (mx_url m, mx_verify m)"
  shows "by_right en p s ans"
proof -
  have "is_allowed (br_src (sys_bridge (wh_sys (pu_whole s)))) cam"
    using cams.hides [of "br_src (sys_bridge (wh_sys (pu_whole s)))" cam] assms(3) by fastforce
  then show ?thesis using assms by (auto simp: by_right_def Let_def)
qed

lemma muxer_route:
  assumes "opens (pu_key s) (pe_now en) (pq_head p) cam" and "ans = (case y of Inl x \<Rightarrow> Plain x | Inr (m, sub) \<Rightarrow> K m sub)"
    and "\<And>m sub. handed_over (K m sub) = Some m"
    and "\<And>m sub. y = Inr (m, sub) \<Longrightarrow>
      rtsp_url_of (br_src (sys_bridge (wh_sys (pu_whole s)))) cam = Some (mx_url m, mx_verify m)"
    and "media_of (pu_whole s') = media_of (pu_whole s)"
  shows "(reaches en p s ans s' \<longrightarrow> by_right en p s ans) \<and> (\<nexists>x. ans = IntentAnswer x)"
proof (cases y)
  case (Inr z)
  obtain m sub where z: "z = (m, sub)" by (cases z)
  then have h: "handed_over ans = Some m" using Inr assms(2,3) by simp
  then show ?thesis using right_by_muxer [OF assms(1) h assms(4)] Inr z by auto
qed (use assms(2,5) in \<open>simp add: reaches_def\<close>)

lemma hls_route:
  assumes "route_of True True (path (pq_head p)) = HlsRoute" and "public_serve rc en p s = (ans, s')"
  shows "(reaches en p s ans s' \<longrightarrow> by_right en p s ans) \<and> pu_oauth s' = pu_oauth s \<and> (\<nexists>x. ans = IntentAnswer x) \<and>
    (pu_whole s' \<noteq> pu_whole s \<longrightarrow> (\<exists>cam. opens (pu_key s) (pe_now en) (pq_head p) cam))"
proof (cases "hls_handler (pu_key s) (pe_now en) (pq_head p)")
  case (Inr r')
  from hls_handler_opens [OF Inr route_of_path(5) [OF assms(1)]] obtain cam rest where
    o: "opens (pu_key s) (pe_now en) (pq_head p) cam" "CHR ''/'' \<notin> set cam" "r' = (pq_head p)\<lparr>path := ''/'' @ cam @ ''/'' @ rest\<rparr>"
    by (elim exE conjE) (rule that)
  then have path: "path r' = ''/'' @ cam @ ''/'' @ rest" by simp
  let ?src = "br_src (sys_bridge (wh_sys (pu_whole s)))"
  obtain y t where y: "hls_serve (rtsp_url_of ?src) r' (sys_hls (wh_sys (pu_whole s))) = (y, t)" by fastforce
  have ans: "ans = (case y of Inl x \<Rightarrow> Plain x | Inr (m, sub) \<Rightarrow> ToHls m sub)"
    and s': "s' = s\<lparr>pu_whole := (pu_whole s)\<lparr>wh_sys := snd (sys_step rc (HlsRequest r') (wh_sys (pu_whole s)))\<rparr>\<rparr>"
    using assms Inr y by (simp_all add: public_serve_def Let_def)
  have "media_of (pu_whole s') = media_of (pu_whole s)" unfolding s' by (simp add: media_of_tables del: sys_step.simps)
  from muxer_route [OF o(1) ans _ _ this] hls_serve_path [OF path o(2)] y show ?thesis using o(1) s' by fastforce
qed (use assms in \<open>auto simp: public_serve_def reaches_def\<close>)

lemma mp4_route:
  assumes "route_of True True (path (pq_head p)) = Mp4Route" and "public_serve rc en p s = (ans, s')"
  shows "(reaches en p s ans s' \<longrightarrow> by_right en p s ans) \<and> pu_oauth s' = pu_oauth s \<and> (\<nexists>x. ans = IntentAnswer x) \<and>
    (pu_whole s' \<noteq> pu_whole s \<longrightarrow> (\<exists>cam. opens (pu_key s) (pe_now en) (pq_head p) cam))"
proof (cases "mp4_handler (pu_key s) (pe_now en) (pq_head p)")
  case (Inr r')
  from mp4_handler_opens [OF Inr route_of_path(6) [OF assms(1)]] obtain cam rest where
    o: "opens (pu_key s) (pe_now en) (pq_head p) cam" "CHR ''/'' \<notin> set cam" "r' = (pq_head p)\<lparr>path := ''/'' @ cam @ ''/'' @ rest\<rparr>"
    by (elim exE conjE) (rule that)
  then have path: "path r' = ''/'' @ cam @ ''/'' @ rest" by simp
  let ?src = "br_src (sys_bridge (wh_sys (pu_whole s)))"
  obtain y t where y: "mp4_serve (rtsp_url_of ?src) r' (sys_mp4 (wh_sys (pu_whole s))) = (y, t)" by fastforce
  have ans: "ans = (case y of Inl x \<Rightarrow> Plain x | Inr (m, sub) \<Rightarrow> ToMp4 m sub)"
    and s': "s' = s\<lparr>pu_whole := (pu_whole s)\<lparr>wh_sys := snd (sys_step rc (Mp4Request r') (wh_sys (pu_whole s)))\<rparr>\<rparr>"
    using assms Inr y by (simp_all add: public_serve_def Let_def)
  have "media_of (pu_whole s') = media_of (pu_whole s)" unfolding s' by (simp add: media_of_tables del: sys_step.simps)
  from muxer_route [OF o(1) ans _ _ this] mp4_serve_path [OF path o(2)] y show ?thesis using o(1) s' by fastforce
qed (use assms in \<open>auto simp: public_serve_def reaches_def\<close>)

lemma other_routes:
  assumes "route_of True True (path (pq_head p)) \<notin> {SignalRoute, HlsRoute, Mp4Route}" and "public_serve rc en p s = (ans, s')"
  shows "pu_whole s' = pu_whole s \<and> handed_over ans = None \<and>
    (pu_oauth s' \<noteq> pu_oauth s \<longrightarrow> path (pq_head p) \<in> {''/oauth/authorize'', ''/oauth/token''}) \<and>
    (\<forall>x. ans = IntentAnswer x \<longrightarrow> s' = s \<and> path (pq_head p) = ''/smarthome'' \<and>
       (\<exists>r'. auth_middleware (pu_oauth s) (pe_now en) (pq_head p) = Inr r'))"
  using assms route_of_path(1-3)
  by (cases "route_of True True (path (pq_head p))") (auto simp: public_serve_def Let_def split: prod.splits sum.splits)

section \<open>Properties\<close>

text \<open>
  C5: what a request from the internet can reach, over all routes. It opens or ends WebRTC sessions, or is
  handed to a muxer, only with an unexpired token signed for a camera that is exposed at that moment,
  and a muxer it is handed to dials that camera's current URL; without a token it does not even touch
  the muxer tables. (A request is handled in one go here; \<open>session_dials_exposed_camera\<close> has the steps of a signaling
  handler apart.) It gets an intent answered only with a bearer token that is valid at that moment, and that
  changes nothing. And only the two account linking routes change the account linking.
\<close>

theorem public_routes_guarded:
  assumes "public_serve rc en p s = (ans, s')"
  shows "(reaches en p s ans s' \<longrightarrow> by_right en p s ans) \<and>
    (pu_whole s' \<noteq> pu_whole s \<longrightarrow> path (pq_head p) = ''/webrtc/signal'' \<or>
       (\<exists>cam. opens (pu_key s) (pe_now en) (pq_head p) cam)) \<and>
    (path (pq_head p) = ''/webrtc/signal'' \<longrightarrow> sys_hls (wh_sys (pu_whole s')) = sys_hls (wh_sys (pu_whole s)) \<and>
       sys_mp4 (wh_sys (pu_whole s')) = sys_mp4 (wh_sys (pu_whole s))) \<and>
    (\<forall>x. ans = IntentAnswer x \<longrightarrow> s' = s \<and> path (pq_head p) = ''/smarthome'' \<and>
       (\<exists>tok. header (pq_head p) ''Authorization'' = ''Bearer '' @ tok \<and> validate (pu_oauth s) (pe_now en) tok)) \<and>
    (pu_oauth s' \<noteq> pu_oauth s \<longrightarrow> path (pq_head p) \<in> {''/oauth/authorize'', ''/oauth/token''})"
proof (cases "route_of True True (path (pq_head p)) \<in> {SignalRoute, HlsRoute, Mp4Route}")
  case True
  have np: "path (pq_head p) \<noteq> ''/webrtc/signal''" if "route_of True True (path (pq_head p)) \<in> {HlsRoute, Mp4Route}"
    using that by (auto simp: route_of_def split: if_splits)
  from True consider "route_of True True (path (pq_head p)) = SignalRoute" | "route_of True True (path (pq_head p)) = HlsRoute" |
    "route_of True True (path (pq_head p)) = Mp4Route" by blast
  then show ?thesis
  proof cases
    case 1
    from signal_route [OF this assms] route_of_path(4) [OF this] show ?thesis by simp
  next
    case 2
    from hls_route [OF this assms] np 2 show ?thesis by simp
  next
    case 3
    from mp4_route [OF this assms] np 3 show ?thesis by simp
  qed
next
  case False
  note o = other_routes [OF False assms]
  have "\<exists>tok. header (pq_head p) ''Authorization'' = ''Bearer '' @ tok \<and> validate (pu_oauth s) (pe_now en) tok"
    if "auth_middleware (pu_oauth s) (pe_now en) (pq_head p) = Inr r'" for r'
    using that bearer_checked by blast
  with o show ?thesis by (auto simp: reaches_def)
qed

text \<open>A player opens the playlist of the camera \<open>cam\<close>.\<close>

definition ex_public :: public where
  "ex_public =
     \<lparr>pu_base = ''https://b'', pu_key = [1], pu_agent = [], pu_oauth = new_oauth ''id'' ''sec'' ''pw'' [2], pu_whole = ex_found\<rparr>"

definition ex_player :: public_request where
  "ex_player =
     \<lparr>pq_head = (ex_get [])\<lparr>path := ''/hls/'' @ ''cam'' @ ''/'' @ format_int 60 @ ''/'' @ sign_token [1] ''cam'' 60 @ ''/'' @ ''index.m3u8''\<rparr>,
      pq_form = (\<lambda>_. None), pq_json = (\<lambda>_. None), pq_intent = (\<lambda>_. None)\<rparr>"

definition ex_public_env :: public_env where
  "ex_public_env =
     \<lparr>pe_now = 0, pe_now2 = 0, pe_code = [], pe_nonce1 = None, pe_nonce2 = None, pe_url_parse = (\<lambda>_. None), pe_pion = ex_pc None,
      pe_cameras = ex_io\<rparr>"

lemma ex_player_served: "handed_over (fst (public_serve ex_rc ex_public_env ex_player ex_public)) \<noteq> None"
proof -
  let ?r = "pq_head ex_player" let ?r' = "(ex_get [])\<lparr>path := ''/'' @ ''cam'' @ ''/'' @ ''index.m3u8''\<rparr>"
  let ?y = "wh_sys ex_found"
  have path: "path ?r = ''/hls/'' @ ''cam'' @ ''/'' @ format_int 60 @ ''/'' @ sign_token [1] ''cam'' 60 @ ''/'' @ ''index.m3u8''"
    by (simp add: ex_player_def)
  have "has_prefix (path ?r) ''/hls/''" unfolding path by (rule has_prefix_append)
  then have route: "route_of True True (path ?r) = HlsRoute" by (rule route_of_hls)
  have t: "trim_prefix (path ?r) ''/hls/'' = ''cam'' @ ''/'' @ format_int 60 @ ''/'' @ sign_token [1] ''cam'' 60 @ ''/'' @ ''index.m3u8''"
    unfolding path by (rule trim_prefix_append)
  have "parse_int64 (format_int 60) = Some 60" by (rule parse_int64_format_int) (simp add: int64_def)
  then have h: "hls_handler [1] 0 ?r = Inr ?r'"
    unfolding hls_handler_Inr t
    by (intro exI [of _ "''cam''"] exI [of _ "format_int 60"] exI [of _ "''index.m3u8''"] exI [of _ 60] conjI)
      (simp_all add: unix_def ex_player_def)
  have "fst (hls_serve (rtsp_url_of (br_src (sys_bridge ?y))) ?r' (sys_hls ?y)) =
      Inr (\<lparr>mx_stream = ''cam'', mx_url = ''rtsps://nvr:7441/al'', mx_verify = False, mx_obj = 0\<rparr>, ''/index.m3u8'')"
    by code_simp
  then show ?thesis
    using h route by (auto simp: public_serve_def ex_public_env_def ex_public_def Let_def)
qed

theorem public_routes_guarded_witness:
  "\<exists>cam. opens [1] 0 (pq_head ex_player) cam \<and> is_allowed (br_src (sys_bridge (wh_sys ex_found))) cam"
proof -
  have "reaches ex_public_env ex_player ex_public (fst (public_serve ex_rc ex_public_env ex_player ex_public))
      (snd (public_serve ex_rc ex_public_env ex_player ex_public))"
    using ex_player_served by (simp add: reaches_def)
  with public_routes_guarded [OF prod.collapse [symmetric]]
  have "by_right ex_public_env ex_player ex_public (fst (public_serve ex_rc ex_public_env ex_player ex_public))" by blast
  then show ?thesis by (auto simp: by_right_def ex_public_def ex_public_env_def Let_def)
qed

text \<open>
  The listener does nothing that its parts do not: what a request does to the bridge is one step of
  the whole or the three of a signaling handler, what it does to the account linking at most one step of that, so that the
  theorems on their runs hold of every run of the listener.
\<close>

theorem public_refines_parts:
  assumes "public_serve rc en p s = (ans, s')"
  shows "\<exists>es os. length es + 3 * length os \<le> 3 \<and> pu_whole s' = whole_run rc (pe_cameras en) (pu_key s) es (pu_whole s) \<and>
    pu_oauth s' = snd (oauth_run (pe_url_parse en) (pu_oauth s) os) \<and>
    pu_base s' = pu_base s \<and> pu_key s' = pu_key s \<and> pu_agent s' = pu_agent s"
proof -
  let ?P = "\<lambda>es os. length es + 3 * length os \<le> 3 \<and> pu_whole s' = whole_run rc (pe_cameras en) (pu_key s) es (pu_whole s) \<and>
    pu_oauth s' = snd (oauth_run (pe_url_parse en) (pu_oauth s) os) \<and>
    pu_base s' = pu_base s \<and> pu_key s' = pu_key s \<and> pu_agent s' = pu_agent s"
  let ?whole = "\<lambda>e. ?P [e] []" and ?oauth = "\<lambda>e. ?P [] [e]"
  have none: "?P [] []" if "s' = s" using that by (simp add: whole_run_def)
  have "?P [] [] \<or> (\<exists>es. ?P es []) \<or> Ex ?whole \<or> Ex ?oauth"
  proof (cases "route_of True True (path (pq_head p))")
    case AuthorizeRoute
    then have "?oauth (EvAuthorize (pe_now en) (pe_now2 en) (pe_code en) (limit_body max_oauth_body p))"
      using assms by (auto simp: public_serve_def whole_run_def Let_def split: prod.splits)
    then show ?thesis by blast
  next
    case TokenRoute
    then have "?oauth (EvToken (pe_now en) (pe_nonce1 en) (pe_nonce2 en) (limit_body max_oauth_body p))"
      using assms by (auto simp: public_serve_def whole_run_def Let_def split: prod.splits)
    then show ?thesis by blast
  next
    case SignalRoute
    let ?es = "signal_events (length (wh_flights (pu_whole s))) (pe_now en) (pe_pion en) (limit_body max_signal_body p)"
    from SignalRoute have "?P ?es []"
      using assms by (auto simp: public_serve_def signal_events_def Let_def)
    then show ?thesis by blast
  next
    case HlsRoute
    show ?thesis
    proof (cases "hls_handler (pu_key s) (pe_now en) (pq_head p)")
      case (Inr r')
      then have "?whole (Sys (HlsRequest r'))" using assms HlsRoute by (auto simp: public_serve_def whole_run_def Let_def)
      then show ?thesis by blast
    next
      case (Inl x)
      then have "s' = s" using assms HlsRoute by (simp add: public_serve_def)
      from none [OF this] show ?thesis by (rule disjI1)
    qed
  next
    case Mp4Route
    show ?thesis
    proof (cases "mp4_handler (pu_key s) (pe_now en) (pq_head p)")
      case (Inr r')
      then have "?whole (Sys (Mp4Request r'))" using assms Mp4Route by (auto simp: public_serve_def whole_run_def Let_def)
      then show ?thesis by blast
    next
      case (Inl x)
      then have "s' = s" using assms Mp4Route by (simp add: public_serve_def)
      from none [OF this] show ?thesis by (rule disjI1)
    qed
  next
    case SmartHomeRoute
    then have "s' = s" using assms by (auto simp: public_serve_def Let_def split: sum.splits)
    from none [OF this] show ?thesis by (rule disjI1)
  next
    case HealthRoute
    then have "s' = s" using assms by (simp add: public_serve_def)
    from none [OF this] show ?thesis by (rule disjI1)
  next
    case NoRoute
    then have "s' = s" using assms by (simp add: public_serve_def)
    from none [OF this] show ?thesis by (rule disjI1)
  qed
  then show ?thesis by blast
qed

end
