(* ===== verification/ConsentPage.thy ===== *)
theory ConsentPage
  imports OAuth
begin

text \<open>
  The text of the consent page, \<open>consentHTML\<close> of \<open>internal/oauth/server.go\<close> executed by
  \<open>html/template\<close>. The request decides three hidden fields of the form, and anybody can write the
  request; the lemmas show that the escaping keeps the markup as it is and that plain fields come back
  with the form as they were. What a browser does with the page is no code of the program but a specification, written from
  the HTML standard for the constructs this page uses, byte by byte; the decoding of UTF-8 is left out.
\<close>

section \<open>The template\<close>

text \<open>
  \<open>htmlReplacementTable\<close> of \<open>html/template\<close>, which its escapers for text and for quoted attribute
  values share; bytes outside the table are written as they are.
\<close>

definition html_entities :: "(char \<times> string) list" where
  "html_entities =
     [(CHR 0x22, ''#34;''), (CHR 0x26, ''amp;''), (CHR 0x27, ''#39;''), (CHR ''+'', ''#43;''), (CHR ''<'', ''lt;''),
      (CHR ''>'', ''gt;'')]"

definition html_escape_char :: "char \<Rightarrow> string" where
  "html_escape_char c =
     (if c = CHR 0x00 then [CHR 0xEF, CHR 0xBF, CHR 0xBD]
      else case map_of html_entities c of Some e \<Rightarrow> CHR 0x26 # e | None \<Rightarrow> [c])"

definition html_escape :: "string \<Rightarrow> string" where
  "html_escape s = concat (map html_escape_char s)"

definition nl :: string where "nl = [CHR 0x0A]"

definition page_head :: string where
  \<open>page_head =
     ''<!doctype html>'' @ nl @
     ''<html><head><meta charset="utf-8"><title>Authorize</title>'' @ nl @
     ''<style>body{font-family:sans-serif;max-width:420px;margin:4em auto;padding:1em}'' @ nl @
     ''input{font-size:1em;padding:.5em;width:100%;box-sizing:border-box;margin:.5em 0}'' @ nl @
     ''button{font-size:1em;padding:.6em 1.2em;background:#1a73e8;color:#fff;border:0;border-radius:4px;cursor:pointer}'' @ nl @
     ''.err{color:#c00;margin:.5em 0}</style></head>'' @ nl @
     ''<body>'' @ nl @
     ''<h2>Link Google Home to your cameras</h2>'' @ nl @
     ''<p>Enter the consent password to authorize Google to access your UniFi Protect cameras.</p>'' @ nl\<close>

definition page_form :: string where
  \<open>page_form =
     nl @ ''<form method="POST">'' @ nl @
     ''<input type="password" name="password" placeholder="Consent password" autofocus required>'' @ nl\<close>

definition page_tail :: string where
  \<open>page_tail =
     ''<button type="submit">Authorize</button>'' @ nl @
     ''</form>'' @ nl @
     ''</body></html>''\<close>

definition hidden_input :: "string \<Rightarrow> string \<Rightarrow> string" where
  \<open>hidden_input name v = ''<input type="hidden" name="'' @ name @ ''" value="'' @ html_escape v @ ''">'' @ nl\<close>

definition consent_page :: "consent_data \<Rightarrow> string" where
  \<open>consent_page d =
     page_head @
     (if cd_error d \<noteq> [] then ''<div class="err">'' @ html_escape (cd_error d) @ ''</div>'' else []) @
     page_form @
     hidden_input ''client_id'' (cd_client_id d) @
     hidden_input ''redirect_uri'' (cd_redirect_uri d) @
     hidden_input ''state'' (cd_state d) @
     page_tail\<close>

section \<open>The browser\<close>

text \<open>Character references are replaced in text and in attribute values.\<close>

fun entity :: "(char \<times> string) list \<Rightarrow> string \<Rightarrow> (char \<times> string) option" where
  "entity [] s = None"
| "entity ((c, e) # es) s = (if take (length e) s = e then Some (c, drop (length e) s) else entity es s)"

lemma entity_shorter: "entity es s = Some (c, r) \<Longrightarrow> length r \<le> length s"
  by (induction es s rule: entity.induct) (auto split: if_splits)

function html_unescape :: "string \<Rightarrow> string" where
  "html_unescape [] = []"
| "html_unescape (c # s) =
     (if c = CHR 0x26
      then (case entity html_entities s of Some (d, r) \<Rightarrow> d # html_unescape r | None \<Rightarrow> c # html_unescape s)
      else c # html_unescape s)"
  by pat_completeness auto

termination by (relation "measure length") (auto dest: entity_shorter)

text \<open>
  The tokenizer, as far as this page needs it: text, tags, and attribute values in double quotes. The
  markup of a tag is what stands outside the quotes.
\<close>

datatype html_mode = InText string | InTag string | InValue string
datatype html_token = Words string | Markup string | Value string

fun html_run :: "html_mode \<Rightarrow> string \<Rightarrow> html_token list \<times> html_mode" where
  "html_run m [] = ([], m)"
| "html_run (InText a) (c # s) =
     (if c = CHR ''<'' then apfst ((#) (Words (html_unescape (rev a)))) (html_run (InTag [c]) s)
      else html_run (InText (c # a)) s)"
| "html_run (InTag a) (c # s) =
     (if c = CHR 0x22 then apfst ((#) (Markup (rev a))) (html_run (InValue []) s)
      else if c = CHR ''>'' then apfst ((#) (Markup (rev (c # a)))) (html_run (InText []) s)
      else html_run (InTag (c # a)) s)"
| "html_run (InValue a) (c # s) =
     (if c = CHR 0x22 then apfst ((#) (Value (html_unescape (rev a)))) (html_run (InTag []) s)
      else html_run (InValue (c # a)) s)"

definition html_tokens :: "string \<Rightarrow> html_token list" where
  "html_tokens s =
     (case html_run (InText []) s of (ts, m) \<Rightarrow>
        ts @ (case m of InText a \<Rightarrow> [Words (html_unescape (rev a))] | InTag a \<Rightarrow> [Markup (rev a)]
              | InValue a \<Rightarrow> [Value (html_unescape (rev a))]))"

text \<open>The value of the input with a name, and the markup alone.\<close>

fun field_value :: "html_token list \<Rightarrow> string \<Rightarrow> string option" where
  "field_value [] n = None"
| "field_value (Value a # Markup e # Value v # ts) n =
     (if a = n \<and> e = '' value='' then Some v else field_value (Markup e # Value v # ts) n)"
| "field_value (t # ts) n = field_value ts n"

fun markup_of :: "html_token list \<Rightarrow> string list" where
  "markup_of [] = []"
| "markup_of (Markup a # ts) = a # markup_of ts"
| "markup_of (t # ts) = markup_of ts"

text \<open>
  Newlines: before tokenizing, CR LF and CR become LF; in a submitted form, each of the three becomes
  CR LF.
\<close>

fun lf_newlines :: "string \<Rightarrow> string" where
  "lf_newlines [] = []"
| "lf_newlines [c] = [if c = CHR 0x0D then CHR 0x0A else c]"
| "lf_newlines (c # d # s) =
     (if c \<noteq> CHR 0x0D then c # lf_newlines (d # s)
      else if d = CHR 0x0A then CHR 0x0A # lf_newlines s
      else CHR 0x0A # lf_newlines (d # s))"

definition crlf_newlines :: "string \<Rightarrow> string" where
  "crlf_newlines s = concat (map (\<lambda>c. if c = CHR 0x0A then [CHR 0x0D, CHR 0x0A] else [c]) (lf_newlines s))"

text \<open>What the browser makes of the page, and what it submits as the value of a field.\<close>

definition browser_tokens :: "string \<Rightarrow> html_token list" where
  "browser_tokens page = html_tokens (lf_newlines page)"

definition posted_field :: "string \<Rightarrow> string \<Rightarrow> string option" where
  "posted_field page n = map_option crlf_newlines (field_value (browser_tokens page) n)"

section \<open>Lemmas\<close>

lemma entity_of_escape:
  "map_of html_entities c = Some e \<Longrightarrow> entity html_entities (e @ r) = Some (c, r)"
  by (auto simp: html_entities_def split: if_splits)

lemma html_roundtrip: "CHR 0x00 \<notin> set s \<Longrightarrow> html_unescape (html_escape s) = s"
proof (induction s)
  case (Cons c s)
  show ?case
  proof (cases "map_of html_entities c")
    case None
    then have "c \<noteq> CHR 0x26" by (auto simp: html_entities_def)
    with None Cons show ?thesis by (auto simp: html_escape_def html_escape_char_def)
  next
    case (Some e)
    then show ?thesis
      using Cons entity_of_escape [OF Some, of "html_escape s"] by (auto simp: html_escape_def html_escape_char_def)
  qed
qed (simp add: html_escape_def)

lemma html_escape_harmless: "c \<in> set (html_escape s) \<Longrightarrow> c \<noteq> CHR 0x22 \<and> c \<noteq> CHR ''<'' \<and> c \<noteq> CHR ''>''"
  by (auto simp: html_escape_def html_escape_char_def html_entities_def split: if_splits)

lemma html_run_append:
  "html_run m (a @ b) = (case html_run m a of (ts, m') \<Rightarrow> apfst ((@) ts) (html_run m' b))"
  by (induction m a rule: html_run.induct) (auto simp: apfst_def map_prod_def split: prod.splits)

lemma html_run_quiet:
  "CHR 0x22 \<notin> set s \<Longrightarrow> html_run (InValue a) (s @ r) = html_run (InValue (rev s @ a)) r"
  "CHR ''<'' \<notin> set s \<Longrightarrow> html_run (InText a) (s @ r) = html_run (InText (rev s @ a)) r"
  by (induction s arbitrary: a) auto

lemma html_run_escaped:
  "html_run (InValue a) (html_escape s @ r) = html_run (InValue (rev (html_escape s) @ a)) r"
  "html_run (InText a) (html_escape s @ r) = html_run (InText (rev (html_escape s) @ a)) r"
  by (intro html_run_quiet; use html_escape_harmless in blast)+

definition hidden_tokens :: "string \<Rightarrow> string \<Rightarrow> html_token list" where
  "hidden_tokens n v =
     [Markup ''<input type='', Value ''hidden'', Markup '' name='', Value n, Markup '' value='',
      Value (html_unescape (html_escape v)), Markup ''>'']"

lemma html_run_hidden:
  assumes "CHR 0x22 \<notin> set n" and "html_unescape n = n"
  shows "html_run (InText a) (hidden_input n v @ r) =
    apfst (\<lambda>ts. Words (html_unescape (rev a)) # hidden_tokens n v @ ts) (html_run (InText (rev nl)) r)"
  using html_run_quiet(1) [OF assms(1), of "[]"] html_run_escaped(1) [of "[]" v]
  by (simp add: hidden_input_def hidden_tokens_def nl_def assms(2) apfst_def map_prod_def split: prod.split)

text \<open>The tokens of the constant parts.\<close>

lemma page_parts_run:
  "snd (html_run (InText []) page_head) = InText (rev nl)"
  "snd (html_run (InText []) page_form) = InText (rev nl)"
  "snd (html_run (InText (rev nl)) page_form) = InText (rev nl)"
  "snd (html_run (InText (rev nl)) page_tail) = InText []"
  by code_simp+

definition error_tokens :: "string \<Rightarrow> html_token list" where
  "error_tokens e =
     (if e = [] then fst (html_run (InText (rev nl)) page_form)
      else [Words nl, Markup ''<div class='', Value ''err'', Markup ''>'', Words (html_unescape (html_escape e)), Markup ''</div>''] @
        fst (html_run (InText []) page_form))"

lemma html_run_part:
  "snd (html_run m a) = m' \<Longrightarrow> html_run m (a @ r) = apfst ((@) (fst (html_run m a))) (html_run m' r)"
  by (auto simp: html_run_append split: prod.split)

lemma html_run_error:
  "html_run (InText (rev nl))
     ((if e \<noteq> [] then ''<div class='' @ [CHR 0x22] @ ''err'' @ [CHR 0x22] @ ''>'' @ html_escape e @ ''</div>'' else []) @ page_form @ r) =
   apfst ((@) (error_tokens e)) (html_run (InText (rev nl)) r)"
proof (cases "e = []")
  case True
  then show ?thesis using html_run_part [OF page_parts_run(3), of r] by (simp add: error_tokens_def)
next
  case False
  have "html_run (InText []) (html_escape e @ ''</div>'' @ page_form @ r) =
      apfst (\<lambda>ts. Words (html_unescape (html_escape e)) # Markup ''</div>'' # fst (html_run (InText []) page_form) @ ts)
        (html_run (InText (rev nl)) r)"
    using html_run_escaped(2) [of "[]" e] html_run_part [OF page_parts_run(2), of r]
    by (simp add: apfst_def map_prod_def split: prod.split)
  moreover have "html_unescape nl = nl" by code_simp
  ultimately show ?thesis
    using False by (simp add: error_tokens_def apfst_def map_prod_def split: prod.split)
qed

lemma page_tokens:
  "html_tokens (consent_page d) =
     fst (html_run (InText []) page_head) @ error_tokens (cd_error d) @
     Words nl # hidden_tokens ''client_id'' (cd_client_id d) @
     Words nl # hidden_tokens ''redirect_uri'' (cd_redirect_uri d) @
     Words nl # hidden_tokens ''state'' (cd_state d) @ fst (html_run (InText (rev nl)) page_tail) @ [Words []]"
proof -
  have n: "html_unescape ''client_id'' = ''client_id''" "html_unescape ''redirect_uri'' = ''redirect_uri''"
    "html_unescape ''state'' = ''state''" "html_unescape nl = nl" by code_simp+
  obtain ts where tail: "html_run (InText (rev nl)) page_tail = (ts, InText [])"
    using page_parts_run(4) by (cases "html_run (InText (rev nl)) page_tail") simp
  let ?r = "hidden_input ''client_id'' (cd_client_id d) @ hidden_input ''redirect_uri'' (cd_redirect_uri d) @
      hidden_input ''state'' (cd_state d) @ page_tail"
  have "html_run (InText (rev nl)) ?r =
    (Words nl # hidden_tokens ''client_id'' (cd_client_id d) @
     Words nl # hidden_tokens ''redirect_uri'' (cd_redirect_uri d) @
     Words nl # hidden_tokens ''state'' (cd_state d) @ fst (html_run (InText (rev nl)) page_tail), InText [])"
    using tail by (simp add: html_run_hidden n)
  moreover have "consent_page d = page_head @
     (if cd_error d \<noteq> [] then ''<div class='' @ [CHR 0x22] @ ''err'' @ [CHR 0x22] @ ''>'' @ html_escape (cd_error d) @ ''</div>'' else []) @
     page_form @ ?r"
    by (simp add: consent_page_def)
  ultimately show ?thesis
    using html_run_part [OF page_parts_run(1)] html_run_error [of "cd_error d" ?r]
    by (simp add: html_tokens_def)
qed

section \<open>Properties\<close>

lemma field_value_step: "t \<noteq> Value n \<Longrightarrow> field_value (t # ts) n = field_value ts n"
  by (cases "(t # ts, n)" rule: field_value.cases) auto

lemma field_value_skip: "Value n \<notin> set ts \<Longrightarrow> field_value (ts @ us) n = field_value us n"
proof (induction ts)
  case (Cons t ts)
  then have "t \<noteq> Value n" by auto
  from field_value_step [OF this] Cons show ?case by simp
qed simp

lemma field_value_hidden:
  "n \<noteq> ''hidden'' \<Longrightarrow> field_value (hidden_tokens n v @ us) n = Some (html_unescape (html_escape v))"
  "n \<noteq> k \<Longrightarrow> k \<noteq> ''hidden'' \<Longrightarrow> field_value (hidden_tokens n v @ Words w # us) k = field_value us k"
  by (simp_all add: hidden_tokens_def field_value_step)

lemma page_fields:
  "field_value (html_tokens (consent_page d)) ''client_id'' = Some (html_unescape (html_escape (cd_client_id d)))"
  "field_value (html_tokens (consent_page d)) ''redirect_uri'' = Some (html_unescape (html_escape (cd_redirect_uri d)))"
  "field_value (html_tokens (consent_page d)) ''state'' = Some (html_unescape (html_escape (cd_state d)))"
proof -
  have h: "list_all (\<lambda>n. Value n \<notin> set (fst (html_run (InText []) page_head)) \<and>
      Value n \<notin> set (fst (html_run (InText (rev nl)) page_form)) \<and> Value n \<notin> set (fst (html_run (InText []) page_form)))
      [''client_id'', ''redirect_uri'', ''state'']" by code_simp
  have e: "list_all (\<lambda>n. Value n \<notin> set (error_tokens e)) [''client_id'', ''redirect_uri'', ''state'']" for e
    using h by (simp add: error_tokens_def)
  show "field_value (html_tokens (consent_page d)) ''client_id'' = Some (html_unescape (html_escape (cd_client_id d)))"
    "field_value (html_tokens (consent_page d)) ''redirect_uri'' = Some (html_unescape (html_escape (cd_redirect_uri d)))"
    "field_value (html_tokens (consent_page d)) ''state'' = Some (html_unescape (html_escape (cd_state d)))"
    using h e [of "cd_error d"] by (simp_all add: page_tokens field_value_skip field_value_hidden field_value_step)
qed

lemma markup_append: "markup_of (a @ b) = markup_of a @ markup_of b"
  by (induction a rule: markup_of.induct) simp_all

text \<open>The newlines of the page are those of its fields.\<close>

lemma lf_same: "CHR 0x0D \<notin> set s \<Longrightarrow> lf_newlines s = s"
  by (induction s rule: lf_newlines.induct) auto

lemma lf_before: "CHR 0x0D \<notin> set a \<Longrightarrow> lf_newlines (a @ b) = a @ lf_newlines b"
proof (induction a)
  case (Cons c a)
  then have "lf_newlines (c # (a @ b)) = c # lf_newlines (a @ b)" by (cases "a @ b") auto
  with Cons show ?case by simp
qed simp

lemma lf_after: "b = [] \<or> hd b \<noteq> CHR 0x0A \<Longrightarrow> lf_newlines (a @ b) = lf_newlines a @ lf_newlines b"
proof (induction a rule: lf_newlines.induct)
  case (2 c)
  then show ?case by (cases b) auto
qed auto

lemma html_escape_char_head:
  "html_escape_char c \<noteq> []" "c \<noteq> CHR 0x0A \<Longrightarrow> hd (html_escape_char c) \<noteq> CHR 0x0A"
  "c \<noteq> CHR 0x0D \<Longrightarrow> CHR 0x0D \<notin> set (html_escape_char c)"
  by (auto simp: html_escape_char_def html_entities_def)

lemma html_escape_Cons: "html_escape (c # s) = html_escape_char c @ html_escape s"
  by (simp add: html_escape_def)

lemma lf_escape: "lf_newlines (html_escape s) = html_escape (lf_newlines s)"
proof (induction s rule: lf_newlines.induct)
  case (2 c)
  then show ?case by (cases "c = CHR 0x0D") (auto simp: html_escape_def html_escape_char_def html_entities_def)
next
  case (3 c d s)
  have cr: "html_escape_char (CHR 0x0D) = [CHR 0x0D]" "html_escape_char (CHR 0x0A) = [CHR 0x0A]"
    by (simp_all add: html_escape_char_def html_entities_def)
  show ?case
  proof (cases "c = CHR 0x0D")
    case False
    have "lf_newlines (html_escape (c # d # s)) = html_escape_char c @ lf_newlines (html_escape (d # s))"
      unfolding html_escape_Cons [of c] by (rule lf_before [OF html_escape_char_head(3) [OF False]])
    with 3(1) False show ?thesis by (simp add: html_escape_Cons)
  next
    case True
    show ?thesis
    proof (cases "d = CHR 0x0A")
      case d: True
      with 3(2) True show ?thesis by (simp add: html_escape_Cons cr)
    next
      case False
      obtain x xs where x: "html_escape (d # s) = x # xs" "x \<noteq> CHR 0x0A"
        using html_escape_char_head(1) [of d] html_escape_char_head(2) [OF False]
        by (cases "html_escape_char d") (auto simp: html_escape_Cons)
      with 3(3) True False have "lf_newlines (x # xs) = html_escape (lf_newlines (d # s))" by simp
      moreover have "html_escape (c # d # s) = CHR 0x0D # x # xs"
        unfolding True html_escape_Cons [of "CHR 0x0D" "d # s"] x(1) cr by simp
      ultimately show ?thesis using x(2) True False by (simp add: html_escape_Cons [of "CHR 0x0A"] cr)
    qed
  qed
qed (simp add: html_escape_def)

lemma lf_hidden:
  assumes "CHR 0x0D \<notin> set n"
  shows "lf_newlines (hidden_input n v @ r) = hidden_input n (lf_newlines v) @ lf_newlines r"
proof -
  let ?a = "''<input type='' @ [CHR 0x22] @ ''hidden'' @ [CHR 0x22] @ '' name='' @ [CHR 0x22] @ n @ [CHR 0x22] @ '' value='' @ [CHR 0x22]"
  let ?z = "CHR 0x22 # CHR ''>'' # nl"
  have h: "hidden_input n u = ?a @ html_escape u @ ?z" for u by (simp add: hidden_input_def)
  have "lf_newlines (?a @ html_escape v @ ?z @ r) = ?a @ lf_newlines (html_escape v @ ?z @ r)"
    by (rule lf_before) (use assms in simp)
  also have "lf_newlines (html_escape v @ ?z @ r) = html_escape (lf_newlines v) @ lf_newlines (?z @ r)"
    using lf_after [of "?z @ r" "html_escape v"] by (simp add: lf_escape)
  also have "lf_newlines (?z @ r) = ?z @ lf_newlines r" by (rule lf_before) (simp add: nl_def)
  finally show ?thesis by (simp add: h)
qed

lemma lf_page:
  "lf_newlines (consent_page d) =
     consent_page \<lparr>cd_client_id = lf_newlines (cd_client_id d), cd_redirect_uri = lf_newlines (cd_redirect_uri d),
       cd_state = lf_newlines (cd_state d), cd_error = lf_newlines (cd_error d)\<rparr>"
proof -
  have cr: "CHR 0x0D \<notin> set page_head" "CHR 0x0D \<notin> set page_form" "CHR 0x0D \<notin> set page_tail" by code_simp+
  let ?fields = "\<lambda>d. hidden_input ''client_id'' (cd_client_id d) @ hidden_input ''redirect_uri'' (cd_redirect_uri d) @
    hidden_input ''state'' (cd_state d) @ page_tail"
  let ?d' = "\<lparr>cd_client_id = lf_newlines (cd_client_id d), cd_redirect_uri = lf_newlines (cd_redirect_uri d),
       cd_state = lf_newlines (cd_state d), cd_error = lf_newlines (cd_error d)\<rparr>"
  have f: "lf_newlines (?fields d) = ?fields ?d'"
    using lf_hidden [of "''client_id''"] lf_hidden [of "''redirect_uri''"] lf_hidden [of "''state''"] lf_same [OF cr(3)] by simp
  have b: "lf_newlines (page_form @ ?fields d) = page_form @ ?fields ?d'" unfolding lf_before [OF cr(2)] f ..
  show ?thesis
  proof (cases "cd_error d = []")
    case True
    then have "consent_page d = page_head @ page_form @ ?fields d" by (simp add: consent_page_def)
    then show ?thesis using lf_before [OF cr(1), of "page_form @ ?fields d"] True b by (simp add: consent_page_def)
  next
    case False
    let ?a = "''<div class='' @ [CHR 0x22] @ ''err'' @ [CHR 0x22] @ ''>''"
    let ?e = "html_escape (cd_error d)" let ?r = "page_form @ ?fields d"
    have p: "consent_page d = page_head @ ?a @ ?e @ ''</div>'' @ ?r" using False by (simp add: consent_page_def)
    have "lf_newlines (?e @ ''</div>'' @ ?r) = html_escape (lf_newlines (cd_error d)) @ lf_newlines (''</div>'' @ ?r)"
      using lf_after [of "''</div>'' @ ?r" ?e] by (simp add: lf_escape)
    moreover have "lf_newlines (''</div>'' @ ?r) = ''</div>'' @ lf_newlines ?r" by (rule lf_before) simp
    moreover have "lf_newlines (?a @ ?e @ ''</div>'' @ ?r) = ?a @ lf_newlines (?e @ ''</div>'' @ ?r)" by (rule lf_before) simp
    moreover have "lf_newlines (cd_error d) \<noteq> []" using False by (cases "cd_error d" rule: lf_newlines.cases) auto
    ultimately show ?thesis unfolding p lf_before [OF cr(1)] using b by (simp add: consent_page_def)
  qed
qed

definition plain_char :: "char \<Rightarrow> bool" where
  "plain_char c \<longleftrightarrow> c \<notin> {CHR 0x00, CHR 0x0A, CHR 0x0D} \<and> of_char c < (128 :: nat)"

text \<open>
  C4: the consent page is what it looks like, whoever wrote the link to it. The markup that a browser sees
  is the same for every request that gets the page, but for the box with the error, so a crafted
  \<open>state\<close> or \<open>redirect_uri\<close> adds no tag and no attribute. And a client, redirect URI or state of
  ASCII characters other than NUL, CR and LF comes back with the form exactly as it was in the request. (A
  NUL, a line break or bytes that are no UTF-8 may come back changed.)
\<close>

theorem consent_page_carries_request:
  assumes "authorize url_parse s now1 now2 rnd r = (Consent code d, s')" and "q = parse_query (raw_query r)"
  shows "markup_of (browser_tokens (consent_page d)) =
      markup_of (browser_tokens (consent_page \<lparr>cd_client_id = [], cd_redirect_uri = [], cd_state = [], cd_error = cd_error d\<rparr>)) \<and>
    list_all (\<lambda>k. list_all plain_char (query_get q k) \<longrightarrow> posted_field (consent_page d) k = Some (query_get q k))
      [''client_id'', ''redirect_uri'', ''state'']"
proof -
  have d: "cd_client_id d = query_get q ''client_id''" "cd_redirect_uri d = query_get q ''redirect_uri''" "cd_state d = query_get q ''state''"
    using assms(1) unfolding assms(2) by (auto simp: authorize_def Let_def split: if_splits option.splits prod.splits)
  have "markup_of (browser_tokens (consent_page d)) =
      markup_of (browser_tokens (consent_page \<lparr>cd_client_id = [], cd_redirect_uri = [], cd_state = [], cd_error = cd_error d\<rparr>))"
    by (simp add: browser_tokens_def lf_page page_tokens markup_append hidden_tokens_def)
  moreover have "crlf_newlines (html_unescape (html_escape (lf_newlines v))) = v" if "list_all plain_char v" for v
  proof -
    have v: "CHR 0x00 \<notin> set v" "CHR 0x0A \<notin> set v" "CHR 0x0D \<notin> set v" using that by (auto simp: list_all_iff plain_char_def)
    have "concat (map (\<lambda>c. if c = CHR 0x0A then [CHR 0x0D, CHR 0x0A] else [c]) v) = v" using v(2) by (induction v) auto
    with v show ?thesis by (simp add: crlf_newlines_def lf_same html_roundtrip)
  qed
  ultimately show ?thesis by (simp add: posted_field_def browser_tokens_def lf_page page_fields d)
qed

text \<open>A state that tries to leave its attribute.\<close>

definition ex_evil :: string where
  "ex_evil = CHR 0x22 # ''><script>alert(1)</script>''"

definition ex_consent_get :: http_request where
  "ex_consent_get =
     \<lparr>req_method = ''GET'', path = ''/oauth/authorize'',
      raw_query = ''client_id=cid&response_type=code&redirect_uri=g&state=%22%3E%3Cscript%3Ealert(1)%3C/script%3E'',
      header = (\<lambda>_. []), remote_addr = [], basic_auth = None, form = None, body_json = None\<rparr>"

theorem consent_page_carries_request_witness:
  "authorize (\<lambda>_. Some ex_url) ex_server 0 0 [] ex_consent_get =
     (Consent 200 \<lparr>cd_client_id = ''cid'', cd_redirect_uri = ''g'', cd_state = ex_evil, cd_error = []\<rparr>, ex_server) \<and>
   posted_field (consent_page \<lparr>cd_client_id = ''cid'', cd_redirect_uri = ''g'', cd_state = ex_evil, cd_error = []\<rparr>)
     ''state'' = Some ex_evil \<and>
   markup_of (browser_tokens (consent_page \<lparr>cd_client_id = ''cid'', cd_redirect_uri = ''g'', cd_state = ex_evil, cd_error = []\<rparr>)) =
   markup_of (browser_tokens (consent_page \<lparr>cd_client_id = [], cd_redirect_uri = [], cd_state = [], cd_error = []\<rparr>))"
proof -
  have q: "parse_query (raw_query ex_consent_get) =
      [(''client_id'', ''cid''), (''response_type'', ''code''), (''redirect_uri'', ''g''), (''state'', ex_evil)]"
    by code_simp
  then have a: "authorize (\<lambda>_. Some ex_url) ex_server 0 0 [] ex_consent_get =
     (Consent 200 \<lparr>cd_client_id = ''cid'', cd_redirect_uri = ''g'', cd_state = ex_evil, cd_error = []\<rparr>, ex_server)"
    by (simp add: authorize_def ex_simps) (simp add: ex_consent_get_def)
  have n: "list_all plain_char ex_evil" by code_simp
  have s: "query_get (parse_query (raw_query ex_consent_get)) ''state'' = ex_evil" by (simp add: q query_get_def)
  from consent_page_carries_request [OF a refl] a s n show ?thesis by simp
qed

end
