(* ===== verification/Mp4Session.thy ===== *)
theory Mp4Session
  imports Rtsp Http
begin

text \<open>
  The life of one progressive MP4 muxer, \<open>Muxer\<close> of \<open>internal/mp4/muxer.go\<close>: starting and stopping
  its RTSP session, subscribers and their channels, the init segment, the fan-out of fragments, the
  read loop and the idle watchdog, as one step per critical section of the muxer's lock. The media
  content is in \<open>Demux\<close>; here a fragment is a send to a channel.
\<close>

section \<open>The muxer\<close>

text \<open>
  \<open>mm_client\<close>, \<open>mm_ctx\<close>: the RTSP client and the context of the session, by the number of the dial
  that made them. \<open>cancelUp\<close> stays set after a stop, as in the code.
\<close>

record mp4_muxer =
  mm_started :: bool
  mm_init :: "bytes option"
  mm_client :: "nat option"
  mm_ctx :: "nat option"
  mm_subs :: "nat list"
  mm_last :: instant

text \<open>What happens to channels, newest first: a fragment of session \<open>n\<close> sent, or the channel closed.\<close>

datatype chan_event = Send nat nat | CloseChan nat

text \<open>
  The muxer with what it has done to the outside: dials so far, RTSP clients open, contexts
  cancelled, sessions that started, read loops still waiting, channels made (with the session each
  registered in), channel events, and the session whose init segment was published last.
\<close>

record mp4_sys =
  ps_mux :: mp4_muxer
  ps_dialed :: nat
  ps_open :: "nat list"
  ps_cancelled :: "nat list"
  ps_sessions :: "nat list"
  ps_readers :: "nat list"
  ps_chans :: "(nat \<times> nat) list"
  ps_events :: "chan_event list"
  ps_init_of :: "nat option"

definition new_mp4 :: mp4_sys where
  "new_mp4 =
     \<lparr>ps_mux = \<lparr>mm_started = False, mm_init = None, mm_client = None, mm_ctx = None, mm_subs = [], mm_last = 0\<rparr>,
      ps_dialed = 0, ps_open = [], ps_cancelled = [], ps_sessions = [], ps_readers = [], ps_chans = [], ps_events = [],
      ps_init_of = None\<rparr>"

definition mp4_idle_timeout :: duration where "mp4_idle_timeout = 30 * second"

definition stop_locked :: "mp4_sys \<Rightarrow> mp4_sys" where
  "stop_locked s =
     (let m = ps_mux s in
      if \<not> mm_started m then s
      else
        s\<lparr>ps_cancelled := (case mm_ctx m of Some n \<Rightarrow> n # ps_cancelled s | None \<Rightarrow> ps_cancelled s),
          ps_open := (case mm_client m of Some n \<Rightarrow> removeAll n (ps_open s) | None \<Rightarrow> ps_open s),
          ps_events := map CloseChan (mm_subs m) @ ps_events s,
          ps_mux := m\<lparr>mm_client := None, mm_subs := [], mm_init := None, mm_started := False\<rparr>\<rparr>)"

text \<open>
  \<open>startLocked\<close>: the calls to the RTSP client are those of \<open>Rtsp.connect\<close>, in the same order and
  with the same closes on error.
\<close>

definition start_locked :: "rtsp_io \<Rightarrow> instant \<Rightarrow> mp4_sys \<Rightarrow> string option \<times> mp4_sys" where
  "start_locked io now s =
     (let n = ps_dialed s; (r, evs) = connect io;
          s1 = s\<lparr>ps_dialed := n + 1, ps_open := (if left_open evs then n # ps_open s else ps_open s)\<rparr>
      in case r of
           Inl e \<Rightarrow> (Some e, s1)
         | Inr fmt \<Rightarrow>
             (None, s1\<lparr>ps_sessions := n # ps_sessions s, ps_readers := n # ps_readers s,
                ps_mux := (ps_mux s)\<lparr>mm_ctx := Some n, mm_client := Some n, mm_started := True, mm_last := now\<rparr>\<rparr>))"

definition ensure_started :: "rtsp_io \<Rightarrow> instant \<Rightarrow> mp4_sys \<Rightarrow> string option \<times> mp4_sys" where
  "ensure_started io now s =
     (if mm_started (ps_mux s) then (None, s)
      else case start_locked io now s of
        (Some e, s1) \<Rightarrow> (Some e, stop_locked s1)
      | (None, s1) \<Rightarrow> (None, s1))"

text \<open>\<open>ServeHTTP\<close> up to \<open>ensureStarted\<close>, then the registration, then the deferred removal.\<close>

definition serve_begin :: "rtsp_io \<Rightarrow> instant \<Rightarrow> mp4_sys \<Rightarrow> http_response option \<times> mp4_sys" where
  "serve_begin io now s =
     (case ensure_started io now (s\<lparr>ps_mux := (ps_mux s)\<lparr>mm_last := now\<rparr>\<rparr>) of
        (Some e, s1) \<Rightarrow> (Some (http_error ''stream unavailable'' 503), s1)
      | (None, s1) \<Rightarrow> (None, s1))"

definition register_sub :: "mp4_sys \<Rightarrow> (http_response + nat) \<times> mp4_sys" where
  "register_sub s =
     (if \<not> mm_started (ps_mux s) then (Inl (http_error ''stream restarting'' 503), s)
      else
        let ch = length (ps_chans s) in
        (Inr ch,
         s\<lparr>ps_chans := ps_chans s @ [(ch, the (mm_ctx (ps_mux s)))],
           ps_mux := (ps_mux s)\<lparr>mm_subs := ch # mm_subs (ps_mux s)\<rparr>\<rparr>))"

definition unregister_sub :: "nat \<Rightarrow> mp4_sys \<Rightarrow> mp4_sys" where
  "unregister_sub ch s = s\<lparr>ps_mux := (ps_mux s)\<lparr>mm_subs := removeAll ch (mm_subs (ps_mux s))\<rparr>\<rparr>"

text \<open>The demultiplexer of session \<open>n\<close>: \<open>publishInit\<close> and \<open>emitFragment\<close>, behind the marshalling.\<close>

definition publish_init :: "nat \<Rightarrow> bytes \<Rightarrow> mp4_sys \<Rightarrow> mp4_sys" where
  "publish_init n b s =
     (if n \<in> set (ps_cancelled s) then s
      else s\<lparr>ps_mux := (ps_mux s)\<lparr>mm_init := Some b\<rparr>, ps_init_of := Some n\<rparr>)"

text \<open>\<open>ready\<close>: the channel has room; a full one is skipped.\<close>

definition emit_fragment :: "nat \<Rightarrow> (nat \<Rightarrow> bool) \<Rightarrow> mp4_sys \<Rightarrow> mp4_sys" where
  "emit_fragment n ready s =
     (if n \<in> set (ps_cancelled s) then s
      else s\<lparr>ps_events := map (\<lambda>ch. Send ch n) (filter ready (mm_subs (ps_mux s))) @ ps_events s\<rparr>)"

text \<open>
  \<open>runReadLoop\<close> of session \<open>n\<close>: it leaves on the cancelled context, or, when the client's \<open>Wait\<close> has
  returned, stops the muxer. With both ready, Go's \<open>select\<close> takes either.
\<close>

definition read_loop_cancelled :: "nat \<Rightarrow> mp4_sys \<Rightarrow> mp4_sys" where
  "read_loop_cancelled n s = s\<lparr>ps_readers := removeAll n (ps_readers s)\<rparr>"

definition read_loop_ended :: "nat \<Rightarrow> mp4_sys \<Rightarrow> mp4_sys" where
  "read_loop_ended n s = stop_locked (s\<lparr>ps_readers := removeAll n (ps_readers s)\<rparr>)"

text \<open>\<open>runIdleWatchdog\<close>: the tick while somebody watches, and the check under the lock.\<close>

definition watchdog_touch :: "instant \<Rightarrow> mp4_sys \<Rightarrow> mp4_sys" where
  "watchdog_touch now s =
     (if mm_subs (ps_mux s) \<noteq> [] then s\<lparr>ps_mux := (ps_mux s)\<lparr>mm_last := now\<rparr>\<rparr> else s)"

definition watchdog_stop :: "instant \<Rightarrow> mp4_sys \<Rightarrow> bool \<times> mp4_sys" where
  "watchdog_stop now s =
     (let m = ps_mux s in
      if mm_started m \<and> length (mm_subs m) = 0 \<and> now - mm_last m > mp4_idle_timeout
      then (True, stop_locked s) else (False, s))"

section \<open>A viewer\<close>

text \<open>
  \<open>waitInit\<close>: the poll number \<open>k\<close> at time \<open>now\<close> sees \<open>init k\<close>; then the select takes the cancelled
  context (\<open>over k\<close>), or the timer after 50 ms and whatever the scheduler adds (\<open>late k\<close>).
\<close>

definition poll_interval :: duration where "poll_interval = 50 * 1000000"

function wait_init ::
  "(nat \<Rightarrow> bytes option) \<Rightarrow> (nat \<Rightarrow> bool) \<Rightarrow> (nat \<Rightarrow> nat) \<Rightarrow> instant \<Rightarrow> instant \<Rightarrow> nat \<Rightarrow> (string + bytes) \<times> nat" where
  "wait_init init over late deadline now k =
     (case init k of
        Some b \<Rightarrow> (Inr b, k)
      | None \<Rightarrow>
          if over k then (Inl ''context canceled'', k)
          else
            let now' = now + poll_interval + int (late k) in
            if now' > deadline then (Inl ''init segment not ready'', k)
            else wait_init init over late deadline now' (k + 1))"
  by pat_completeness auto
termination
  by (relation "measure (\<lambda>(init, over, late, deadline, now, k). nat (deadline - now))")
    (auto simp: poll_interval_def)

declare wait_init.simps [simp del]

text \<open>The last loop of \<open>ServeHTTP\<close>; \<open>writes b\<close>: the write goes through before its deadline.\<close>

datatype viewer_event = ViewerGone | SessionOver | Fragment bytes

fun stream_loop :: "(bytes \<Rightarrow> bool) \<Rightarrow> viewer_event list \<Rightarrow> bytes list" where
  "stream_loop writes [] = []"
| "stream_loop writes (ViewerGone # es) = []"
| "stream_loop writes (SessionOver # es) = []"
| "stream_loop writes (Fragment b # es) = (if \<not> writes b then [] else b # stream_loop writes es)"

text \<open>The rest of \<open>ServeHTTP\<close> for a registered viewer: the refusal, or what it has been sent.\<close>

definition serve_viewer ::
  "(nat \<Rightarrow> bytes option) \<Rightarrow> (nat \<Rightarrow> bool) \<Rightarrow> (nat \<Rightarrow> nat) \<Rightarrow> instant \<Rightarrow> (bytes \<Rightarrow> bool) \<Rightarrow> viewer_event list
   \<Rightarrow> http_response + bytes list" where
  "serve_viewer init over late now writes es =
     (case fst (wait_init init over late (now + 5 * second) now 0) of
        Inl e \<Rightarrow> Inl (http_error ''stream warming up'' 503)
      | Inr b \<Rightarrow> Inr (if \<not> writes b then [] else b # stream_loop writes es))"

section \<open>Runs\<close>

datatype mp4_event =
    ServeBegin rtsp_io instant
  | Register
  | Unregister nat
  | PublishInit nat bytes
  | EmitFragment nat "nat \<Rightarrow> bool"
  | ReadCancelled nat
  | ReadEnded nat
  | WatchdogTouch instant
  | WatchdogStop instant
  | CloseMuxer

text \<open>
  The goroutines of a session act for it after it started, cancelled or not; a read loop acts once.
\<close>

inductive mp4_step :: "mp4_event \<Rightarrow> mp4_sys \<Rightarrow> mp4_sys \<Rightarrow> bool" where
  serve_begin: "mp4_step (ServeBegin io now) s (snd (serve_begin io now s))"
| register: "mp4_step Register s (snd (register_sub s))"
| unregister: "mp4_step (Unregister ch) s (unregister_sub ch s)"
| publish: "n \<in> set (ps_sessions s) \<Longrightarrow> mp4_step (PublishInit n b) s (publish_init n b s)"
| emit: "n \<in> set (ps_sessions s) \<Longrightarrow> mp4_step (EmitFragment n ready) s (emit_fragment n ready s)"
| cancelled: "n \<in> set (ps_readers s) \<Longrightarrow> n \<in> set (ps_cancelled s) \<Longrightarrow>
    mp4_step (ReadCancelled n) s (read_loop_cancelled n s)"
| ended: "n \<in> set (ps_readers s) \<Longrightarrow> mp4_step (ReadEnded n) s (read_loop_ended n s)"
| touch: "mp4_step (WatchdogTouch now) s (watchdog_touch now s)"
| idle: "mp4_step (WatchdogStop now) s (snd (watchdog_stop now s))"
| close: "mp4_step CloseMuxer s (stop_locked s)"

inductive mp4_run :: "mp4_event list \<Rightarrow> mp4_sys \<Rightarrow> bool" where
  start: "mp4_run [] new_mp4"
| next_step: "mp4_run es s \<Longrightarrow> mp4_step e s s' \<Longrightarrow> mp4_run (es @ [e]) s'"

inductive_cases mp4_stepE: "mp4_step e s s'"

section \<open>The invariant\<close>

text \<open>No send to a closed channel, and no channel closed twice: either would be a panic.\<close>

fun panic_free :: "chan_event list \<Rightarrow> bool" where
  "panic_free [] \<longleftrightarrow> True"
| "panic_free (Send ch n # es) \<longleftrightarrow> CloseChan ch \<notin> set es \<and> panic_free es"
| "panic_free (CloseChan ch # es) \<longleftrightarrow> CloseChan ch \<notin> set es \<and> panic_free es"

text \<open>The session that runs, if one does: its client is the only one open, its context the only live one.\<close>

definition session_ok :: "mp4_sys \<Rightarrow> bool" where
  "session_ok s \<longleftrightarrow>
     (if mm_started (ps_mux s)
      then (\<exists>n. mm_client (ps_mux s) = Some n \<and> mm_ctx (ps_mux s) = Some n \<and> ps_open s = [n] \<and>
              n \<notin> set (ps_cancelled s) \<and> set (ps_sessions s) = insert n (set (ps_cancelled s)) \<and>
              (mm_init (ps_mux s) \<noteq> None \<longrightarrow> ps_init_of s = Some n) \<and>
              list_all (\<lambda>ch. (ch, n) \<in> set (ps_chans s)) (mm_subs (ps_mux s)))
      else ps_open s = [] \<and> mm_subs (ps_mux s) = [] \<and> mm_init (ps_mux s) = None \<and>
           set (ps_sessions s) = set (ps_cancelled s))"

definition chans_ok :: "mp4_sys \<Rightarrow> bool" where
  "chans_ok s \<longleftrightarrow>
     map fst (ps_chans s) = [0 ..< length (ps_chans s)] \<and> distinct (mm_subs (ps_mux s)) \<and>
     list_all (\<lambda>ch. ch < length (ps_chans s) \<and> CloseChan ch \<notin> set (ps_events s)) (mm_subs (ps_mux s)) \<and>
     (\<forall>ch. CloseChan ch \<in> set (ps_events s) \<longrightarrow> ch < length (ps_chans s)) \<and>
     (\<forall>ch n. Send ch n \<in> set (ps_events s) \<longrightarrow> (ch, n) \<in> set (ps_chans s)) \<and> panic_free (ps_events s)"

definition mp4_ok :: "mp4_sys \<Rightarrow> bool" where
  "mp4_ok s \<longleftrightarrow> session_ok s \<and> chans_ok s \<and> (\<forall>n \<in> set (ps_sessions s). n < ps_dialed s) \<and>
     set (ps_readers s) \<subseteq> set (ps_sessions s)"

lemma panic_free_closes:
  "distinct chs \<Longrightarrow> \<forall>ch \<in> set chs. CloseChan ch \<notin> set es \<Longrightarrow> panic_free es \<Longrightarrow> panic_free (map CloseChan chs @ es)"
  by (induction chs) auto

lemma panic_free_sends:
  "\<forall>ch \<in> set chs. CloseChan ch \<notin> set es \<Longrightarrow> panic_free es \<Longrightarrow> panic_free (map (\<lambda>ch. Send ch n) chs @ es)"
  by (induction chs) auto

lemma mp4_ok_new [simp, inv_intro]: "mp4_ok new_mp4"
  by (simp add: mp4_ok_def session_ok_def chans_ok_def new_mp4_def)

lemma mp4_ok_stop [inv_intro]:
  assumes "mp4_ok s"
  shows "mp4_ok (stop_locked s)"
proof (cases "mm_started (ps_mux s)")
  case True
  then obtain n where n: "mm_client (ps_mux s) = Some n" "mm_ctx (ps_mux s) = Some n" "ps_open s = [n]"
      "set (ps_sessions s) = insert n (set (ps_cancelled s))"
    using assms by (auto simp: mp4_ok_def session_ok_def)
  have c: "chans_ok s" using assms by (simp add: mp4_ok_def)
  have "session_ok (stop_locked s)" using True n by (simp add: session_ok_def stop_locked_def Let_def)
  moreover have "chans_ok (stop_locked s)"
    using c True panic_free_closes [of "mm_subs (ps_mux s)" "ps_events s"]
    by (auto simp: chans_ok_def stop_locked_def Let_def list_all_iff)
  ultimately show ?thesis using assms True by (simp add: mp4_ok_def stop_locked_def Let_def)
qed (use assms in \<open>simp add: stop_locked_def Let_def\<close>)

lemma mp4_ok_frame:
  assumes "mp4_ok s" and "ps_mux s' = (ps_mux s)\<lparr>mm_last := t\<rparr>" and "ps_open s' = ps_open s"
    and "ps_cancelled s' = ps_cancelled s" and "ps_sessions s' = ps_sessions s" and "ps_chans s' = ps_chans s"
    and "ps_events s' = ps_events s" and "ps_init_of s' = ps_init_of s" and "ps_dialed s \<le> ps_dialed s'"
    and "set (ps_readers s') \<subseteq> set (ps_readers s)"
  shows "mp4_ok s'"
proof -
  have "\<forall>n \<in> set (ps_sessions s'). n < ps_dialed s'" using assms(1,5,9) by (auto simp: mp4_ok_def)
  moreover have "session_ok s'" "chans_ok s'" using assms by (auto simp: mp4_ok_def session_ok_def chans_ok_def)
  ultimately show ?thesis using assms(1,5,10) by (auto simp: mp4_ok_def)
qed

lemma mp4_ok_start:
  assumes "mp4_ok s" and "\<not> mm_started (ps_mux s)" and "start_locked io now s = (r, s')"
  shows "mp4_ok s' \<and> (mm_started (ps_mux s') \<longleftrightarrow> r = None)"
proof (cases "connect io")
  case (Pair q evs)
  note o = connect_left_open [OF Pair]
  show ?thesis
  proof (cases q)
    case (Inl e)
    then have "s' = s\<lparr>ps_dialed := ps_dialed s + 1\<rparr>" "r = Some e"
      using assms(3) o Pair by (auto simp: start_locked_def)
    moreover have "mp4_ok (s\<lparr>ps_dialed := ps_dialed s + 1\<rparr>)"
      by (rule mp4_ok_frame [OF assms(1), where t = "mm_last (ps_mux s)"]) simp_all
    ultimately show ?thesis using assms(2) by simp
  next
    case (Inr fmt)
    let ?n = "ps_dialed s"
    have s': "s' = s\<lparr>ps_dialed := ?n + 1, ps_open := ?n # ps_open s, ps_sessions := ?n # ps_sessions s,
        ps_readers := ?n # ps_readers s,
        ps_mux := (ps_mux s)\<lparr>mm_ctx := Some ?n, mm_client := Some ?n, mm_started := True, mm_last := now\<rparr>\<rparr>" "r = None"
      using assms(3) o Pair Inr by (auto simp: start_locked_def Let_def)
    have "?n \<notin> set (ps_sessions s)" using assms(1) by (auto simp: mp4_ok_def)
    then show ?thesis using assms(1,2) by (auto simp: s' mp4_ok_def session_ok_def chans_ok_def less_SucI)
  qed
qed

lemma mp4_ok_ensure:
  assumes "mp4_ok s" and "ensure_started io now s = (r, s')"
  shows "mp4_ok s' \<and> (r = None \<longrightarrow> mm_started (ps_mux s'))"
proof (cases "mm_started (ps_mux s)")
  case False
  obtain q s1 where q: "start_locked io now s = (q, s1)" by fastforce
  note ok = mp4_ok_start [OF assms(1) False q]
  then show ?thesis using assms(2) False q mp4_ok_stop [of s1] by (auto simp: ensure_started_def split: option.splits)
qed (use assms in \<open>simp add: ensure_started_def\<close>)

lemma mp4_ok_serve_begin [inv_intro]:
  assumes "mp4_ok s"
  shows "mp4_ok (snd (serve_begin io now s))"
proof -
  have "mp4_ok (s\<lparr>ps_mux := (ps_mux s)\<lparr>mm_last := now\<rparr>\<rparr>)" by (rule mp4_ok_frame [OF assms]) simp_all
  from mp4_ok_ensure [OF this] show ?thesis
    by (auto simp: serve_begin_def split: prod.splits option.splits)
qed

lemma mp4_ok_register [inv_intro]:
  assumes "mp4_ok s"
  shows "mp4_ok (snd (register_sub s))"
proof (cases "mm_started (ps_mux s)")
  case True
  let ?ch = "length (ps_chans s)"
  have c: "chans_ok s" using assms by (simp add: mp4_ok_def)
  have "session_ok (snd (register_sub s))"
    using assms True by (auto simp: mp4_ok_def session_ok_def register_sub_def Let_def list_all_iff)
  moreover have "?ch \<notin> set (mm_subs (ps_mux s))" "CloseChan ?ch \<notin> set (ps_events s)"
    using c by (auto simp: chans_ok_def list_all_iff)
  then have "chans_ok (snd (register_sub s))"
    using c True by (auto simp: chans_ok_def register_sub_def Let_def list_all_iff)
  ultimately show ?thesis using assms True by (simp add: mp4_ok_def register_sub_def Let_def)
qed (use assms in \<open>simp add: register_sub_def\<close>)

lemma mp4_ok_unregister [inv_intro]: "mp4_ok s \<Longrightarrow> mp4_ok (unregister_sub ch s)"
  by (auto simp: mp4_ok_def session_ok_def chans_ok_def unregister_sub_def list_all_iff distinct_removeAll split: if_splits)

lemma mp4_ok_publish [inv_intro]: "mp4_ok s \<Longrightarrow> n \<in> set (ps_sessions s) \<Longrightarrow> mp4_ok (publish_init n b s)"
  by (auto simp: mp4_ok_def session_ok_def chans_ok_def publish_init_def split: if_splits)

lemma mp4_ok_emit [inv_intro]:
  assumes "mp4_ok s" and "n \<in> set (ps_sessions s)"
  shows "mp4_ok (emit_fragment n ready s)"
proof (cases "n \<in> set (ps_cancelled s)")
  case False
  then have n: "list_all (\<lambda>ch. (ch, n) \<in> set (ps_chans s)) (mm_subs (ps_mux s))"
    using assms by (auto simp: mp4_ok_def session_ok_def split: if_splits)
  have c: "chans_ok s" using assms by (simp add: mp4_ok_def)
  have "panic_free (map (\<lambda>ch. Send ch n) (filter ready (mm_subs (ps_mux s))) @ ps_events s)"
    by (rule panic_free_sends) (use c in \<open>auto simp: chans_ok_def list_all_iff\<close>)
  then have "chans_ok (emit_fragment n ready s)"
    using c n False by (auto simp: chans_ok_def emit_fragment_def list_all_iff)
  moreover have "session_ok (emit_fragment n ready s)"
    using assms(1) False by (auto simp: mp4_ok_def session_ok_def emit_fragment_def split: if_splits)
  ultimately show ?thesis using assms(1) False by (simp add: mp4_ok_def emit_fragment_def)
qed (use assms in \<open>simp add: emit_fragment_def\<close>)

lemma mp4_ok_readers: "mp4_ok s \<Longrightarrow> mp4_ok (s\<lparr>ps_readers := removeAll n (ps_readers s)\<rparr>)"
  by (rule mp4_ok_frame [where t = "mm_last (ps_mux s)"]) auto

lemma mp4_ok_step: "mp4_step e s s' \<Longrightarrow> mp4_ok s \<Longrightarrow> mp4_ok s'"
proof (erule mp4_stepE)
  fix now assume "mp4_ok s" "s' = watchdog_touch now s"
  then show "mp4_ok s'" by (auto simp: watchdog_touch_def intro: mp4_ok_frame [where t = now])
next
  fix now assume "mp4_ok s" "s' = snd (watchdog_stop now s)"
  then show "mp4_ok s'" by (simp add: watchdog_stop_def Let_def mp4_ok_stop)
qed (simp_all add: inv_intro read_loop_cancelled_def read_loop_ended_def mp4_ok_readers)

lemma mp4_run_ok: "mp4_run es s \<Longrightarrow> mp4_ok s"
  by (induction rule: mp4_run.induct) (use mp4_ok_step in auto)

lemma wait_init_spec:
  "wait_init init over late deadline now k = (r, k') \<Longrightarrow> now \<le> deadline \<Longrightarrow>
   k \<le> k' \<and> int (k' - k) * poll_interval \<le> deadline - now \<and> list_all (\<lambda>j. init j = None \<and> \<not> over j) [k ..< k'] \<and>
   (case r of Inr b \<Rightarrow> init k' = Some b | Inl e \<Rightarrow> init k' = None)"
proof (induction init over late deadline now k rule: wait_init.induct)
  case (1 init over late deadline now k)
  show ?case
  proof (cases "init k = None \<and> \<not> over k \<and> now + poll_interval + int (late k) \<le> deadline")
    case True
    let ?now = "now + poll_interval + int (late k)"
    have "wait_init init over late deadline ?now (k + 1) = (r, k')"
      using 1(2) True by (subst (asm) wait_init.simps) (simp add: Let_def)
    from 1(1) [OF _ _ refl _ this] True
    have *: "k + 1 \<le> k'" "int (k' - (k + 1)) * poll_interval \<le> deadline - ?now"
      "list_all (\<lambda>j. init j = None \<and> \<not> over j) [k + 1 ..< k']" "case r of Inr b \<Rightarrow> init k' = Some b | Inl e \<Rightarrow> init k' = None"
      by auto
    have "int (k' - k) = int (k' - (k + 1)) + 1" using *(1) by simp
    then have "int (k' - k) * poll_interval = int (k' - (k + 1)) * poll_interval + poll_interval"
      by (simp only: distrib_right mult_1)
    with * True show ?thesis by (simp add: upt_conv_Cons)
  next
    case False
    then show ?thesis
      using 1(2,3) by (subst (asm) wait_init.simps) (auto simp: Let_def split: option.splits if_splits)
  qed
qed

lemma serve_begin_fresh:
  assumes "connect io = (Inr fmt, evs)" and "\<not> mm_started (ps_mux s)"
  shows "serve_begin io now s =
    (None, s\<lparr>ps_dialed := ps_dialed s + 1, ps_open := ps_dialed s # ps_open s,
       ps_sessions := ps_dialed s # ps_sessions s, ps_readers := ps_dialed s # ps_readers s,
       ps_mux := (ps_mux s)\<lparr>mm_ctx := Some (ps_dialed s), mm_client := Some (ps_dialed s), mm_started := True,
         mm_last := now\<rparr>\<rparr>)"
  using assms(2) connect_left_open [OF assms(1)]
  by (simp add: serve_begin_def ensure_started_def start_locked_def assms(1) Let_def)

section \<open>Properties\<close>

text \<open>
  C22: whatever the order of requests, fragments, stops and restarts, the channels are used safely
  and no fragment reaches a viewer of another session. In every run no fragment is sent to a closed channel and
  none is closed twice (either would crash the bridge); every fragment a viewer gets is of the
  session it registered in; the init segment in the muxer is the running session's (a viewer that waits for
  one across a restart may still be sent a later session's than it registered in,
  \<open>waiting_viewer_mixes_sessions\<close>); and an RTSP client is open exactly while a session runs, one
  at most.
\<close>

theorem mp4_sessions_isolated:
  assumes "mp4_run es s"
  shows "panic_free (ps_events s) \<and> distinct (map fst (ps_chans s)) \<and>
    (\<forall>ch n. Send ch n \<in> set (ps_events s) \<longrightarrow> (ch, n) \<in> set (ps_chans s)) \<and>
    (mm_init (ps_mux s) \<noteq> None \<longrightarrow> ps_init_of s = mm_ctx (ps_mux s)) \<and>
    length (ps_open s) = (if mm_started (ps_mux s) then 1 else 0)"
proof -
  have "mp4_ok s" by (rule mp4_run_ok [OF assms])
  then have c: "chans_ok s" and o: "session_ok s" by (simp_all add: mp4_ok_def)
  have "distinct (map fst (ps_chans s))" using c by (simp add: chans_ok_def)
  with c o show ?thesis by (auto simp: chans_ok_def session_ok_def split: if_splits)
qed

text \<open>A session with one viewer, and one fragment sent to it; then the viewer has left.\<close>

definition ex_mp4 :: "nat \<Rightarrow> mp4_sys" where
  "ex_mp4 n =
     (let s1 = snd (register_sub (snd (serve_begin (ex_io 0) 0 new_mp4)));
          s2 = emit_fragment 0 (\<lambda>ch. True) s1
      in if n = 0 then s2 else unregister_sub 0 s2)"

lemma ex_mp4_run:
  "mp4_run [ServeBegin (ex_io 0) 0, Register, EmitFragment 0 (\<lambda>ch. True)] (ex_mp4 0)"
  "mp4_run [ServeBegin (ex_io 0) 0, Register, EmitFragment 0 (\<lambda>ch. True), Unregister 0] (ex_mp4 1)"
proof -
  have "fst (connect (ex_io 0)) = Inr ([0x67, 1, 2, 3], [0x68])" by code_simp
  then obtain evs where c: "connect (ex_io 0) = (Inr ([0x67, 1, 2, 3], [0x68]), evs)" by (metis prod.collapse)
  note run = serve_begin_fresh [OF c] register_sub_def new_mp4_def Let_def
  have *: "mp4_run ((([] @ [ServeBegin (ex_io 0) 0]) @ [Register]) @ [EmitFragment 0 (\<lambda>ch. True)]) (ex_mp4 0)"
    unfolding ex_mp4_def Let_def if_P [OF refl] by ((rule mp4_run.intros mp4_step.intros)+) (simp add: run)
  then show "mp4_run [ServeBegin (ex_io 0) 0, Register, EmitFragment 0 (\<lambda>ch. True)] (ex_mp4 0)" by simp
  from mp4_run.next_step [OF * mp4_step.unregister, of 0]
  show "mp4_run [ServeBegin (ex_io 0) 0, Register, EmitFragment 0 (\<lambda>ch. True), Unregister 0] (ex_mp4 1)"
    by (simp add: ex_mp4_def Let_def)
qed

theorem mp4_sessions_isolated_witness:
  "panic_free (ps_events (ex_mp4 0)) \<and> length (ps_open (ex_mp4 0)) = 1 \<and> ps_events (ex_mp4 0) = [Send 0 0]"
proof -
  have "mm_started (ps_mux (ex_mp4 0))" "ps_events (ex_mp4 0) = [Send 0 0]" by code_simp+
  then show ?thesis using mp4_sessions_isolated [OF ex_mp4_run(1)] by simp
qed

text \<open>
  The idle watchdog frees the camera and never cuts a viewer. In every run, its check under
  the lock does nothing while a viewer is registered or within thirty seconds of the last access;
  otherwise it stops the session, and no RTSP client is open afterwards.
\<close>

theorem idle_session_stopped:
  assumes "mp4_run es s" and "watchdog_stop now s = (stopped, s')"
  shows "(stopped \<longleftrightarrow> mm_started (ps_mux s) \<and> mm_subs (ps_mux s) = [] \<and> 30 * second < now - mm_last (ps_mux s)) \<and>
    (if stopped then ps_open s' = [] \<and> \<not> mm_started (ps_mux s') \<and> ps_events s' = ps_events s else s' = s)"
proof -
  have "mp4_ok (stop_locked s)" by (rule mp4_ok_stop [OF mp4_run_ok [OF assms(1)]])
  moreover have "\<not> mm_started (ps_mux (stop_locked s))" by (simp add: stop_locked_def Let_def)
  ultimately have "ps_open (stop_locked s) = []" by (simp add: mp4_ok_def session_ok_def)
  then show ?thesis
    using assms(2) by (auto simp: watchdog_stop_def Let_def mp4_idle_timeout_def stop_locked_def split: if_splits)
qed

theorem idle_session_stopped_witness:
  "ps_open (snd (watchdog_stop (31 * second) (ex_mp4 1))) = [] \<and> ps_events (ex_mp4 1) = [Send 0 0]"
proof -
  have "fst (watchdog_stop (31 * second) (ex_mp4 1))" "ps_events (ex_mp4 1) = [Send 0 0]" by code_simp+
  then show ?thesis
    using idle_session_stopped [OF ex_mp4_run(2) prod.collapse [symmetric], of "31 * second"] by simp
qed

text \<open>
  C39: a viewer is never left waiting. Waiting for the init segment returns, after at most 101
  looks fifty milliseconds apart, however late the timers are; with the first segment there was to
  see, and with an error only if it saw none.
\<close>

theorem wait_init_returns:
  assumes "wait_init init over late (now + 5 * second) now 0 = (r, k)"
  shows "k \<le> 100 \<and> list_all (\<lambda>j. init j = None) [0 ..< k] \<and>
    (case r of Inr b \<Rightarrow> init k = Some b | Inl e \<Rightarrow> init k = None)"
proof -
  note w = wait_init_spec [OF assms]
  have "int k * poll_interval \<le> 5 * second" using w by (simp add: second_def)
  then have "int k \<le> 100" by (simp add: poll_interval_def second_def)
  then show ?thesis using w by (auto simp: list_all_iff second_def)
qed

text \<open>The init segment appears at the third look, with timers that are late.\<close>

theorem wait_init_returns_witness:
  "snd (wait_init (\<lambda>j. if 2 \<le> j then Some [7] else None) (\<lambda>j. False) (\<lambda>j. j) (0 + 5 * second) 0 0) \<le> 100 \<and>
   wait_init (\<lambda>j. if 2 \<le> j then Some [7] else None) (\<lambda>j. False) (\<lambda>j. j) (0 + 5 * second) 0 0 = (Inr [7], 2)"
proof -
  have *: "wait_init (\<lambda>j. if 2 \<le> j then Some [7] else None) (\<lambda>j. False) (\<lambda>j. j) (0 + 5 * second) 0 0 = (Inr [7], 2)"
    by (simp add: wait_init.simps poll_interval_def second_def)
  show ?thesis using wait_init_returns [OF *] * by simp
qed

text \<open>
  A read loop does not look at which session is running. When a session is stopped its client's
  \<open>Wait\<close> returns while its context is cancelled, and \<open>select\<close> may take either; if the loop takes the
  error after a new session has started, it stops that one and drops its viewers.
\<close>

theorem stale_read_loop_stops_new_session:
  assumes "fst (connect io) = Inr fmt"
  shows "\<exists>s. mp4_run [ServeBegin io 0, CloseMuxer, ServeBegin io 1, Register, ReadEnded 0] s \<and>
    \<not> mm_started (ps_mux s) \<and> ps_cancelled s = [1, 0] \<and> ps_events s = [CloseChan 0]"
proof -
  obtain evs where c: "connect io = (Inr fmt, evs)" using assms by (metis prod.collapse)
  let ?s1 = "snd (serve_begin io 0 new_mp4)"
  let ?s4 = "snd (register_sub (snd (serve_begin io 1 (stop_locked ?s1))))"
  note run = serve_begin_fresh [OF c] register_sub_def stop_locked_def Let_def new_mp4_def
  have "mp4_run ((((([] @ [ServeBegin io 0]) @ [CloseMuxer]) @ [ServeBegin io 1]) @ [Register]) @ [ReadEnded 0])
      (read_loop_ended 0 ?s4)"
    by ((rule mp4_run.intros mp4_step.intros)+) (simp add: run)
  moreover have "\<not> mm_started (ps_mux (read_loop_ended 0 ?s4))" "ps_cancelled (read_loop_ended 0 ?s4) = [1, 0]"
      "ps_events (read_loop_ended 0 ?s4) = [CloseChan 0]"
    by (simp_all add: run read_loop_ended_def)
  ultimately show ?thesis by auto
qed

theorem stale_read_loop_stops_new_session_witness:
  "\<exists>s. mp4_run [ServeBegin (ex_io 0) 0, CloseMuxer, ServeBegin (ex_io 0) 1, Register, ReadEnded 0] s \<and>
    \<not> mm_started (ps_mux s) \<and> ps_cancelled s = [1, 0] \<and> ps_events s = [CloseChan 0]"
  by (rule stale_read_loop_stops_new_session) code_simp

end
