(* ===== verification/Demux.thy ===== *)
theory Demux
  imports H264
begin

text \<open>
  The demultiplexing goroutine of a progressive-MP4 session, \<open>runDemux\<close> of
  \<open>internal/mp4/muxer.go\<close>: one step per access unit, the loop-carried locals as a record, and what
  the step does to the outside (publish the init segment, emit a fragment) as a list of actions.

  Go slices are kept as slices: the SPS and the PPS live in backing arrays of an explicit store, and
  a buffered access unit holds references to them, because the code overwrites those arrays in
  place (\<open>sps = append(sps[:0], nalu...)\<close>) while the unit is still pending. \<open>fmp4.Init.Marshal\<close>
  is third-party code: whether it succeeds is the parameter \<open>init_ok\<close>.
\<close>

section \<open>Slices\<close>

text \<open>
  A slice that starts at its array's first byte: the array's address and the length. The array's
  own length is the slice's capacity.
\<close>

record slice =
  addr :: nat
  len :: nat

record store =
  arrays :: "nat \<Rightarrow> bytes"
  next_addr :: nat

definition deref :: "store \<Rightarrow> slice \<Rightarrow> bytes" where
  "deref h s = take (len s) (arrays h (addr s))"

text \<open>
  \<open>append(s[:0], n...)\<close>: in place when the capacity allows, else into a new array whose spare
  capacity beyond the bytes is the runtime's choice, \<open>spare\<close>.
\<close>

definition append_at_0 :: "(nat \<Rightarrow> nat) \<Rightarrow> store \<Rightarrow> slice \<Rightarrow> bytes \<Rightarrow> store \<times> slice" where
  "append_at_0 spare h s n =
     (if length n \<le> length (arrays h (addr s))
      then (h\<lparr>arrays := (arrays h)(addr s := n @ drop (length n) (arrays h (addr s)))\<rparr>,
            \<lparr>addr = addr s, len = length n\<rparr>)
      else (h\<lparr>arrays := (arrays h)(next_addr h := n @ replicate (spare (length n)) 0),
              next_addr := Suc (next_addr h)\<rparr>,
            \<lparr>addr = next_addr h, len = length n\<rparr>))"

text \<open>A unit of a buffered access unit: its own bytes, or a reference to a parameter set.\<close>

datatype nalu_ref = Own bytes | Ref slice

fun deref_nalu :: "store \<Rightarrow> nalu_ref \<Rightarrow> bytes" where
  "deref_nalu h (Own n) = n"
| "deref_nalu h (Ref s) = deref h s"

definition inject_refs :: "store \<Rightarrow> bytes list \<Rightarrow> slice \<Rightarrow> slice \<Rightarrow> nalu_ref list" where
  "inject_refs h au sps pps =
     (if len sps = 0 \<or> len pps = 0 then map Own au
      else case scan_types (False, False, False) au of (has_idr, has_sps, has_pps) \<Rightarrow>
        if \<not> has_idr then map Own au
        else (if \<not> has_sps then [Ref sps] else []) @ (if \<not> has_pps then [Ref pps] else []) @
             map Own au)"

section \<open>The loop\<close>

definition h264_timescale :: int where "h264_timescale = 90000"

record timed_au =
  tau_ts :: u32
  tau_au :: "bytes list"

record pending =
  pending_au :: "nalu_ref list"
  pending_pts :: "64 word"
  pending_is_idr :: bool

record demux =
  init_built :: bool
  clock :: rtp_clock
  held :: "pending option"
  base_time :: "64 word"
  seq_num :: u32
  heap :: store
  sps_slice :: slice
  pps_slice :: slice

record fragment =
  frag_au :: "bytes list"
  frag_base :: "64 word"
  frag_seq :: u32
  frag_duration :: u32
  frag_is_idr :: bool

datatype demux_action = PublishInit bytes bytes | Emit fragment

text \<open>
  The locals at the start of a session: fresh copies of the parameter sets of the SDP, with the
  spare capacity the runtime gives them.
\<close>

definition demux0 :: "(nat \<Rightarrow> nat) \<Rightarrow> bytes \<Rightarrow> bytes \<Rightarrow> demux" where
  "demux0 spare sps pps =
     \<lparr>init_built = False, clock = rtp_clock0, held = None, base_time = 0, seq_num = 0,
      heap = \<lparr>arrays = (\<lambda>_. [])
                (0 := (if sps = [] then [] else sps @ replicate (spare (length sps)) 0),
                 1 := (if pps = [] then [] else pps @ replicate (spare (length pps)) 0)),
              next_addr = 2\<rparr>,
      sps_slice = \<lparr>addr = 0, len = length sps\<rparr>, pps_slice = \<lparr>addr = 1, len = length pps\<rparr>\<rparr>"

text \<open>The loop over the units that harvests in-band parameter sets.\<close>

fun harvest :: "(nat \<Rightarrow> nat) \<Rightarrow> store \<times> slice \<times> slice \<Rightarrow> bytes list \<Rightarrow> store \<times> slice \<times> slice" where
  "harvest spare (h, sps, pps) [] = (h, sps, pps)"
| "harvest spare (h, sps, pps) (n # ns) =
     (if length n = 0 then harvest spare (h, sps, pps) ns
      else if nalu_type n = 7 then
        (case append_at_0 spare h sps n of (h', sps') \<Rightarrow> harvest spare (h', sps', pps) ns)
      else if nalu_type n = 8 then
        (case append_at_0 spare h pps n of (h', pps') \<Rightarrow> harvest spare (h', sps, pps') ns)
      else harvest spare (h, sps, pps) ns)"

text \<open>The duration of the pending unit once the next one's time is known.\<close>

definition gap_duration :: "64 word \<Rightarrow> 64 word \<Rightarrow> int" where
  "gap_duration now_pts prev_pts =
     (let d = sint (now_pts - prev_pts) in if d \<le> 0 then h264_timescale div 30 else d)"

definition demux_step ::
  "(nat \<Rightarrow> nat) \<Rightarrow> (bytes \<Rightarrow> bytes \<Rightarrow> bool) \<Rightarrow> demux \<Rightarrow> timed_au \<Rightarrow> demux \<times> demux_action list" where
  "demux_step spare init_ok d tau =
     (case harvest spare (heap d, sps_slice d, pps_slice d) (tau_au tau) of (h, sps, pps) \<Rightarrow>
        let units = inject_refs h (tau_au tau) sps pps;
            c = rtp_tick (clock d) (tau_ts tau);
            d1 = d\<lparr>heap := h, sps_slice := sps, pps_slice := pps, clock := c\<rparr>;
            no_init = \<not> init_built d;
            publish = (if no_init \<and> len sps \<noteq> 0 \<and> len pps \<noteq> 0 \<and> init_ok (deref h sps) (deref h pps)
                       then [PublishInit (deref h sps) (deref h pps)] else [])
        in if no_init \<and> publish = [] then (d1, [])
           else
             let d2 = d1\<lparr>init_built := True\<rparr>;
                 is_idr = contains_idr (map (deref_nalu h) units);
                 next = \<lparr>pending_au = units, pending_pts = pts c, pending_is_idr = is_idr\<rparr>
             in case held d2 of
                  None \<Rightarrow> (d2\<lparr>held := Some next\<rparr>, publish)
                | Some p \<Rightarrow>
                    let dur = gap_duration (pts c) (pending_pts p);
                        seq = seq_num d2 + 1;
                        f = \<lparr>frag_au = map (deref_nalu h) (pending_au p), frag_base = base_time d2,
                             frag_seq = seq, frag_duration = word_of_int dur,
                             frag_is_idr = pending_is_idr p\<rparr>
                    in (d2\<lparr>held := Some next, seq_num := seq,
                           base_time := base_time d2 + word_of_int dur\<rparr>,
                        publish @ [Emit f]))"

fun demux_run ::
  "(nat \<Rightarrow> nat) \<Rightarrow> (bytes \<Rightarrow> bytes \<Rightarrow> bool) \<Rightarrow> demux \<Rightarrow> timed_au list \<Rightarrow> demux \<times> demux_action list" where
  "demux_run spare init_ok d [] = (d, [])"
| "demux_run spare init_ok d (t # ts) =
     (case demux_step spare init_ok d t of (d1, as) \<Rightarrow>
        (case demux_run spare init_ok d1 ts of (d2, bs) \<Rightarrow> (d2, as @ bs)))"

definition fragments :: "demux_action list \<Rightarrow> fragment list" where
  "fragments as = List.map_filter (\<lambda>a. case a of Emit f \<Rightarrow> Some f | PublishInit _ _ \<Rightarrow> None) as"

section \<open>Lemmas: the time line\<close>

text \<open>
  The time line of the fragments, from a base time and a sequence number on: each fragment starts
  where the one before ended and has the next number.
\<close>

fun timeline :: "64 word \<Rightarrow> u32 \<Rightarrow> fragment list \<Rightarrow> bool" where
  "timeline b n [] \<longleftrightarrow> True"
| "timeline b n (f # fs) \<longleftrightarrow>
     frag_base f = b \<and> frag_seq f = n + 1 \<and> timeline (b + ucast (frag_duration f)) (n + 1) fs"

lemma fragments_append [simp]: "fragments (as @ bs) = fragments as @ fragments bs"
  by (simp add: fragments_def List.map_filter_def)

lemma fragments_Nil [simp]: "fragments [] = []"
  by (simp add: fragments_def List.map_filter_simps)

lemma fragments_Emit [simp]: "fragments (Emit f # as) = f # fragments as"
  by (simp add: fragments_def List.map_filter_simps)

lemma fragments_PublishInit [simp]: "fragments (PublishInit s p # as) = fragments as"
  by (simp add: fragments_def List.map_filter_simps)

text \<open>The pending unit's time is the clock's: the gap to the next unit is one RTP delta.\<close>

definition pending_inv :: "demux \<Rightarrow> bool" where
  "pending_inv d \<longleftrightarrow>
     (\<forall>p. held d = Some p \<longrightarrow> pending_pts p = pts (clock d) \<and> have_first (clock d) \<and> init_built d)"

lemma sint_range_32: "- (2 ^ 31) \<le> sint (x :: u32) \<and> sint x < 2 ^ 31"
  using sint_greater_eq [of x] sint_less [of x] by simp
lemma sint_scast_32: "sint (scast (x :: u32) :: 64 word) = sint x"
proof -
  have "(scast x :: 64 word) = word_of_int (sint x)" by simp
  then show ?thesis
    using sint_range_32 [of x] by (simp only: signed_of_int) (simp add: signed_take_bit_int_eq_self)
qed

lemma gap_duration_tick:
  assumes "have_first c"
  shows "0 < gap_duration (pts (rtp_tick c t)) (pts c) \<and> gap_duration (pts (rtp_tick c t)) (pts c) < 2 ^ 31"
proof -
  have "pts (rtp_tick c t) - pts c = scast (t - last_raw_ts c)"
    using assms by (simp add: rtp_tick_def)
  then show ?thesis
    using sint_range_32 [of "t - last_raw_ts c"]
    by (simp add: gap_duration_def Let_def sint_scast_32 h264_timescale_def)
qed

lemma ucast_duration:
  "0 < d \<Longrightarrow> d < 2 ^ 31 \<Longrightarrow> (ucast (word_of_int d :: u32) :: 64 word) = word_of_int d"
  by (simp add: unsigned_of_int take_bit_int_eq_self)

lemma uint_duration: "0 < d \<Longrightarrow> d < 2 ^ 31 \<Longrightarrow> uint (word_of_int d :: u32) = d"
  by (simp add: unsigned_of_int take_bit_int_eq_self)

lemma have_first_tick [simp]: "have_first (rtp_tick c t)"
  by (simp add: rtp_tick_def Let_def)

lemma demux_step_timeline:
  assumes "pending_inv d" and "demux_step spare init_ok d t = (d', as)"
  shows "pending_inv d' \<and>
    (fragments as = [] \<and> base_time d' = base_time d \<and> seq_num d' = seq_num d \<or>
     (\<exists>f. fragments as = [f] \<and> frag_base f = base_time d \<and> frag_seq f = seq_num d + 1 \<and>
        base_time d' = base_time d + ucast (frag_duration f) \<and> seq_num d' = seq_num d + 1 \<and>
        0 < uint (frag_duration f) \<and> uint (frag_duration f) < 2 ^ 31))"
proof (cases "held d")
  case None
  with assms show ?thesis
    by (auto simp: demux_step_def Let_def pending_inv_def split: prod.splits if_splits)
next
  case (Some p)
  with assms(1) have p: "pending_pts p = pts (clock d)" "have_first (clock d)" "init_built d"
    by (auto simp: pending_inv_def)
  note g = gap_duration_tick [OF p(2), of "tau_ts t"]
  show ?thesis
    using assms(2) Some p g
    by (auto simp: demux_step_def Let_def pending_inv_def ucast_duration uint_duration
        split: prod.splits if_splits)
qed
lemma timeline_run:
  assumes "demux_run spare init_ok d ts = (d', as)" and "pending_inv d"
  shows "timeline (base_time d) (seq_num d) (fragments as) \<and>
    (\<forall>f \<in> set (fragments as). 0 < uint (frag_duration f) \<and> uint (frag_duration f) < 2 ^ 31)"
  using assms
proof (induction ts arbitrary: d as)
  case (Cons t ts)
  obtain d1 as1 where step: "demux_step spare init_ok d t = (d1, as1)" by fastforce
  obtain as2 where run: "demux_run spare init_ok d1 ts = (d', as2)" and as: "as = as1 @ as2"
    using Cons.prems(1) step by (auto split: prod.splits)
  from demux_step_timeline [OF Cons.prems(2) step] Cons.IH [OF run] show ?case
    by (auto simp: as)
qed simp

subsection \<open>Stable parameter sets\<close>

definition stable_sets :: "bytes \<Rightarrow> bytes \<Rightarrow> timed_au list \<Rightarrow> bool" where
  "stable_sets sps pps taus \<longleftrightarrow>
     (\<forall>t \<in> set taus. \<forall>n \<in> set (tau_au t). (is_sps n \<longrightarrow> n = sps) \<and> (is_pps n \<longrightarrow> n = pps))"

text \<open>The store holds \<open>sps\<close> and \<open>pps\<close>, each with its whole slice inside its array.\<close>

definition sets_held :: "bytes \<Rightarrow> bytes \<Rightarrow> demux \<Rightarrow> bool" where
  "sets_held sps pps d \<longleftrightarrow>
     len (sps_slice d) = length sps \<and> (\<exists>r. arrays (heap d) (addr (sps_slice d)) = sps @ r) \<and>
     len (pps_slice d) = length pps \<and> (\<exists>r. arrays (heap d) (addr (pps_slice d)) = pps @ r)"

lemma sets_held_demux0: "sets_held sps pps (demux0 spare sps pps)"
  by (auto simp: sets_held_def demux0_def)

lemma sets_held_deref:
  "sets_held sps pps d \<Longrightarrow> deref (heap d) (sps_slice d) = sps \<and> deref (heap d) (pps_slice d) = pps"
  by (auto simp: sets_held_def deref_def)

lemma append_at_0_same:
  "arrays h (addr s) = n @ r \<Longrightarrow> len s = length n \<Longrightarrow> append_at_0 spare h s n = (h, s)"
  by (simp add: append_at_0_def fun_upd_idem)

lemma harvest_same:
  assumes "sets_held sps pps d" and "\<forall>n \<in> set ns. (is_sps n \<longrightarrow> n = sps) \<and> (is_pps n \<longrightarrow> n = pps)"
  shows "harvest spare (heap d, sps_slice d, pps_slice d) ns = (heap d, sps_slice d, pps_slice d)"
  using assms(2)
proof (induction ns)
  case (Cons n ns)
  obtain r1 r2 where r: "arrays (heap d) (addr (sps_slice d)) = sps @ r1"
    "arrays (heap d) (addr (pps_slice d)) = pps @ r2"
    and l: "len (sps_slice d) = length sps" "len (pps_slice d) = length pps"
    using assms(1) unfolding sets_held_def by (elim conjE exE) simp
  note same = append_at_0_same [OF r(1) l(1), of spare] append_at_0_same [OF r(2) l(2), of spare]
  have n: "n \<noteq> [] \<Longrightarrow> nalu_type n = 7 \<Longrightarrow> n = sps" "n \<noteq> [] \<Longrightarrow> nalu_type n = 8 \<Longrightarrow> n = pps"
    using Cons.prems by (simp_all add: is_sps_def is_pps_def)
  have ih: "harvest spare (heap d, sps_slice d, pps_slice d) ns = (heap d, sps_slice d, pps_slice d)"
    using Cons by simp
  consider "n = []" | "n \<noteq> []" "nalu_type n = 7" | "n \<noteq> []" "nalu_type n = 8"
    | "n \<noteq> []" "nalu_type n \<noteq> 7" "nalu_type n \<noteq> 8" by blast
  then show ?case
    using ih same n by cases simp_all
qed simp

lemma deref_inject_refs:
  "sets_held sps pps d \<Longrightarrow>
   map (deref_nalu (heap d)) (inject_refs (heap d) units (sps_slice d) (pps_slice d)) =
   inject_mp4 units sps pps"
  using sets_held_deref [of sps pps d]
  by (auto simp: inject_refs_def inject_mp4_def sets_held_def comp_def split: prod.splits)

lemma demux_run_stable:
  assumes "stable_sets sps pps taus" "sets_held sps pps d" "init_built d"
    and "held d = Some p" "map (deref_nalu (heap d)) (pending_au p) = inject_mp4 (tau_au t0) sps pps"
    and "pending_is_idr p = contains_idr (inject_mp4 (tau_au t0) sps pps)"
    and "demux_run spare init_ok d taus = (d', as)"
  shows "as = map Emit (fragments as) \<and>
    map frag_au (fragments as) = map (\<lambda>t. inject_mp4 (tau_au t) sps pps) (butlast (t0 # taus)) \<and>
    map frag_is_idr (fragments as) =
      map (\<lambda>t. contains_idr (inject_mp4 (tau_au t) sps pps)) (butlast (t0 # taus))"
  using assms
proof (induction taus arbitrary: d p t0 as)
  case (Cons t taus)
  let ?u = "inject_refs (heap d) (tau_au t) (sps_slice d) (pps_slice d)"
  have h: "harvest spare (heap d, sps_slice d, pps_slice d) (tau_au t) = (heap d, sps_slice d, pps_slice d)"
    using Cons.prems(1,2) by (intro harvest_same) (auto simp: stable_sets_def)
  obtain d1 as1 where step: "demux_step spare init_ok d t = (d1, as1)" by fastforce
  obtain as2 where run: "demux_run spare init_ok d1 taus = (d', as2)" and as: "as = as1 @ as2"
    using Cons.prems(7) step by (auto split: prod.splits)
  have d1: "heap d1 = heap d" "sps_slice d1 = sps_slice d" "pps_slice d1 = pps_slice d" "init_built d1"
    "\<exists>q. held d1 = Some q \<and> pending_au q = ?u \<and> pending_is_idr q = contains_idr (map (deref_nalu (heap d)) ?u)"
    "\<exists>f. as1 = [Emit f] \<and> frag_au f = map (deref_nalu (heap d)) (pending_au p) \<and> frag_is_idr f = pending_is_idr p"
    using step Cons.prems(3,4) by (auto simp: demux_step_def h Let_def)
  then obtain q f where q: "held d1 = Some q" "pending_au q = ?u"
    "pending_is_idr q = contains_idr (map (deref_nalu (heap d)) ?u)"
    and f: "as1 = [Emit f]" "frag_au f = map (deref_nalu (heap d)) (pending_au p)"
      "frag_is_idr f = pending_is_idr p" by blast
  have "stable_sets sps pps taus" "sets_held sps pps d1"
    using Cons.prems(1,2) d1 by (auto simp: stable_sets_def sets_held_def)
  from Cons.IH [OF this d1(4) q(1) _ _ run, of t] deref_inject_refs [OF Cons.prems(2), of "tau_au t"]
  show ?case
    using q f Cons.prems(5,6) d1(1) by (simp add: as)
qed simp



lemma deref_Own [simp]: "deref_nalu h \<circ> Own = id"
  by (simp add: fun_eq_iff)

lemma demux_first_step:
  assumes "sps \<noteq> []" "pps \<noteq> []" "init_ok sps pps" "stable_sets sps pps [t]"
  shows "\<exists>d p. demux_step spare init_ok (demux0 spare sps pps) t = (d, [PublishInit sps pps]) \<and>
     sets_held sps pps d \<and> init_built d \<and> held d = Some p \<and>
     map (deref_nalu (heap d)) (pending_au p) = inject_mp4 (tau_au t) sps pps \<and>
     pending_is_idr p = contains_idr (inject_mp4 (tau_au t) sps pps)"
proof -
  let ?d = "demux0 spare sps pps"
  have sh: "sets_held sps pps ?d" by (rule sets_held_demux0)
  have h: "harvest spare (heap ?d, sps_slice ?d, pps_slice ?d) (tau_au t) = (heap ?d, sps_slice ?d, pps_slice ?d)"
    using sh assms(4) by (intro harvest_same) (auto simp: stable_sets_def)
  have n: "init_built ?d = False" "held ?d = None" "len (sps_slice ?d) \<noteq> 0" "len (pps_slice ?d) \<noteq> 0"
    using assms(1,2) by (simp_all add: demux0_def)
  have r: "deref (heap ?d) (sps_slice ?d) = sps" "deref (heap ?d) (pps_slice ?d) = pps"
    using sets_held_deref [OF sh] by simp_all
  let ?d1 = "?d\<lparr>clock := rtp_tick (clock ?d) (tau_ts t), init_built := True,
     held := Some \<lparr>pending_au = inject_refs (heap ?d) (tau_au t) (sps_slice ?d) (pps_slice ?d),
       pending_pts = pts (rtp_tick (clock ?d) (tau_ts t)),
       pending_is_idr = contains_idr (inject_mp4 (tau_au t) sps pps)\<rparr>\<rparr>"
  have "demux_step spare init_ok ?d t = (?d1, [PublishInit sps pps])"
    using assms(3) n by (simp add: demux_step_def h r Let_def deref_inject_refs [OF sh])
  moreover have "sets_held sps pps ?d1" using sh by (simp add: sets_held_def)
  ultimately show ?thesis by (auto simp: deref_inject_refs [OF sh])
qed

lemma demux_emits:
  assumes "sps \<noteq> []" and "pps \<noteq> []" and "init_ok sps pps"
    and "stable_sets sps pps taus" and "taus \<noteq> []"
    and "as = snd (demux_run spare init_ok (demux0 spare sps pps) taus)"
  shows "as = PublishInit sps pps # map Emit (fragments as) \<and>
    map frag_au (fragments as) = map (\<lambda>t. inject_mp4 (tau_au t) sps pps) (butlast taus) \<and>
    map frag_is_idr (fragments as) =
      map (\<lambda>t. contains_idr (inject_mp4 (tau_au t) sps pps)) (butlast taus)"
proof -
  obtain t ts where taus: "taus = t # ts" using assms(5) by (cases taus) auto
  have st: "stable_sets sps pps [t]" "stable_sets sps pps ts"
    using assms(4) by (auto simp: taus stable_sets_def)
  from demux_first_step [where spare = spare and init_ok = init_ok, OF assms(1,2,3) st(1)] obtain d p where
    step: "demux_step spare init_ok (demux0 spare sps pps) t = (d, [PublishInit sps pps])"
    and d: "sets_held sps pps d" "init_built d" "held d = Some p"
      "map (deref_nalu (heap d)) (pending_au p) = inject_mp4 (tau_au t) sps pps"
      "pending_is_idr p = contains_idr (inject_mp4 (tau_au t) sps pps)" by blast
  obtain d' bs where run: "demux_run spare init_ok d ts = (d', bs)" by fastforce
  from demux_run_stable [OF st(2) d run] show ?thesis
    by (simp add: assms(6) taus step run)
qed

section \<open>Properties\<close>

text \<open>
  Whatever the camera sends, the fragments of a session tile the time line. The first starts at
  zero with number 1, each next one starts exactly where the one before ends and has the next
  number, and no fragment is empty or longer than half the 32-bit range, also across RTP wraps,
  repeated or reordered time stamps and a late or failing init segment.
\<close>

theorem fragments_tile_time:
  "timeline 0 0 (fragments (snd (demux_run spare init_ok (demux0 spare sps pps) taus))) \<and>
   list_all (\<lambda>f. 0 < uint (frag_duration f) \<and> uint (frag_duration f) < 2 ^ 31)
     (fragments (snd (demux_run spare init_ok (demux0 spare sps pps) taus)))"
proof -
  have "pending_inv (demux0 spare sps pps)" by (simp add: pending_inv_def demux0_def)
  from timeline_run [OF surjective_pairing this] show ?thesis
    by (simp add: demux0_def list_all_iff)
qed

text \<open>
  C34: with the parameter sets of the SDP, which the camera may repeat in band but does not change,
  the session publishes the init segment made of them first and then emits, in order, one fragment
  per access unit but the last: the unit with both sets in front when it is a key frame, flagged as
  a sync sample exactly when it holds an IDR.
\<close>

theorem demux_emits_every_unit:
  assumes "sps \<noteq> []" and "pps \<noteq> []" and "init_ok sps pps"
    and "stable_sets sps pps taus" and "taus \<noteq> []"
    and "as = snd (demux_run spare init_ok (demux0 spare sps pps) taus)"
  shows "as = PublishInit sps pps # map Emit (fragments as) \<and>
    map frag_au (fragments as) = map (\<lambda>t. inject_mp4 (tau_au t) sps pps) (butlast taus) \<and>
    map frag_is_idr (fragments as) =
      map (\<lambda>t. contains_idr (inject_mp4 (tau_au t) sps pps)) (butlast taus)"
  using assms by (rule demux_emits)

theorem demux_emits_every_unit_witness:
  "let run = snd (demux_run (\<lambda>_. 0) (\<lambda>_ _. True) (demux0 (\<lambda>_. 0) [0x67, 1] [0x68, 2])
       [\<lparr>tau_ts = 0, tau_au = [[0x65, 3]]\<rparr>, \<lparr>tau_ts = 3000, tau_au = [[0x41, 4]]\<rparr>,
        \<lparr>tau_ts = 6000, tau_au = [[0x67, 1], [0x65, 5]]\<rparr>])
   in map frag_au (fragments run) = [[[0x67, 1], [0x68, 2], [0x65, 3]], [[0x41, 4]]] \<and>
      map frag_is_idr (fragments run) = [True, False]"
  using demux_emits_every_unit [of "[0x67, 1]" "[0x68, 2]" "\<lambda>_ _. True"
      "[\<lparr>tau_ts = 0, tau_au = [[0x65, 3]]\<rparr>, \<lparr>tau_ts = 3000, tau_au = [[0x41, 4]]\<rparr>,
        \<lparr>tau_ts = 6000, tau_au = [[0x67, 1], [0x65, 5]]\<rparr>]" _ "\<lambda>_. 0"]
  by (simp add: stable_sets_def is_sps_def is_pps_def nalu_type_def inject_mp4_def is_idr_def Let_def)

text \<open>
  A defect of the in-place update. When the camera changes its SPS in band, the key frame still
  waiting for its duration is emitted with the new SPS in front (followed by what is left of the
  old one when the new one is shorter), although it was coded under the old one: the pending unit
  refers to the array that the new SPS has overwritten.
\<close>

theorem pending_unit_gets_next_sps:
  assumes "sps \<noteq> []" and "pps \<noteq> []" and "init_ok sps pps"
    and "is_idr idr" and "is_sps sps'" and "length sps' \<le> length sps" and "is_idr idr'"
  shows "map frag_au (fragments (snd (demux_run spare init_ok (demux0 spare sps pps)
      [\<lparr>tau_ts = t, tau_au = [idr]\<rparr>, \<lparr>tau_ts = t', tau_au = [sps', idr']\<rparr>]))) =
    [[sps' @ drop (length sps') sps, pps, idr]]"
  using assms
  by (auto simp: demux_step_def demux0_def Let_def inject_refs_def append_at_0_def deref_def
      is_idr_def is_sps_def)

theorem pending_unit_gets_next_sps_witness:
  "map frag_au (fragments (snd (demux_run (\<lambda>_. 0) (\<lambda>_ _. True) (demux0 (\<lambda>_. 0) [0x67, 1] [0x68, 2])
      [\<lparr>tau_ts = 0, tau_au = [[0x65, 3]]\<rparr>, \<lparr>tau_ts = 3000, tau_au = [[0x67, 9], [0x65, 5]]\<rparr>])))
     = [[[0x67, 9], [0x68, 2], [0x65, 3]]] \<and>
   inject_mp4 [[0x65, 3]] [0x67, 1] [0x68, 2] = [[0x67, 1], [0x68, 2], [0x65, 3]]"
  using pending_unit_gets_next_sps [of "[0x67, 1]" "[0x68, 2]" "\<lambda>_ _. True" "[0x65, 3]" "[0x67, 9]"
      "[0x65, 5]" "\<lambda>_. 0" 0 3000]
  by (simp add: is_sps_def nalu_type_def inject_mp4_def is_idr_def)

end
