(* ===== verification/Mp4Live.thy ===== *)
theory Mp4Live
  imports Mp4Session Demux "HOL-Library.Sublist"
begin

text \<open>
  A progressive MP4 muxer at work: the steps of \<open>Mp4Session\<close> together with what flows through them,
  \<open>internal/mp4/muxer.go\<close> from the RTP callback over the demultiplexer of \<open>Demux\<close> to the write loop
  of every viewer. The callback and the fan-out send to bounded channels and drop when one is full.
  Shown: the state refines a run of \<open>Mp4Session\<close>; what a viewer gets, in order; and that a viewer
  who reads slowly or not at all changes nothing for the others.
\<close>

section \<open>Bounded channels\<close>

definition sub_chan_cap :: nat where "sub_chan_cap = 64"

text \<open>\<open>select { case ch <- x: default: }\<close> on a channel's buffer.\<close>

definition try_send :: "'a \<Rightarrow> 'a list \<Rightarrow> 'a list" where
  "try_send x q = (if length q < sub_chan_cap then q @ [x] else q)"

text \<open>The contract of a channel that drops when full, over its contents.\<close>

locale lossy_channel =
  fixes cap :: nat and offer :: "'a \<Rightarrow> 'q \<Rightarrow> 'q" and items :: "'q \<Rightarrow> 'a list"
  assumes room: "length (items q) < cap \<Longrightarrow> items (offer x q) = items q @ [x]"
    and full: "\<not> length (items q) < cap \<Longrightarrow> items (offer x q) = items q"
begin

lemma offer_bound: "length (items q) \<le> cap \<Longrightarrow> length (items (offer x q)) \<le> cap"
  by (cases "length (items q) < cap") (simp_all add: room full)

lemma offer_subseq: "subseq (taken @ items q) xs \<Longrightarrow> subseq (taken @ items (offer x q)) (xs @ [x])"
  by (cases "length (items q) < cap")
    (simp_all add: room full list_emb_append_mono subseq_rev_drop_many flip: append_assoc)

lemma offer_count:
  "length xs = n + length (items q) + m \<Longrightarrow>
   length (xs @ [x]) = n + length (items (offer x q)) + (if length (items q) < cap then m else m + 1)"
  by (simp add: room full)

end

interpretation go_chan: lossy_channel sub_chan_cap try_send "\<lambda>q. q"
  by unfold_locales (simp_all add: try_send_def)

section \<open>The muxer at work\<close>

text \<open>What the fMP4 library does: capacity of grown slices, and the two marshallers.\<close>

record mp4_lib =
  lib_spare :: "nat \<Rightarrow> nat"
  lib_init_ok :: "bytes \<Rightarrow> bytes \<Rightarrow> bool"
  lib_init :: "bytes \<Rightarrow> bytes \<Rightarrow> bytes"
  lib_part_ok :: "fragment \<Rightarrow> bool"

text \<open>
  Per session (by its number): \<open>auCh\<close>, the locals of \<open>runDemux\<close>, and what it still has to do for
  the unit it took. Per viewer (by its channel): the channel's buffer, the init segment and the
  fragments written to it; \<open>lv_viewers\<close> are the ones whose \<open>ServeHTTP\<close> has not returned. The last
  group is history: units decoded and taken, fragments fanned out, the ones offered to a viewer, and
  how many of these it missed.
\<close>

record mp4_live =
  lv_sys :: mp4_sys
  lv_auch :: "nat \<Rightarrow> timed_au list"
  lv_demux :: "nat \<Rightarrow> demux"
  lv_todo :: "nat \<Rightarrow> demux_action list"
  lv_viewers :: "nat list"
  lv_buf :: "nat \<Rightarrow> fragment list"
  lv_init :: "nat \<Rightarrow> bytes option"
  lv_got :: "nat \<Rightarrow> fragment list"
  lv_decoded :: "nat \<Rightarrow> timed_au list"
  lv_taken :: "nat \<Rightarrow> timed_au list"
  lv_emitted :: "nat \<Rightarrow> fragment list"
  lv_offered :: "nat \<Rightarrow> fragment list"
  lv_missed :: "nat \<Rightarrow> nat"

definition new_live :: mp4_live where
  "new_live =
     \<lparr>lv_sys = new_mp4, lv_auch = (\<lambda>_. []), lv_demux = (\<lambda>_. demux0 (\<lambda>_. 0) [] []), lv_todo = (\<lambda>_. []),
      lv_viewers = [], lv_buf = (\<lambda>_. []), lv_init = (\<lambda>_. None), lv_got = (\<lambda>_. []),
      lv_decoded = (\<lambda>_. []), lv_taken = (\<lambda>_. []), lv_emitted = (\<lambda>_. []), lv_offered = (\<lambda>_. []), lv_missed = (\<lambda>_. 0)\<rparr>"

text \<open>\<open>ServeHTTP\<close> up to the start; a session that starts gets a demultiplexer with the SDP's sets.\<close>

definition live_begin :: "mp4_lib \<Rightarrow> rtsp_io \<Rightarrow> instant \<Rightarrow> mp4_live \<Rightarrow> mp4_live" where
  "live_begin lib io now s =
     (let y = lv_sys s; s1 = s\<lparr>lv_sys := snd (serve_begin io now y)\<rparr>
      in if mm_started (ps_mux y) then s1
         else case fst (connect io) of
                Inl _ \<Rightarrow> s1
              | Inr (sps, pps) \<Rightarrow> s1\<lparr>lv_demux := (lv_demux s)(ps_dialed y := demux0 (lib_spare lib) sps pps)\<rparr>)"

definition live_join :: "mp4_live \<Rightarrow> mp4_live" where
  "live_join s =
     (case register_sub (lv_sys s) of
        (Inl _, _) \<Rightarrow> s
      | (Inr ch, y) \<Rightarrow> s\<lparr>lv_sys := y, lv_viewers := ch # lv_viewers s\<rparr>)"

text \<open>The viewer's \<open>ServeHTTP\<close> returns, by whatever way: the deferred removal runs.\<close>

definition live_leave :: "nat \<Rightarrow> mp4_live \<Rightarrow> mp4_live" where
  "live_leave ch s = s\<lparr>lv_sys := unregister_sub ch (lv_sys s), lv_viewers := removeAll ch (lv_viewers s)\<rparr>"

text \<open>One look of \<open>waitInit\<close>, with the write of the init segment when it is there.\<close>

definition live_init :: "nat \<Rightarrow> bool \<Rightarrow> mp4_live \<Rightarrow> mp4_live" where
  "live_init ch ok s =
     (if ch \<in> set (lv_viewers s) \<and> lv_init s ch = None then
        (case mm_init (ps_mux (lv_sys s)) of
           None \<Rightarrow> s
         | Some b \<Rightarrow> if ok then s\<lparr>lv_init := (lv_init s)(ch := Some b)\<rparr> else live_leave ch s)
      else s)"

text \<open>
  One round of the write loop on the viewer's channel: a closed channel still hands out what is in
  its buffer, and ends the loop after that.
\<close>

definition live_deliver :: "nat \<Rightarrow> bool \<Rightarrow> mp4_live \<Rightarrow> mp4_live" where
  "live_deliver ch ok s =
     (if ch \<in> set (lv_viewers s) \<and> lv_init s ch \<noteq> None then
        (case lv_buf s ch of
           [] \<Rightarrow> if CloseChan ch \<in> set (ps_events (lv_sys s)) then live_leave ch s else s
         | f # fs \<Rightarrow>
             let s1 = s\<lparr>lv_buf := (lv_buf s)(ch := fs)\<rparr>
             in if ok then s1\<lparr>lv_got := (lv_got s)(ch := lv_got s ch @ [f])\<rparr>
                else live_leave ch (s1\<lparr>lv_missed := (lv_missed s)(ch := lv_missed s ch + 1)\<rparr>))
      else s)"

text \<open>The RTP callback: nothing on a decoding error, else a send that drops when full.\<close>

definition live_packet :: "nat \<Rightarrow> timed_au option \<Rightarrow> mp4_live \<Rightarrow> mp4_live" where
  "live_packet n u s =
     (case u of
        None \<Rightarrow> s
      | Some t \<Rightarrow>
          if n \<in> set (ps_open (lv_sys s))
          then s\<lparr>lv_auch := (lv_auch s)(n := try_send t (lv_auch s n)),
                 lv_decoded := (lv_decoded s)(n := lv_decoded s n @ [t])\<rparr>
          else s)"

text \<open>\<open>runDemux\<close>: take a unit; then the actions for it, one critical section each.\<close>

definition live_take :: "mp4_lib \<Rightarrow> nat \<Rightarrow> mp4_live \<Rightarrow> mp4_live" where
  "live_take lib n s =
     (if n \<in> set (ps_sessions (lv_sys s)) \<and> lv_todo s n = [] then
        (case lv_auch s n of
           [] \<Rightarrow> s
         | t # ts \<Rightarrow>
             (case demux_step (lib_spare lib) (lib_init_ok lib) (lv_demux s n) t of
                (d, as) \<Rightarrow>
                  s\<lparr>lv_auch := (lv_auch s)(n := ts), lv_demux := (lv_demux s)(n := d),
                    lv_todo := (lv_todo s)(n := as), lv_taken := (lv_taken s)(n := lv_taken s n @ [t])\<rparr>))
      else s)"

text \<open>The fan-out of \<open>emitFragment\<close>: a send to every subscriber, dropped where the channel is full.\<close>

definition fan_out :: "nat \<Rightarrow> fragment \<Rightarrow> mp4_live \<Rightarrow> mp4_live" where
  "fan_out n f s =
     (if n \<in> set (ps_cancelled (lv_sys s)) then s
      else
        let subs = mm_subs (ps_mux (lv_sys s)); ready = (\<lambda>ch. length (lv_buf s ch) < sub_chan_cap)
        in s\<lparr>lv_sys := emit_fragment n ready (lv_sys s),
             lv_buf := (\<lambda>ch. if ch \<in> set subs then try_send f (lv_buf s ch) else lv_buf s ch),
             lv_emitted := (lv_emitted s)(n := lv_emitted s n @ [f]),
             lv_offered := (\<lambda>ch. if ch \<in> set subs then lv_offered s ch @ [f] else lv_offered s ch),
             lv_missed := (\<lambda>ch. if ch \<in> set subs \<and> \<not> ready ch then lv_missed s ch + 1 else lv_missed s ch)\<rparr>)"

definition live_act :: "mp4_lib \<Rightarrow> nat \<Rightarrow> mp4_live \<Rightarrow> mp4_live" where
  "live_act lib n s =
     (case lv_todo s n of
        [] \<Rightarrow> s
      | a # as \<Rightarrow>
          let s1 = s\<lparr>lv_todo := (lv_todo s)(n := as)\<rparr>
          in case a of
               PublishInit sps pps \<Rightarrow> s1\<lparr>lv_sys := publish_init n (lib_init lib sps pps) (lv_sys s)\<rparr>
             | Emit f \<Rightarrow> if lib_part_ok lib f then fan_out n f s1 else s1)"

datatype live_event =
    Request rtsp_io instant
  | Join
  | ReadInit nat bool
  | Deliver nat bool
  | Leave nat
  | Packet nat "timed_au option"
  | TakeUnit nat
  | Act nat
  | SessionEnds nat
  | ReaderLeaves nat
  | Touch instant
  | Idle instant
  | CloseAll

definition on_sys :: "(mp4_sys \<Rightarrow> mp4_sys) \<Rightarrow> mp4_live \<Rightarrow> mp4_live" where
  "on_sys g s = s\<lparr>lv_sys := g (lv_sys s)\<rparr>"

fun live_step :: "mp4_lib \<Rightarrow> live_event \<Rightarrow> mp4_live \<Rightarrow> mp4_live" where
  "live_step lib (Request io now) s = live_begin lib io now s"
| "live_step lib Join s = live_join s"
| "live_step lib (ReadInit ch ok) s = live_init ch ok s"
| "live_step lib (Deliver ch ok) s = live_deliver ch ok s"
| "live_step lib (Leave ch) s = live_leave ch s"
| "live_step lib (Packet n u) s = live_packet n u s"
| "live_step lib (TakeUnit n) s = live_take lib n s"
| "live_step lib (Act n) s = live_act lib n s"
| "live_step lib (SessionEnds n) s = (if n \<in> set (ps_readers (lv_sys s)) then on_sys (read_loop_ended n) s else s)"
| "live_step lib (ReaderLeaves n) s =
     (if n \<in> set (ps_readers (lv_sys s)) \<and> n \<in> set (ps_cancelled (lv_sys s)) then on_sys (read_loop_cancelled n) s else s)"
| "live_step lib (Touch now) s = on_sys (watchdog_touch now) s"
| "live_step lib (Idle now) s = on_sys (\<lambda>y. snd (watchdog_stop now y)) s"
| "live_step lib CloseAll s = on_sys stop_locked s"

definition live_run :: "mp4_lib \<Rightarrow> live_event list \<Rightarrow> mp4_live" where
  "live_run lib es = fold (live_step lib) es new_live"


section \<open>What the session carries\<close>

lemma demux_run_snoc:
  "demux_run spare init_ok d ts = (d1, as) \<Longrightarrow> demux_step spare init_ok d1 t = (d2, bs) \<Longrightarrow>
   demux_run spare init_ok d (ts @ [t]) = (d2, as @ bs)"
  by (induction ts arbitrary: d as) (auto split: prod.splits)

text \<open>
  A session's units and fragments: its demultiplexer is where a run of \<open>Demux\<close> on the units taken
  ends, and what was fanned out is what that run emitted, up to the point where the session stopped.
\<close>

definition carried :: "mp4_lib \<Rightarrow> bool \<Rightarrow> timed_au list \<Rightarrow> demux \<Rightarrow> fragment list \<Rightarrow> demux_action list \<Rightarrow> bool" where
  "carried lib live taken d emitted todo \<longleftrightarrow>
     (\<exists>sps pps as. demux_run (lib_spare lib) (lib_init_ok lib) (demux0 (lib_spare lib) sps pps) taken = (d, as) \<and>
        prefix emitted (filter (lib_part_ok lib) (fragments as)) \<and>
        (live \<longrightarrow> emitted @ filter (lib_part_ok lib) (fragments todo) = filter (lib_part_ok lib) (fragments as)))"

definition pipe_ok :: "mp4_lib \<Rightarrow> mp4_live \<Rightarrow> nat \<Rightarrow> bool" where
  "pipe_ok lib s n \<longleftrightarrow>
     length (lv_auch s n) \<le> sub_chan_cap \<and> subseq (lv_taken s n @ lv_auch s n) (lv_decoded s n) \<and>
     (if n \<in> set (ps_sessions (lv_sys s))
      then carried lib (n \<notin> set (ps_cancelled (lv_sys s))) (lv_taken s n) (lv_demux s n) (lv_emitted s n) (lv_todo s n)
      else lv_auch s n = [] \<and> lv_todo s n = [] \<and> lv_decoded s n = [] \<and> lv_taken s n = [] \<and> lv_emitted s n = [])"

definition viewer_ok :: "mp4_live \<Rightarrow> nat \<Rightarrow> bool" where
  "viewer_ok s ch \<longleftrightarrow>
     length (lv_buf s ch) \<le> sub_chan_cap \<and> subseq (lv_got s ch @ lv_buf s ch) (lv_offered s ch) \<and>
     length (lv_offered s ch) = length (lv_got s ch) + length (lv_buf s ch) + lv_missed s ch \<and>
     (length (ps_chans (lv_sys s)) \<le> ch \<longrightarrow> lv_offered s ch = []) \<and>
     (\<forall>n. (ch, n) \<in> set (ps_chans (lv_sys s)) \<longrightarrow>
        (if ch \<in> set (mm_subs (ps_mux (lv_sys s))) then suffix (lv_offered s ch) (lv_emitted s n)
         else sublist (lv_offered s ch) (lv_emitted s n)))"

definition live_ok :: "mp4_lib \<Rightarrow> mp4_live \<Rightarrow> bool" where
  "live_ok lib s \<longleftrightarrow> (\<exists>es. mp4_run es (lv_sys s)) \<and> (\<forall>n. pipe_ok lib s n) \<and> (\<forall>ch. viewer_ok s ch)"

lemma carried_stops: "carried lib live taken d emitted todo \<Longrightarrow> live' \<longrightarrow> live \<Longrightarrow> carried lib live' taken d emitted todo"
  by (auto simp: carried_def)

lemma live_ok_new [simp]: "live_ok lib new_live"
proof -
  have "\<exists>es. mp4_run es new_mp4" by (rule exI) (rule mp4_run.start)
  then show ?thesis
    by (simp add: live_ok_def pipe_ok_def viewer_ok_def new_live_def new_mp4_def)
qed

lemma live_ok_sys: "live_ok lib s \<Longrightarrow> mp4_ok (lv_sys s)"
  using mp4_run_ok by (auto simp: live_ok_def)

lemma run_extended: "\<exists>es. mp4_run es y \<Longrightarrow> mp4_step e y y' \<Longrightarrow> \<exists>es. mp4_run es y'"
  using mp4_run.next_step by blast

text \<open>Only \<open>Join\<close> makes channels and only \<open>Request\<close> makes sessions; a stop or a removal only takes away.\<close>

definition shrinks :: "mp4_sys \<Rightarrow> mp4_sys \<Rightarrow> bool" where
  "shrinks y y' \<longleftrightarrow> ps_sessions y' = ps_sessions y \<and> ps_chans y' = ps_chans y \<and>
     set (ps_cancelled y) \<subseteq> set (ps_cancelled y') \<and> set (mm_subs (ps_mux y')) \<subseteq> set (mm_subs (ps_mux y))"

lemma shrinks_ops:
  "shrinks y (stop_locked y)" "shrinks y (unregister_sub ch y)" "shrinks y (read_loop_ended n y)"
  "shrinks y (read_loop_cancelled n y)" "shrinks y (watchdog_touch now y)" "shrinks y (snd (watchdog_stop now y))"
  "shrinks y (publish_init n b y)" "shrinks y y" "shrinks y (emit_fragment n ready y)"
  by (auto simp: shrinks_def stop_locked_def unregister_sub_def read_loop_ended_def read_loop_cancelled_def
      watchdog_touch_def watchdog_stop_def publish_init_def emit_fragment_def Let_def split: option.splits)

lemma suffix_sublist: "suffix xs ys \<Longrightarrow> sublist xs ys" by (auto simp: suffix_def sublist_def) (metis append_Nil2)

lemma live_ok_shrink:
  assumes "live_ok lib s" and "lv_sys s' = y" and "\<exists>es. mp4_run es y" and "shrinks (lv_sys s) y"
    and "lv_auch s' = lv_auch s" "lv_demux s' = lv_demux s" "lv_todo s' = lv_todo s" "lv_decoded s' = lv_decoded s"
      "lv_taken s' = lv_taken s" "lv_emitted s' = lv_emitted s" "lv_offered s' = lv_offered s"
    and "\<And>ch. length (lv_buf s' ch) \<le> sub_chan_cap \<and> subseq (lv_got s' ch @ lv_buf s' ch) (lv_offered s ch) \<and>
      length (lv_offered s ch) = length (lv_got s' ch) + length (lv_buf s' ch) + lv_missed s' ch"
  shows "live_ok lib s'"
proof -
  have "pipe_ok lib s' n" for n
  proof -
    have "pipe_ok lib s n" using assms(1) by (simp add: live_ok_def)
    moreover have "n \<notin> set (ps_cancelled y) \<longrightarrow> n \<notin> set (ps_cancelled (lv_sys s))"
      using assms(4) by (auto simp: shrinks_def)
    ultimately show ?thesis
      using assms(4) carried_stops by (simp add: pipe_ok_def assms(2,5-10) shrinks_def split: if_splits) blast
  qed
  moreover have "viewer_ok s' ch" for ch
  proof -
    have "viewer_ok s ch" using assms(1) by (simp add: live_ok_def)
    then show ?thesis
      using assms(4,12) suffix_sublist by (auto simp: viewer_ok_def assms(2,10,11) shrinks_def split: if_splits)
  qed
  ultimately show ?thesis using assms(2,3) by (simp add: live_ok_def)
qed


lemma live_ok_sys_step:
  assumes "live_ok lib s" and "mp4_step e (lv_sys s) (g (lv_sys s))" and "shrinks (lv_sys s) (g (lv_sys s))"
  shows "live_ok lib (on_sys g s)"
proof (rule live_ok_shrink [OF assms(1), where y = "g (lv_sys s)"])
  show "\<exists>es. mp4_run es (g (lv_sys s))" using assms(1,2) run_extended by (simp add: live_ok_def) blast
  show "length (lv_buf (on_sys g s) ch) \<le> sub_chan_cap \<and>
      subseq (lv_got (on_sys g s) ch @ lv_buf (on_sys g s) ch) (lv_offered s ch) \<and>
      length (lv_offered s ch) = length (lv_got (on_sys g s) ch) + length (lv_buf (on_sys g s) ch) + lv_missed (on_sys g s) ch" for ch
    using assms(1) by (simp add: live_ok_def viewer_ok_def on_sys_def)
qed (simp_all add: on_sys_def assms(3))

lemma viewer_counts:
  "live_ok lib s \<Longrightarrow> length (lv_buf s ch) \<le> sub_chan_cap \<and> subseq (lv_got s ch @ lv_buf s ch) (lv_offered s ch) \<and>
   length (lv_offered s ch) = length (lv_got s ch) + length (lv_buf s ch) + lv_missed s ch"
  by (simp add: live_ok_def viewer_ok_def)

lemma live_ok_leave:
  assumes "live_ok lib s" and "lv_sys s' = lv_sys s" "lv_auch s' = lv_auch s" "lv_demux s' = lv_demux s"
    "lv_todo s' = lv_todo s" "lv_decoded s' = lv_decoded s" "lv_taken s' = lv_taken s" "lv_emitted s' = lv_emitted s"
    "lv_offered s' = lv_offered s"
    and "\<And>c. length (lv_buf s' c) \<le> sub_chan_cap \<and> subseq (lv_got s' c @ lv_buf s' c) (lv_offered s c) \<and>
      length (lv_offered s c) = length (lv_got s' c) + length (lv_buf s' c) + lv_missed s' c"
  shows "live_ok lib (live_leave ch s')"
proof (rule live_ok_shrink [OF assms(1), where y = "unregister_sub ch (lv_sys s)"])
  show "\<exists>es. mp4_run es (unregister_sub ch (lv_sys s))"
    using assms(1) run_extended mp4_step.unregister by (simp add: live_ok_def) blast
qed (use assms in \<open>simp_all add: live_leave_def shrinks_ops\<close>)

lemma live_ok_left: "live_ok lib s \<Longrightarrow> live_ok lib (live_leave ch s)"
  by (rule live_ok_leave [OF _ refl refl refl refl refl refl refl refl viewer_counts])

lemma todo_session: "live_ok lib s \<Longrightarrow> lv_todo s n \<noteq> [] \<Longrightarrow> n \<in> set (ps_sessions (lv_sys s))"
  by (auto simp: live_ok_def pipe_ok_def split: if_splits dest!: spec [of _ n])

lemma live_ok_init: "live_ok lib s \<Longrightarrow> live_ok lib (live_init ch ok s)"
proof -
  assume ok: "live_ok lib s"
  then have "live_ok lib (s\<lparr>lv_init := f\<rparr>)" for f
    by (rule live_ok_shrink [where y = "lv_sys s"]) (use ok viewer_counts in \<open>auto simp: shrinks_ops live_ok_def\<close>)
  then show ?thesis
    using ok live_ok_leave [OF ok] viewer_counts [OF ok] by (simp add: live_init_def split: option.split)
qed

lemma subseq_dropped: "subseq (xs @ y # ys) zs \<Longrightarrow> subseq (xs @ ys) zs"
proof -
  have "subseq (xs @ ys) (xs @ y # ys)" by (rule list_emb_append_mono) (simp_all add: list_emb_Cons)
  then show "subseq (xs @ y # ys) zs \<Longrightarrow> subseq (xs @ ys) zs" by (rule subseq_order.trans)
qed

lemma live_ok_deliver:
  assumes ok: "live_ok lib s"
  shows "live_ok lib (live_deliver ch w s)"
proof (cases "ch \<in> set (lv_viewers s) \<and> lv_init s ch \<noteq> None")
  case True
  note c = viewer_counts [OF ok]
  show ?thesis
  proof (cases "lv_buf s ch")
    case Nil
    then show ?thesis
      using True ok live_ok_left [OF ok] by (simp add: live_deliver_def)
  next
    case (Cons f fs)
    note v = c [of ch, unfolded Cons]
    let ?got = "s\<lparr>lv_buf := (lv_buf s)(ch := fs), lv_got := (lv_got s)(ch := lv_got s ch @ [f])\<rparr>"
    let ?lost = "s\<lparr>lv_buf := (lv_buf s)(ch := fs), lv_missed := (lv_missed s)(ch := lv_missed s ch + 1)\<rparr>"
    have "live_ok lib ?got"
      by (rule live_ok_shrink [OF ok, where y = "lv_sys s"])
        (use ok c v in \<open>auto simp: shrinks_ops live_ok_def\<close>)
    moreover have "live_ok lib (live_leave ch ?lost)"
      by (rule live_ok_leave [OF ok]) (use c v subseq_dropped in \<open>auto\<close>)
    ultimately show ?thesis using True Cons by (simp add: live_deliver_def Let_def)
  qed
next
  case False
  then show ?thesis using ok unfolding live_deliver_def by (simp only: if_False)
qed


lemma live_ok_intro:
  "live_ok lib s \<Longrightarrow> \<exists>es. mp4_run es (lv_sys s') \<Longrightarrow> (\<And>n. pipe_ok lib s n \<Longrightarrow> pipe_ok lib s' n) \<Longrightarrow>
   (\<And>ch. viewer_ok s ch \<Longrightarrow> viewer_ok s' ch) \<Longrightarrow> live_ok lib s'"
  by (simp add: live_ok_def)

lemma live_ok_join:
  assumes ok: "live_ok lib s"
  shows "live_ok lib (live_join s)"
proof (cases "mm_started (ps_mux (lv_sys s))")
  case True
  let ?y = "lv_sys s" let ?ch = "length (ps_chans ?y)"
  have c: "chans_ok ?y" "session_ok ?y" using live_ok_sys [OF ok] by (simp_all add: mp4_ok_def)
  then obtain n where n: "mm_ctx (ps_mux ?y) = Some n" using True by (auto simp: session_ok_def)
  have old: "fst e < ?ch" if "e \<in> set (ps_chans ?y)" for e
  proof -
    have "fst e \<in> set (map fst (ps_chans ?y))" using that by simp
    moreover have "map fst (ps_chans ?y) = [0 ..< ?ch]" using c(1) by (simp add: chans_ok_def)
    ultimately show ?thesis by simp
  qed
  have fresh: "lv_offered s ?ch = []" using ok by (simp add: live_ok_def viewer_ok_def)
  have subs: "?ch \<notin> set (mm_subs (ps_mux ?y))" using c(1) by (auto simp: chans_ok_def list_all_iff)
  have y: "register_sub ?y = (Inr ?ch, ?y\<lparr>ps_chans := ps_chans ?y @ [(?ch, n)],
      ps_mux := (ps_mux ?y)\<lparr>mm_subs := ?ch # mm_subs (ps_mux ?y)\<rparr>\<rparr>)"
    using True n by (simp add: register_sub_def Let_def)
  show ?thesis
  proof (rule live_ok_intro [OF ok])
    show "\<exists>es. mp4_run es (lv_sys (live_join s))"
      using ok run_extended mp4_step.register [of ?y] by (simp add: live_ok_def live_join_def y) blast
    show "pipe_ok lib (live_join s) m" if "pipe_ok lib s m" for m
      using that by (simp add: pipe_ok_def live_join_def y)
    show "viewer_ok (live_join s) c" if "viewer_ok s c" for c
      using that fresh old subs by (cases "c = ?ch") (auto simp: viewer_ok_def live_join_def y)
  qed
qed (use ok in \<open>simp add: live_join_def register_sub_def\<close>)

lemma live_ok_begin:
  assumes ok: "live_ok lib s"
  shows "live_ok lib (live_begin lib io now s)"
proof (rule live_ok_intro [OF ok])
  let ?y = "lv_sys s" let ?y' = "snd (serve_begin io now ?y)"
  have sys: "lv_sys (live_begin lib io now s) = ?y'"
    by (simp add: live_begin_def Let_def split: sum.split prod.split)
  show "\<exists>es. mp4_run es (lv_sys (live_begin lib io now s))"
    unfolding sys using ok run_extended mp4_step.serve_begin [of io now ?y] by (simp add: live_ok_def) blast
  have new: "ps_dialed ?y \<notin> set (ps_sessions ?y)" using live_ok_sys [OF ok] by (auto simp: mp4_ok_def)
  have chans: "ps_chans ?y' = ps_chans ?y" "mm_subs (ps_mux ?y') = mm_subs (ps_mux ?y)"
    using live_ok_sys [OF ok]
    by (auto simp: serve_begin_def ensure_started_def start_locked_def stop_locked_def Let_def mp4_ok_def session_ok_def
        split: prod.splits sum.splits option.splits if_splits)
  show "viewer_ok (live_begin lib io now s) ch" if "viewer_ok s ch" for ch
    using that by (simp add: viewer_ok_def sys chans) (simp add: live_begin_def Let_def split: sum.split prod.split)
  show "pipe_ok lib (live_begin lib io now s) n" if p: "pipe_ok lib s n" for n
  proof (cases "mm_started (ps_mux ?y)")
    case True
    then have "?y' = ?y\<lparr>ps_mux := (ps_mux ?y)\<lparr>mm_last := now\<rparr>\<rparr>" by (simp add: serve_begin_def ensure_started_def)
    with True p show ?thesis by (simp add: pipe_ok_def live_begin_def Let_def)
  next
    case False
    obtain q evs where q: "connect io = (q, evs)" by fastforce
    show ?thesis
    proof (cases q)
      case (Inl e)
      then have "ps_sessions ?y' = ps_sessions ?y" "ps_cancelled ?y' = ps_cancelled ?y"
        using False by (simp_all add: serve_begin_def ensure_started_def start_locked_def stop_locked_def q Let_def)
      then show ?thesis using p False Inl by (simp add: pipe_ok_def live_begin_def q Let_def)
    next
      case (Inr fmt)
      obtain sps pps where f: "fmt = (sps, pps)" by fastforce
      have y': "ps_sessions ?y' = ps_dialed ?y # ps_sessions ?y" "ps_cancelled ?y' = ps_cancelled ?y"
        using serve_begin_fresh [OF q [unfolded Inr] False] by simp_all
      have d: "lv_demux (live_begin lib io now s) = (lv_demux s)(ps_dialed ?y := demux0 (lib_spare lib) sps pps)"
        using False by (simp add: live_begin_def q Inr f Let_def)
      have rest: "lv_auch (live_begin lib io now s) = lv_auch s" "lv_todo (live_begin lib io now s) = lv_todo s"
        "lv_decoded (live_begin lib io now s) = lv_decoded s" "lv_taken (live_begin lib io now s) = lv_taken s"
        "lv_emitted (live_begin lib io now s) = lv_emitted s"
        using False by (simp_all add: live_begin_def q Inr f Let_def)
      have "carried lib live [] (demux0 (lib_spare lib) sps pps) [] []" for live by (auto simp: carried_def)
      then show ?thesis
        using p new by (cases "n = ps_dialed ?y") (simp_all add: pipe_ok_def sys y' d rest)
    qed
  qed
qed

lemma live_ok_packet: "live_ok lib s \<Longrightarrow> live_ok lib (live_packet n u s)"
proof -
  assume ok: "live_ok lib s"
  have "n \<in> set (ps_open (lv_sys s)) \<Longrightarrow> n \<in> set (ps_sessions (lv_sys s))"
    using live_ok_sys [OF ok] by (auto simp: mp4_ok_def session_ok_def split: if_splits)
  then show ?thesis
    using ok by (auto simp: live_packet_def live_ok_def pipe_ok_def viewer_ok_def
        intro: go_chan.offer_bound go_chan.offer_subseq split: option.split)
qed


lemma carried_take:
  assumes "carried lib live taken d emitted []" and "demux_step (lib_spare lib) (lib_init_ok lib) d t = (d', as)"
  shows "carried lib live (taken @ [t]) d' emitted as"
proof -
  obtain sps pps bs where run: "demux_run (lib_spare lib) (lib_init_ok lib) (demux0 (lib_spare lib) sps pps) taken = (d, bs)"
    and e: "prefix emitted (filter (lib_part_ok lib) (fragments bs))"
      "live \<longrightarrow> emitted = filter (lib_part_ok lib) (fragments bs)"
    using assms(1) by (auto simp: carried_def)
  have "prefix emitted (filter (lib_part_ok lib) (fragments (bs @ as)))" using e(1) by simp
  with demux_run_snoc [OF run assms(2)] e(2) show ?thesis unfolding carried_def by fastforce
qed

lemma live_ok_take:
  assumes ok: "live_ok lib s"
  shows "live_ok lib (live_take lib n s)"
proof (cases "n \<in> set (ps_sessions (lv_sys s)) \<and> lv_todo s n = [] \<and> lv_auch s n \<noteq> []")
  case True
  then obtain t ts where t: "lv_auch s n = t # ts" by (cases "lv_auch s n") auto
  obtain d as where d: "demux_step (lib_spare lib) (lib_init_ok lib) (lv_demux s n) t = (d, as)" by fastforce
  have eq: "live_take lib n s =
      s\<lparr>lv_auch := (lv_auch s)(n := ts), lv_demux := (lv_demux s)(n := d),
        lv_todo := (lv_todo s)(n := as), lv_taken := (lv_taken s)(n := lv_taken s n @ [t])\<rparr>"
    using True by (simp add: live_take_def t d)
  show ?thesis
  proof (rule live_ok_intro [OF ok])
    show "\<exists>es. mp4_run es (lv_sys (live_take lib n s))" using ok by (simp add: eq live_ok_def)
    show "pipe_ok lib (live_take lib n s) m" if "pipe_ok lib s m" for m
      using that True carried_take [OF _ d] by (cases "m = n") (auto simp: eq pipe_ok_def t)
    show "viewer_ok (live_take lib n s) ch" if "viewer_ok s ch" for ch
      using that by (simp add: eq viewer_ok_def)
  qed
next
  case False
  then have "live_take lib n s = s" by (auto simp: live_take_def split: list.split)
  with ok show ?thesis by simp
qed

lemma carried_skip:
  "carried lib live taken d emitted (a # todo) \<Longrightarrow> (\<And>f. a = Emit f \<Longrightarrow> live \<Longrightarrow> \<not> lib_part_ok lib f) \<Longrightarrow>
   carried lib live taken d emitted todo"
  by (cases a) (auto simp: carried_def)

lemma carried_emit:
  "carried lib True taken d emitted (Emit f # todo) \<Longrightarrow> lib_part_ok lib f \<Longrightarrow>
   carried lib True taken d (emitted @ [f]) todo"
  unfolding carried_def by (elim exE conjE) (rule exI, rule exI, rule exI, auto simp: prefix_def)

lemma live_ok_todo:
  assumes "live_ok lib s" and "lv_todo s n = a # as"
    and "\<And>f. a = Emit f \<Longrightarrow> n \<notin> set (ps_cancelled (lv_sys s)) \<Longrightarrow> \<not> lib_part_ok lib f"
  shows "live_ok lib (s\<lparr>lv_todo := (lv_todo s)(n := as)\<rparr>)"
proof (rule live_ok_intro [OF assms(1)])
  show "pipe_ok lib (s\<lparr>lv_todo := (lv_todo s)(n := as)\<rparr>) m" if "pipe_ok lib s m" for m
    using that assms(2,3) carried_skip by (cases "m = n") (auto simp: pipe_ok_def split: if_splits)
qed (use assms(1) in \<open>simp_all add: live_ok_def viewer_ok_def\<close>)

lemma suffix_snoc: "suffix xs ys \<Longrightarrow> suffix (xs @ [z]) (ys @ [z])"
  by (auto simp: suffix_def)

lemma live_ok_fan_out:
  assumes ok: "live_ok lib s" and todo: "lv_todo s n = Emit f # as" and "lib_part_ok lib f"
    and live: "n \<notin> set (ps_cancelled (lv_sys s))"
  shows "live_ok lib (fan_out n f (s\<lparr>lv_todo := (lv_todo s)(n := as)\<rparr>))" (is "live_ok lib ?s'")
proof (rule live_ok_intro [OF ok])
  let ?y = "lv_sys s"
  have sess: "n \<in> set (ps_sessions ?y)"
    using todo_session [OF ok, of n] todo by simp
  have y': "lv_sys ?s' = emit_fragment n (\<lambda>ch. length (lv_buf s ch) < sub_chan_cap) ?y"
    using live by (simp add: fan_out_def Let_def)
  have same: "ps_sessions (lv_sys ?s') = ps_sessions ?y" "ps_chans (lv_sys ?s') = ps_chans ?y"
    "ps_cancelled (lv_sys ?s') = ps_cancelled ?y" "ps_mux (lv_sys ?s') = ps_mux ?y"
    by (simp_all add: y' emit_fragment_def)
  show "\<exists>es. mp4_run es (lv_sys ?s')"
    using ok run_extended mp4_step.emit [OF sess] by (simp add: y' live_ok_def) blast
  show "pipe_ok lib ?s' m" if "pipe_ok lib s m" for m
    using that live sess todo carried_emit [OF _ assms(3)]
    by (cases "m = n") (auto simp: pipe_ok_def same fan_out_def Let_def emit_fragment_def)
  have subs: "(ch, n) \<in> set (ps_chans ?y)" if "ch \<in> set (mm_subs (ps_mux ?y))" for ch
    using live_ok_sys [OF ok] sess live that by (auto simp: mp4_ok_def session_ok_def list_all_iff split: if_splits)
  have one: "m = n" if "(ch, m) \<in> set (ps_chans ?y)" "(ch, n) \<in> set (ps_chans ?y)" for ch m
  proof -
    have "distinct (map fst (ps_chans ?y))" using live_ok_sys [OF ok] by (simp add: mp4_ok_def chans_ok_def)
    with that show ?thesis by (metis eq_key_imp_eq_value)
  qed
  show "viewer_ok ?s' ch" if v: "viewer_ok s ch" for ch
  proof (cases "ch \<in> set (mm_subs (ps_mux ?y))")
    case True
    have "length (ps_chans ?y) > ch" using live_ok_sys [OF ok] True by (auto simp: mp4_ok_def chans_ok_def list_all_iff)
    then show ?thesis
      using v True one subs [OF True] suffix_snoc live
        go_chan.offer_bound [of "lv_buf s ch" f] go_chan.offer_subseq [of "lv_got s ch" "lv_buf s ch" "lv_offered s ch" f]
      by (auto simp: viewer_ok_def same fan_out_def Let_def emit_fragment_def try_send_def)
  next
    case False
    have "sublist xs ys \<Longrightarrow> sublist xs (ys @ [f])" for xs ys by (metis append.assoc sublist_def)
    with v False live show ?thesis
      by (auto simp: viewer_ok_def same fan_out_def Let_def emit_fragment_def)
  qed
qed

lemma live_ok_act:
  assumes ok: "live_ok lib s"
  shows "live_ok lib (live_act lib n s)"
proof (cases "lv_todo s n")
  case (Cons a as)
  show ?thesis
  proof (cases a)
    case (PublishInit sps pps)
    have "n \<in> set (ps_sessions (lv_sys s))" using todo_session [OF ok, of n] Cons by simp
    from live_ok_sys_step [OF live_ok_todo [OF ok Cons], of "mp4_event.PublishInit n (lib_init lib sps pps)"
        "publish_init n (lib_init lib sps pps)"] mp4_step.publish [OF this]
    show ?thesis using Cons PublishInit by (simp add: live_act_def on_sys_def shrinks_ops)
  next
    case (Emit f)
    then show ?thesis
      using ok Cons live_ok_fan_out [OF ok, of n f as] live_ok_todo [OF ok Cons]
      by (auto simp: live_act_def Let_def fan_out_def)
  qed
qed (use ok in \<open>simp add: live_act_def\<close>)

lemma live_ok_step: "live_ok lib s \<Longrightarrow> live_ok lib (live_step lib e s)"
  by (cases e) (auto intro: live_ok_begin live_ok_join live_ok_init live_ok_deliver live_ok_packet live_ok_take live_ok_act
      live_ok_sys_step mp4_step.intros shrinks_ops live_ok_left)

lemma live_run_ok: "live_ok lib (live_run lib es)"
proof -
  have "live_ok lib s \<Longrightarrow> live_ok lib (fold (live_step lib) es s)" for s
    by (induction es arbitrary: s) (simp_all add: live_ok_step)
  then show ?thesis by (simp add: live_run_def)
qed


section \<open>Slow viewers\<close>

text \<open>Two muxers that differ in fragments sent, and in no channel closed.\<close>

definition same_but_sends :: "mp4_sys \<Rightarrow> mp4_sys \<Rightarrow> bool" where
  "same_but_sends y y' \<longleftrightarrow> y' = y\<lparr>ps_events := ps_events y'\<rparr> \<and>
     (\<forall>ch. CloseChan ch \<in> set (ps_events y') \<longleftrightarrow> CloseChan ch \<in> set (ps_events y))"

lemma same_but_sendsE:
  assumes "same_but_sends y y'"
  obtains E where "y' = y\<lparr>ps_events := E\<rparr>" "\<And>ch. CloseChan ch \<in> set E \<longleftrightarrow> CloseChan ch \<in> set (ps_events y)"
  using assms by (auto simp: same_but_sends_def)

lemma same_but_sends_ops:
  assumes "same_but_sends y y'"
  shows "same_but_sends (stop_locked y) (stop_locked y')"
    and "same_but_sends (unregister_sub ch y) (unregister_sub ch y')"
    and "same_but_sends (publish_init n b y) (publish_init n b y')"
    and "same_but_sends (read_loop_cancelled n y) (read_loop_cancelled n y')"
    and "same_but_sends (watchdog_touch now y) (watchdog_touch now y')"
    and "same_but_sends (emit_fragment n r y) (emit_fragment n r' y')"
    and "same_but_sends (y\<lparr>ps_readers := rs\<rparr>) (y'\<lparr>ps_readers := rs\<rparr>)"
    and "same_but_sends (snd (register_sub y)) (snd (register_sub y')) \<and> fst (register_sub y') = fst (register_sub y)"
proof -
  obtain E where E: "y' = y\<lparr>ps_events := E\<rparr>" "\<forall>ch. CloseChan ch \<in> set E \<longleftrightarrow> CloseChan ch \<in> set (ps_events y)"
    using assms by (rule same_but_sendsE) blast
  note defs = same_but_sends_def E(1)
  show "same_but_sends (stop_locked y) (stop_locked y')"
    using E(2) by (auto simp: defs stop_locked_def Let_def split: option.split)
  show "same_but_sends (unregister_sub ch y) (unregister_sub ch y')"
    "same_but_sends (publish_init n b y) (publish_init n b y')"
    "same_but_sends (read_loop_cancelled n y) (read_loop_cancelled n y')"
    "same_but_sends (watchdog_touch now y) (watchdog_touch now y')"
    "same_but_sends (y\<lparr>ps_readers := rs\<rparr>) (y'\<lparr>ps_readers := rs\<rparr>)"
    using E(2) by (simp_all add: defs unregister_sub_def publish_init_def read_loop_cancelled_def watchdog_touch_def)
  show "same_but_sends (emit_fragment n r y) (emit_fragment n r' y')"
    using E(2) by (auto simp: defs emit_fragment_def)
  show "same_but_sends (snd (register_sub y)) (snd (register_sub y')) \<and> fst (register_sub y') = fst (register_sub y)"
    using E(2) by (simp add: defs register_sub_def Let_def)
qed

lemma same_but_sends_fields:
  "same_but_sends y y' \<Longrightarrow> ps_mux y' = ps_mux y \<and> ps_dialed y' = ps_dialed y \<and> ps_open y' = ps_open y \<and>
   ps_cancelled y' = ps_cancelled y \<and> ps_sessions y' = ps_sessions y \<and> ps_readers y' = ps_readers y"
  by (auto elim!: same_but_sendsE)

lemma same_but_sends_ended: "same_but_sends y y' \<Longrightarrow> same_but_sends (read_loop_ended n y) (read_loop_ended n y')"
  using same_but_sends_fields [of y y'] by (simp add: read_loop_ended_def same_but_sends_ops)

lemma same_but_sends_watchdog:
  "same_but_sends y y' \<Longrightarrow> same_but_sends (snd (watchdog_stop now y)) (snd (watchdog_stop now y'))"
  using same_but_sends_fields [of y y'] by (simp add: watchdog_stop_def Let_def same_but_sends_ops)

lemma same_but_sends_begin:
  assumes "same_but_sends y y'"
  shows "same_but_sends (snd (serve_begin io now y)) (snd (serve_begin io now y'))"
proof -
  obtain E where E: "y' = y\<lparr>ps_events := E\<rparr>" "\<And>ch. CloseChan ch \<in> set E \<longleftrightarrow> CloseChan ch \<in> set (ps_events y)"
    using assms by (rule same_but_sendsE) blast
  show ?thesis
    using E(2) by (auto simp: E(1) same_but_sends_def serve_begin_def ensure_started_def start_locked_def stop_locked_def Let_def
        split: prod.split sum.split option.split)
qed

text \<open>Two bridges that look alike to viewer \<open>ch\<close>: they differ in what the other viewers have read.\<close>

definition alike :: "nat \<Rightarrow> mp4_live \<Rightarrow> mp4_live \<Rightarrow> bool" where
  "alike ch s s' \<longleftrightarrow> same_but_sends (lv_sys s) (lv_sys s') \<and>
     lv_auch s' = lv_auch s \<and> lv_demux s' = lv_demux s \<and> lv_todo s' = lv_todo s \<and> lv_init s' = lv_init s \<and>
     lv_decoded s' = lv_decoded s \<and> lv_taken s' = lv_taken s \<and> lv_emitted s' = lv_emitted s \<and>
     lv_offered s' = lv_offered s \<and> lv_buf s' ch = lv_buf s ch \<and> lv_got s' ch = lv_got s ch \<and>
     lv_missed s' ch = lv_missed s ch \<and>
     (\<forall>c. c = ch \<or> lv_init s c = None \<longrightarrow> (c \<in> set (lv_viewers s') \<longleftrightarrow> c \<in> set (lv_viewers s)))"

lemma alike_on_sys: "alike ch s s' \<Longrightarrow> same_but_sends (g (lv_sys s)) (g (lv_sys s')) \<Longrightarrow> alike ch (on_sys g s) (on_sys g s')"
  by (simp add: alike_def on_sys_def)

lemma alike_leave: "alike ch s s' \<Longrightarrow> alike ch (live_leave c s) (live_leave c s')"
  by (simp add: alike_def live_leave_def same_but_sends_ops)

lemma alike_other:
  assumes ok: "live_ok lib s" and a: "alike ch s s'" and "c \<noteq> ch"
  shows "alike ch (live_deliver c True s) s'"
proof -
  have "unregister_sub c (lv_sys s) = lv_sys s" if "CloseChan c \<in> set (ps_events (lv_sys s))"
  proof -
    have "c \<notin> set (mm_subs (ps_mux (lv_sys s)))"
      using live_ok_sys [OF ok] that by (auto simp: mp4_ok_def chans_ok_def list_all_iff)
    then show ?thesis by (simp add: unregister_sub_def)
  qed
  then show ?thesis using a assms(3) by (auto simp: live_deliver_def alike_def live_leave_def Let_def split: list.split)
qed


lemma alike_sys: "alike ch s s' \<Longrightarrow> same_but_sends (lv_sys s) (lv_sys s')"
  by (simp add: alike_def)

lemmas alike_fields = same_but_sends_fields [OF alike_sys]

lemma alike_begin: "alike ch s s' \<Longrightarrow> alike ch (live_begin lib io now s) (live_begin lib io now s')"
  using alike_fields [of ch s s'] same_but_sends_begin [OF alike_sys, of ch s s' io now]
  by (auto simp: live_begin_def alike_def Let_def split: sum.split)

lemma alike_join: "alike ch s s' \<Longrightarrow> alike ch (live_join s) (live_join s')"
  using same_but_sends_ops(8) [OF alike_sys, of ch s s']
  by (cases "register_sub (lv_sys s)"; cases "register_sub (lv_sys s')")
    (auto simp: live_join_def alike_def split: sum.split)

lemma alike_init: "alike ch s s' \<Longrightarrow> alike ch (live_init c ok s) (live_init c ok s')"
proof -
  assume a: "alike ch s s'"
  then have eq: "c \<in> set (lv_viewers s') \<and> lv_init s' c = None \<longleftrightarrow> c \<in> set (lv_viewers s) \<and> lv_init s c = None"
    "mm_init (ps_mux (lv_sys s')) = mm_init (ps_mux (lv_sys s))"
    using alike_fields [OF a] by (auto simp: alike_def)
  have "alike ch (s\<lparr>lv_init := (lv_init s)(c := Some b)\<rparr>) (s'\<lparr>lv_init := (lv_init s')(c := Some b)\<rparr>)" for b
    using a by (auto simp: alike_def)
  with a alike_leave [OF a, of c] show ?thesis by (simp add: live_init_def eq split: option.split)
qed

lemma alike_own: "alike ch s s' \<Longrightarrow> alike ch (live_deliver ch ok s) (live_deliver ch ok s')"
proof -
  assume a: "alike ch s s'"
  then have eq: "(ch \<in> set (lv_viewers s')) = (ch \<in> set (lv_viewers s))" "lv_init s' = lv_init s"
    "lv_buf s' ch = lv_buf s ch" "lv_got s' ch = lv_got s ch" "lv_missed s' ch = lv_missed s ch"
    "(CloseChan ch \<in> set (ps_events (lv_sys s'))) = (CloseChan ch \<in> set (ps_events (lv_sys s)))"
    by (auto simp: alike_def same_but_sends_def)
  have g: "alike ch (s\<lparr>lv_buf := (lv_buf s)(ch := fs), lv_got := (lv_got s)(ch := x)\<rparr>)
      (s'\<lparr>lv_buf := (lv_buf s')(ch := fs), lv_got := (lv_got s')(ch := x)\<rparr>)" for fs x
    using a by (simp add: alike_def)
  have "alike ch (s\<lparr>lv_buf := (lv_buf s)(ch := fs), lv_missed := (lv_missed s)(ch := k)\<rparr>)
      (s'\<lparr>lv_buf := (lv_buf s')(ch := fs), lv_missed := (lv_missed s')(ch := k)\<rparr>)" for fs k
    using a by (simp add: alike_def)
  from a alike_leave [OF a] g alike_leave [OF this] show ?thesis
    by (auto simp: live_deliver_def eq Let_def split: list.split)
qed

lemma alike_take: "alike ch s s' \<Longrightarrow> alike ch (live_take lib n s) (live_take lib n s')"
  using alike_fields [of ch s s'] by (auto simp: live_take_def alike_def split: list.split prod.split)

lemma alike_act: "alike ch s s' \<Longrightarrow> alike ch (live_act lib n s) (live_act lib n s')"
  using alike_fields [of ch s s'] same_but_sends_ops(3,6) [OF alike_sys, of ch s s']
  by (auto simp: live_act_def fan_out_def alike_def Let_def split: list.split demux_action.split)

lemma alike_step:
  assumes "alike ch s s'" and "\<And>c ok. e = Deliver c ok \<Longrightarrow> c = ch"
  shows "alike ch (live_step lib e s) (live_step lib e s')"
proof (cases e)
  case (Packet n u)
  with assms(1) alike_fields [OF assms(1)] show ?thesis by (auto simp: live_packet_def alike_def split: option.split)
next
  case (Deliver c ok)
  with assms alike_own show ?thesis by simp
qed (use assms(1) alike_fields [OF assms(1)] in
    \<open>simp_all add: alike_begin alike_join alike_init alike_leave alike_take alike_act alike_on_sys
       same_but_sends_ops same_but_sends_ended same_but_sends_watchdog alike_sys\<close>)

text \<open>A read by another viewer than \<open>ch\<close> that goes through, and one whose write fails.\<close>

fun other_reads :: "nat \<Rightarrow> live_event \<Rightarrow> bool" where
  "other_reads ch (Deliver c ok) \<longleftrightarrow> ok \<and> c \<noteq> ch"
| "other_reads ch e \<longleftrightarrow> False"

fun other_breaks :: "nat \<Rightarrow> live_event \<Rightarrow> bool" where
  "other_breaks ch (Deliver c ok) \<longleftrightarrow> \<not> ok \<and> c \<noteq> ch"
| "other_breaks ch e \<longleftrightarrow> False"

lemma alike_run:
  assumes "\<not> list_ex (other_breaks ch) es" and "live_ok lib s" and "alike ch s s'"
  shows "alike ch (fold (live_step lib) es s) (fold (live_step lib) (filter (\<lambda>e. \<not> other_reads ch e) es) s')"
  using assms
proof (induction es arbitrary: s s')
  case (Cons e es)
  show ?case
  proof (cases "other_reads ch e")
    case True
    then obtain c where c: "e = Deliver c True" "c \<noteq> ch" by (cases e) auto
    then have "alike ch (live_step lib e s) s'" using alike_other [OF Cons.prems(2,3)] by simp
    from Cons.IH [OF _ live_ok_step [OF Cons.prems(2)] this] show ?thesis using Cons.prems(1) True by simp
  next
    case False
    have "alike ch (live_step lib e s) (live_step lib e s')"
      by (rule alike_step [OF Cons.prems(3)]) (use False Cons.prems(1) in auto)
    from Cons.IH [OF _ live_ok_step [OF Cons.prems(2)] this] show ?thesis using Cons.prems(1) False by simp
  qed
qed simp

section \<open>Properties\<close>

lemma timeline_drop: "timeline b n (xs @ ys) \<Longrightarrow> \<exists>b' n'. timeline b' n' ys"
  by (induction xs arbitrary: b n) auto

lemma timeline_take: "timeline b n (xs @ ys) \<Longrightarrow> timeline b n xs"
  by (induction xs arbitrary: b n) auto

lemma timeline_sublist: "timeline b n ys \<Longrightarrow> sublist xs ys \<Longrightarrow> \<exists>b' n'. timeline b' n' xs"
  unfolding sublist_def using timeline_drop timeline_take by (metis (no_types))

lemma carried_emitted:
  "carried lib live taken d emitted todo \<Longrightarrow>
   \<exists>sps pps. prefix emitted (filter (lib_part_ok lib) (fragments (snd (demux_run (lib_spare lib) (lib_init_ok lib)
     (demux0 (lib_spare lib) sps pps) taken))))"
  unfolding carried_def by (metis snd_conv)

text \<open>
  C14: what a viewer of session \<open>n\<close> gets, whatever else happens at the muxer: fragments of one unbroken
  stretch of what the session fanned out, in order, some of them left out when its channel was full
  and at most 64 waiting; all of them, which then tile time without a gap, when it missed none. And
  what the session fanned out is what the demultiplexer made, in order, of units the camera sent.
\<close>

theorem viewer_gets_stream_in_order:
  assumes "(ch, n) \<in> set (ps_chans (lv_sys s))" and "s = live_run lib es"
  shows "subseq (lv_got s ch @ lv_buf s ch) (lv_offered s ch) \<and> sublist (lv_offered s ch) (lv_emitted s n) \<and>
    length (lv_buf s ch) \<le> 64 \<and> subseq (lv_taken s n) (lv_decoded s n) \<and>
    (\<exists>sps pps. prefix (lv_emitted s n) (filter (lib_part_ok lib) (fragments (snd (demux_run (lib_spare lib) (lib_init_ok lib)
       (demux0 (lib_spare lib) sps pps) (lv_taken s n)))))) \<and>
    (lv_missed s ch = 0 \<longrightarrow> lv_got s ch @ lv_buf s ch = lv_offered s ch \<and>
       ((\<forall>f. lib_part_ok lib f) \<longrightarrow> (\<exists>b k. timeline b k (lv_got s ch @ lv_buf s ch))))"
proof -
  have ok: "live_ok lib s" unfolding assms(2) by (rule live_run_ok)
  note v = viewer_counts [OF ok, of ch]
  have sub: "sublist (lv_offered s ch) (lv_emitted s n)"
  proof -
    have "viewer_ok s ch" using ok by (simp add: live_ok_def)
    then show ?thesis
      using assms(1) suffix_sublist by (cases "ch \<in> set (mm_subs (ps_mux (lv_sys s)))") (auto simp: viewer_ok_def)
  qed
  have p: "pipe_ok lib s n" using ok by (simp add: live_ok_def)
  have "n \<in> set (ps_sessions (lv_sys s)) \<or> lv_taken s n = [] \<and> lv_emitted s n = []" using p by (auto simp: pipe_ok_def)
  then obtain sps pps where em: "prefix (lv_emitted s n) (filter (lib_part_ok lib) (fragments (snd (demux_run (lib_spare lib)
      (lib_init_ok lib) (demux0 (lib_spare lib) sps pps) (lv_taken s n)))))"
    using p carried_emitted by (cases "n \<in> set (ps_sessions (lv_sys s))") (simp_all add: pipe_ok_def, blast)
  have all: "lv_got s ch @ lv_buf s ch = lv_offered s ch" if "lv_missed s ch = 0"
    using v that by (intro subseq_same_length) auto
  have "\<exists>b k. timeline b k (lv_offered s ch)" if "\<forall>f. lib_part_ok lib f"
  proof -
    let ?fs = "fragments (snd (demux_run (lib_spare lib) (lib_init_ok lib) (demux0 (lib_spare lib) sps pps) (lv_taken s n)))"
    have "pending_inv (demux0 (lib_spare lib) sps pps)" "base_time (demux0 (lib_spare lib) sps pps) = 0"
      "seq_num (demux0 (lib_spare lib) sps pps) = 0" by (simp_all add: pending_inv_def demux0_def)
    then have "timeline 0 0 ?fs" using timeline_run [OF surjective_pairing] by metis
    moreover have "sublist (lv_emitted s n) ?fs" using em that by (simp add: prefix_imp_sublist)
    with sub have "sublist (lv_offered s ch) ?fs" by (rule sublist_order.order.trans)
    ultimately show ?thesis by (rule timeline_sublist)
  qed
  moreover have "subseq (lv_taken s n) (lv_decoded s n)"
    using p by (auto simp: pipe_ok_def dest: subseq_order.trans [rotated] intro: list_emb_append2)
  ultimately show ?thesis using v sub em all by (auto simp: sub_chan_cap_def)
qed

text \<open>Two viewers of one session; the second never reads.\<close>

definition ex_lib :: mp4_lib where
  "ex_lib = \<lparr>lib_spare = (\<lambda>_. 0), lib_init_ok = (\<lambda>_ _. True), lib_init = (\<lambda>sps pps. sps @ pps), lib_part_ok = (\<lambda>_. True)\<rparr>"

definition ex_live :: "live_event list" where
  "ex_live =
     [Request (ex_io 0) 0, Join, Request (ex_io 0) 1, Join, Packet 0 (Some \<lparr>tau_ts = 0, tau_au = [[0x65, 1]]\<rparr>),
      TakeUnit 0, Act 0, ReadInit 0 True, ReadInit 1 True, Packet 0 None,
      Packet 0 (Some \<lparr>tau_ts = 3000, tau_au = [[0x41, 2]]\<rparr>), TakeUnit 0, Act 0, Deliver 0 True, Deliver 1 True,
      Packet 0 (Some \<lparr>tau_ts = 6000, tau_au = [[0x41, 3]]\<rparr>), TakeUnit 0, Act 0, Deliver 0 True]"

theorem viewer_gets_stream_in_order_witness:
  "map frag_au (lv_got (live_run ex_lib ex_live) 0) = [[[0x67, 1, 2, 3], [0x68], [0x65, 1]], [[0x41, 2]]] \<and>
   (\<exists>b k. timeline b k (lv_got (live_run ex_lib ex_live) 0 @ lv_buf (live_run ex_lib ex_live) 0))"
proof -
  have "(0, 0) \<in> set (ps_chans (lv_sys (live_run ex_lib ex_live)))" by code_simp
  moreover have "lv_missed (live_run ex_lib ex_live) 0 = 0" by code_simp
  moreover have "\<forall>f. lib_part_ok ex_lib f" by (simp add: ex_lib_def)
  ultimately have "\<exists>b k. timeline b k (lv_got (live_run ex_lib ex_live) 0 @ lv_buf (live_run ex_lib ex_live) 0)"
    using viewer_gets_stream_in_order [OF _ refl, of 0 0 ex_lib ex_live] by blast
  moreover have "map frag_au (lv_got (live_run ex_lib ex_live) 0) = [[[0x67, 1, 2, 3], [0x68], [0x65, 1]], [[0x41, 2]]]"
    by code_simp
  ultimately show ?thesis by simp
qed

text \<open>
  C24: a viewer who reads slowly, or not at all, changes nothing for viewer \<open>ch\<close>: taking away every read
  of the others from a run leaves what \<open>ch\<close> was offered, has in its channel, was written and missed
  as it is, and the session's demultiplexer too.
\<close>

theorem stalled_viewers_change_nothing:
  assumes "\<not> list_ex (other_breaks ch) es"
    and "s = live_run lib es" and "s' = live_run lib (filter (\<lambda>e. \<not> other_reads ch e) es)"
  shows "lv_got s' ch = lv_got s ch \<and> lv_buf s' ch = lv_buf s ch \<and> lv_offered s' ch = lv_offered s ch \<and>
    lv_missed s' ch = lv_missed s ch \<and> lv_init s' ch = lv_init s ch \<and> lv_demux s' = lv_demux s \<and> lv_emitted s' = lv_emitted s"
proof -
  have "alike ch new_live new_live" by (simp add: alike_def same_but_sends_def)
  from alike_run [OF assms(1) live_ok_new this, of lib] show ?thesis
    by (simp add: alike_def assms(2,3) live_run_def)
qed

theorem stalled_viewers_change_nothing_witness:
  "lv_got (live_run ex_lib (filter (\<lambda>e. \<not> other_reads 0 e) ex_live)) 0 = lv_got (live_run ex_lib ex_live) 0 \<and>
   length (lv_buf (live_run ex_lib (filter (\<lambda>e. \<not> other_reads 0 e) ex_live)) 1) = 2 \<and>
   length (lv_buf (live_run ex_lib ex_live) 1) = 1"
proof -
  have "\<not> list_ex (other_breaks 0) ex_live" by code_simp
  from stalled_viewers_change_nothing [OF this refl refl, of ex_lib]
  have "lv_got (live_run ex_lib (filter (\<lambda>e. \<not> other_reads 0 e) ex_live)) 0 = lv_got (live_run ex_lib ex_live) 0" by simp
  moreover have "length (lv_buf (live_run ex_lib (filter (\<lambda>e. \<not> other_reads 0 e) ex_live)) 1) = 2" by code_simp
  moreover have "length (lv_buf (live_run ex_lib ex_live) 1) = 1" by code_simp
  ultimately show ?thesis by simp
qed

text \<open>
  A defect: \<open>waitInit\<close> does not ask which session its viewer is in. When the session stops and another
  request starts the next one between two looks, the viewer is sent the init segment of the new
  session, then the fragments of the old one that are left in its closed channel.
\<close>

definition ex_restart :: "live_event list" where
  "ex_restart =
     [Request (ex_io 0) 0, Join, Packet 0 (Some \<lparr>tau_ts = 0, tau_au = [[0x65, 1]]\<rparr>), TakeUnit 0, Act 0,
      Packet 0 (Some \<lparr>tau_ts = 3000, tau_au = [[0x41, 2]]\<rparr>), TakeUnit 0, Act 0, SessionEnds 0,
      Request ((ex_io 0)\<lparr>io_describe := Inr [[H264Format [0x67, 9] [0x68, 9]]]\<rparr>) 1, Join,
      Packet 1 (Some \<lparr>tau_ts = 0, tau_au = [[0x65, 7]]\<rparr>), TakeUnit 1, Act 1, ReadInit 0 True, Deliver 0 True]"

theorem waiting_viewer_mixes_sessions:
  "let s = live_run ex_lib ex_restart in
     (0, 0) \<in> set (ps_chans (lv_sys s)) \<and> lv_init s 0 = Some ([0x67, 9] @ [0x68, 9]) \<and>
     map frag_au (lv_got s 0) = [[[0x67, 1, 2, 3], [0x68], [0x65, 1]]]"
  by code_simp

end
