(* ===== verification/Mp4Server.thy ===== *)
theory Mp4Server
  imports Mp4Live MuxServer
begin

text \<open>
  The progressive MP4 server as a whole, \<open>internal/mp4/muxer.go\<close>: the table of \<open>MuxServer\<close> over the
  muxers of \<open>Mp4Live\<close>. A request looks its muxer up under the lock of the table and enters it after
  the lock is gone; \<open>Prune\<close> and \<open>Shutdown\<close> close muxers under that lock. The theorems say what a viewer
  still gets once the muxer is closed, and what slips through between the two locks.
\<close>

section \<open>The server\<close>

text \<open>
  The muxers by object number, and the requests that have left \<open>muxerFor\<close> but not yet taken the lock
  of the muxer they were given.
\<close>

record mp4_server =
  sv_table :: mux_server
  sv_live :: "nat \<Rightarrow> mp4_live"
  sv_flight :: "nat list"

definition new_mp4_server :: mp4_server where
  "new_mp4_server = \<lparr>sv_table = new_mux_server, sv_live = (\<lambda>_. new_live), sv_flight = []\<rparr>"

text \<open>A new table: \<open>Close\<close> has run on the muxers that left it.\<close>

definition with_table :: "mp4_lib \<Rightarrow> mux_server \<Rightarrow> mp4_server \<Rightarrow> mp4_server" where
  "with_table lib t s =
     s\<lparr>sv_table := t,
       sv_live := (\<lambda>x. if x \<in> set (ms_closed t) \<and> x \<notin> set (ms_closed (sv_table s))
                       then live_step lib CloseAll (sv_live s x) else sv_live s x)\<rparr>"

text \<open>What happens at one muxer without the server: everything but its \<open>ServeHTTP\<close> and its \<open>Close\<close>.\<close>

fun own_event :: "live_event \<Rightarrow> bool" where
  "own_event (Request io now) \<longleftrightarrow> False"
| "own_event CloseAll \<longleftrightarrow> False"
| "own_event _ \<longleftrightarrow> True"

datatype server_event =
    Arrive "string \<Rightarrow> (string \<times> bool) option" http_request
  | Enter nat rtsp_io instant
  | AtMuxer nat live_event
  | PruneAll "string \<Rightarrow> (string \<times> bool) option"
  | ShutdownAll

fun server_step :: "mp4_lib \<Rightarrow> server_event \<Rightarrow> mp4_server \<Rightarrow> mp4_server" where
  "server_step lib (Arrive lookup r) s =
     (case mp4_serve lookup r (sv_table s) of
        (Inl _, t) \<Rightarrow> with_table lib t s
      | (Inr (m, _), t) \<Rightarrow> (with_table lib t s)\<lparr>sv_flight := mx_obj m # sv_flight s\<rparr>)"
| "server_step lib (Enter x io now) s =
     (if x \<in> set (sv_flight s)
      then s\<lparr>sv_flight := remove1 x (sv_flight s), sv_live := (sv_live s)(x := live_step lib (Request io now) (sv_live s x))\<rparr>
      else s)"
| "server_step lib (AtMuxer x e) s =
     (if own_event e then s\<lparr>sv_live := (sv_live s)(x := live_step lib e (sv_live s x))\<rparr> else s)"
| "server_step lib (PruneAll lookup) s = with_table lib (mp4_prune lookup (sv_table s)) s"
| "server_step lib ShutdownAll s = with_table lib (mp4_shutdown (sv_table s)) s"

definition server_run :: "mp4_lib \<Rightarrow> server_event list \<Rightarrow> mp4_server \<Rightarrow> mp4_server" where
  "server_run lib es s = fold (server_step lib) es s"

section \<open>A muxer that has stopped\<close>

text \<open>Without a session nothing reaches the viewers but what is in their channels already.\<close>

definition stopped :: "mp4_live \<Rightarrow> bool" where
  "stopped s \<longleftrightarrow> \<not> mm_started (ps_mux (lv_sys s))"

definition drains :: "mp4_live \<Rightarrow> mp4_live \<Rightarrow> bool" where
  "drains s s' \<longleftrightarrow> lv_emitted s' = lv_emitted s \<and>
     (\<forall>ch. prefix (lv_got s ch) (lv_got s' ch) \<and> subseq (lv_got s' ch @ lv_buf s' ch) (lv_got s ch @ lv_buf s ch))"

lemma drains_refl [simp, intro]: "drains s s"
  by (simp add: drains_def)

lemma drains_same:
  "lv_emitted s' = lv_emitted s \<Longrightarrow> lv_got s' = lv_got s \<Longrightarrow> lv_buf s' = lv_buf s \<Longrightarrow> drains s s'"
  by (simp add: drains_def)

lemma drains_trans: "drains s t \<Longrightarrow> drains t u \<Longrightarrow> drains s u"
  unfolding drains_def by (metis prefix_order.trans subseq_order.trans)

lemma stopped_sessions:
  assumes "live_ok lib s" and "stopped s"
  shows "ps_open (lv_sys s) = [] \<and> mm_subs (ps_mux (lv_sys s)) = [] \<and> set (ps_sessions (lv_sys s)) = set (ps_cancelled (lv_sys s))"
  using live_ok_sys [OF assms(1)] assms(2) by (simp add: mp4_ok_def session_ok_def stopped_def)

lemma stopped_close: "stopped (live_step lib CloseAll s) \<and> drains s (live_step lib CloseAll s)"
  by (auto simp: stopped_def on_sys_def stop_locked_def Let_def intro: drains_same)

lemma stopped_leave: "stopped s \<Longrightarrow> stopped (live_leave ch s) \<and> drains s (live_leave ch s)"
  by (simp add: stopped_def live_leave_def unregister_sub_def drains_def)

lemma stopped_deliver:
  assumes "stopped s"
  shows "stopped (live_deliver ch ok s) \<and> drains s (live_deliver ch ok s)"
proof (cases "lv_buf s ch")
  case Nil
  then show ?thesis using assms stopped_leave by (simp add: live_deliver_def)
next
  case (Cons f fs)
  have "subseq (lv_got s ch @ fs) (lv_got s ch @ f # fs)" by (rule list_emb_append_mono) (simp_all add: list_emb_Cons)
  then have "drains s (s\<lparr>lv_buf := (lv_buf s)(ch := fs), lv_missed := g\<rparr>)" for g
    using Cons by (simp add: drains_def)
  moreover have "stopped (s\<lparr>lv_buf := (lv_buf s)(ch := fs), lv_missed := g\<rparr>)" for g using assms by (simp add: stopped_def)
  ultimately have "stopped (live_leave ch (s\<lparr>lv_buf := (lv_buf s)(ch := fs), lv_missed := g\<rparr>)) \<and>
      drains s (live_leave ch (s\<lparr>lv_buf := (lv_buf s)(ch := fs), lv_missed := g\<rparr>))" for g
    using stopped_leave drains_trans by blast
  then show ?thesis
    using Cons assms by (simp add: live_deliver_def Let_def stopped_def drains_def)
qed

lemma stopped_act:
  assumes "live_ok lib s" and "stopped s"
  shows "stopped (live_act lib n s) \<and> drains s (live_act lib n s)"
proof (cases "lv_todo s n")
  case (Cons a as)
  have "n \<in> set (ps_cancelled (lv_sys s))"
    using todo_session [OF assms(1)] stopped_sessions [OF assms] Cons by force
  then show ?thesis
    using assms(2) Cons
    by (cases a) (auto simp: live_act_def Let_def fan_out_def publish_init_def stopped_def intro: drains_same)
qed (use assms(2) in \<open>simp add: live_act_def\<close>)

lemma stopped_own:
  assumes "live_ok lib s" and "stopped s" and "own_event e"
  shows "stopped (live_step lib e s) \<and> drains s (live_step lib e s)"
proof (cases e)
  case Join
  then show ?thesis using assms(2) by (simp add: live_join_def register_sub_def stopped_def)
next
  case (ReadInit ch ok)
  then show ?thesis
    using assms(2) stopped_leave [OF assms(2)]
    by (auto simp: live_init_def stopped_def split: option.split intro: drains_same)
next
  case (Packet n u)
  then show ?thesis using assms(2) stopped_sessions [OF assms(1,2)] by (simp add: live_packet_def split: option.split)
next
  case (TakeUnit n)
  then show ?thesis
    using assms(2) by (auto simp: live_take_def stopped_def split: list.split prod.split intro: drains_same)
qed (use assms stopped_deliver stopped_leave stopped_act in
    \<open>auto simp: on_sys_def stopped_def drains_def read_loop_ended_def read_loop_cancelled_def stop_locked_def watchdog_touch_def
      watchdog_stop_def Let_def\<close>)

section \<open>The invariant\<close>

text \<open>
  The table is in order, and every muxer, in it or not, is in a state that a run of \<open>Mp4Live\<close> reaches.
\<close>

definition server_ok :: "mp4_lib \<Rightarrow> mp4_server \<Rightarrow> bool" where
  "server_ok lib s \<longleftrightarrow> mux_ok (sv_table s) \<and> (\<forall>x. live_ok lib (sv_live s x))"

lemma server_ok_new [simp]: "server_ok lib new_mp4_server"
  by (simp add: server_ok_def new_mp4_server_def)

lemma server_ok_table: "server_ok lib s \<Longrightarrow> mux_ok t \<Longrightarrow> server_ok lib (with_table lib t s)"
  using live_ok_step [of lib _ CloseAll] by (simp add: server_ok_def with_table_def)

lemma server_ok_step: "server_ok lib s \<Longrightarrow> server_ok lib (server_step lib e s)"
proof (cases e)
  case (Arrive lookup r)
  obtain y t where y: "mp4_serve lookup r (sv_table s) = (y, t)" by fastforce
  moreover assume ok: "server_ok lib s"
  ultimately have "server_ok lib (with_table lib t s)"
    using served_ok [OF _ mp4_serve_cases [OF y]] server_ok_table [OF ok, of t] by (simp add: server_ok_def)
  then show ?thesis using Arrive y by (auto simp: server_ok_def split: sum.split)
next
  case (Enter x io now)
  then show "server_ok lib s \<Longrightarrow> ?thesis" using live_ok_step [of lib _ "Request io now"] by (simp add: server_ok_def)
qed (auto simp: server_ok_def live_ok_step intro!: server_ok_table [unfolded server_ok_def] mux_ok_mp4_shutdown
      dest: prune_spec [THEN conjunct1])

text \<open>A closed muxer that no request is in flight for stays closed, without a session.\<close>

definition retired_muxer :: "nat \<Rightarrow> mp4_server \<Rightarrow> bool" where
  "retired_muxer x s \<longleftrightarrow> x \<in> set (ms_closed (sv_table s)) \<and> x \<notin> set (sv_flight s) \<and> stopped (sv_live s x)"

lemma retired_muxer_table:
  assumes "retired_muxer x s" and "set (ms_closed (sv_table s)) \<subseteq> set (ms_closed t)"
  shows "retired_muxer x (with_table lib t s) \<and> sv_live (with_table lib t s) x = sv_live s x"
  using assms by (auto simp: retired_muxer_def with_table_def)

lemma retired_muxer_step:
  assumes "server_ok lib s" and "retired_muxer x s"
  shows "retired_muxer x (server_step lib e s) \<and> drains (sv_live s x) (sv_live (server_step lib e s) x)"
proof (cases e)
  case (Arrive lookup r)
  obtain y t where y: "mp4_serve lookup r (sv_table s) = (y, t)" by fastforce
  note t = retired_muxer_table [OF assms(2) served_closed [OF mp4_serve_cases [OF y]], of lib]
  moreover have "sv_flight (with_table lib t s) = sv_flight s" by (simp add: with_table_def)
  moreover have "mx_obj m \<noteq> x" if "y = Inr (m, p)" for m p
    using served_ok [OF _ mp4_serve_cases [OF y]] assms t that by (auto simp: server_ok_def retired_muxer_def with_table_def)
  ultimately show ?thesis using Arrive y by (auto simp: retired_muxer_def split: sum.split)
next
  case (Enter z io now)
  then show ?thesis using assms(2) by (auto simp: retired_muxer_def dest: notin_set_remove1)
next
  case (AtMuxer z f)
  then show ?thesis
    using assms stopped_own [of lib "sv_live s x" f] by (auto simp: retired_muxer_def server_ok_def)
next
  case (PruneAll lookup)
  then show ?thesis using retired_muxer_table [OF assms(2) closed_prune] by simp
next
  case ShutdownAll
  then show ?thesis using retired_muxer_table [OF assms(2), of "mp4_shutdown (sv_table s)"] by (simp add: mp4_shutdown_eq)
qed

interpretation mp4_fleet: muxer_fleet "server_step lib" "server_ok lib" retired_muxer sv_live drains for lib
  by unfold_locales (use server_ok_step retired_muxer_step drains_trans in blast)+

lemmas server_ok_run = mp4_fleet.ok_run [folded server_run_def]
lemmas retired_muxer_run = mp4_fleet.gone_run [folded server_run_def]

section \<open>Properties\<close>

text \<open>
  C7: what a prune takes from the viewers. When a camera is hidden or gone, its MP4 muxer is closed: every
  viewer's channel is closed and the connection to the camera with them, and from then on, whatever
  requests, prunes and events follow, the muxer never connects again and hands out nothing new. A
  viewer gets at most the 64 fragments that were waiting in its channel.
\<close>

theorem pruned_viewers_drain:
  assumes "s = server_run lib es new_mp4_server" and "(cam, m) \<in> set (ms_muxers (sv_table s))" and "lookup cam = None"
    and "mx_obj m \<notin> set (sv_flight s)" and "u = server_run lib (PruneAll lookup # es') s"
    and "old = sv_live s (mx_obj m)" and "new = sv_live u (mx_obj m)"
  shows "ps_open (lv_sys new) = [] \<and> mm_subs (ps_mux (lv_sys new)) = [] \<and> lv_emitted new = lv_emitted old \<and>
    (\<exists>fs. lv_got new ch = lv_got old ch @ fs \<and> subseq fs (lv_buf old ch) \<and> length fs \<le> 64)"
proof -
  let ?x = "mx_obj m" let ?t = "server_step lib (PruneAll lookup) s"
  have ok: "server_ok lib s" unfolding assms(1) by (rule server_ok_run) simp
  then have "mux_ok (sv_table s)" by (simp add: server_ok_def)
  from prune_closes [OF this assms(2), of lookup] have c: "?x \<in> set (ms_closed (prune lookup (sv_table s)))" "?x \<notin> set (ms_closed (sv_table s))"
    by (simp_all add: stale_def assms(3))
  then have t: "retired_muxer ?x ?t" "drains old (sv_live ?t ?x)"
    using assms(4) stopped_close [of lib old] by (simp_all add: retired_muxer_def with_table_def assms(6))
  have u: "u = server_run lib es' ?t" by (simp add: assms(5) server_run_def)
  note r = retired_muxer_run [OF server_ok_step [OF ok] t(1), of es']
  have live: "live_ok lib new" using server_ok_run [OF server_ok_step [OF ok], of es' "PruneAll lookup"] unfolding assms(7) u server_ok_def by blast
  have st: "stopped new" using r by (simp add: assms(7) u retired_muxer_def)
  have d: "drains old new" using r drains_trans [OF t(2)] by (simp add: assms(7) u)
  obtain fs where fs: "lv_got new ch = lv_got old ch @ fs" using d by (auto simp: drains_def prefix_def)
  then have "subseq (lv_got old ch @ fs @ lv_buf new ch) (lv_got old ch @ lv_buf old ch)"
    using d unfolding drains_def by (metis append_assoc)
  then have "subseq (fs @ lv_buf new ch) (lv_buf old ch)" by (simp add: subseq_append')
  moreover have "subseq fs (fs @ lv_buf new ch)" by (rule prefix_imp_subseq) simp
  ultimately have sub: "subseq fs (lv_buf old ch)" using subseq_order.trans by blast
  have "length (lv_buf old ch) \<le> 64"
    using ok viewer_counts by (auto simp: assms(6) server_ok_def sub_chan_cap_def)
  then have "length fs \<le> 64" using list_emb_length [OF sub] by simp
  with sub fs have "\<exists>fs. lv_got new ch = lv_got old ch @ fs \<and> subseq fs (lv_buf old ch) \<and> length fs \<le> 64" by blast
  with stopped_sessions [OF live st] d show ?thesis by (simp add: drains_def)
qed

text \<open>A viewer of camera \<open>a\<close>, hidden while one fragment is waiting.\<close>

definition ex_lookup :: "string \<Rightarrow> (string \<times> bool) option" where
  "ex_lookup cam = (if cam = ''a'' then Some (''rtsp://a'', True) else None)"

definition ex_mp4_get :: http_request where
  "ex_mp4_get =
     \<lparr>req_method = ''GET'', path = ''/a/stream.mp4'', raw_query = [], header = (\<lambda>_. []), remote_addr = [],
      basic_auth = None, form = None, body_json = None\<rparr>"

definition ex_watched :: mp4_server where
  "ex_watched =
     server_run ex_lib (Arrive ex_lookup ex_mp4_get # Enter 0 (ex_io 0) 0 #
       map (AtMuxer 0) [Join, Packet 0 (Some \<lparr>tau_ts = 0, tau_au = [[0x65, 1]]\<rparr>), TakeUnit 0, Act 0, ReadInit 0 True,
         Packet 0 (Some \<lparr>tau_ts = 3000, tau_au = [[0x41, 2]]\<rparr>), TakeUnit 0, Act 0]) new_mp4_server"

definition ex_after :: "server_event list" where
  "ex_after =
     AtMuxer 0 (Packet 0 (Some \<lparr>tau_ts = 6000, tau_au = [[0x41, 3]]\<rparr>)) # AtMuxer 0 (TakeUnit 0) # AtMuxer 0 (Act 0) #
     map (AtMuxer 0) [Deliver 0 True, Deliver 0 True, Join]"

theorem pruned_viewers_drain_witness:
  "ps_open (lv_sys (sv_live (server_run ex_lib (PruneAll (\<lambda>_. None) # ex_after) ex_watched) 0)) = [] \<and>
   map frag_au (lv_got (sv_live (server_run ex_lib (PruneAll (\<lambda>_. None) # ex_after) ex_watched) 0) 0) = [[[0x67, 1, 2, 3], [0x68], [0x65, 1]]]"
proof -
  let ?m = "\<lparr>mx_stream = ''a'', mx_url = ''rtsp://a'', mx_verify = True, mx_obj = 0\<rparr>"
  have "ms_muxers (sv_table ex_watched) = [(''a'', ?m)]" "sv_flight ex_watched = []" by code_simp+
  then have m: "(''a'', ?m) \<in> set (ms_muxers (sv_table ex_watched))" "mx_obj ?m \<notin> set (sv_flight ex_watched)" by simp_all
  have got: "map frag_au (lv_got (sv_live (server_run ex_lib (PruneAll (\<lambda>_. None) # ex_after) ex_watched) 0) 0) =
      [[[0x67, 1, 2, 3], [0x68], [0x65, 1]]]" by code_simp
  show ?thesis
    using pruned_viewers_drain [OF ex_watched_def m(1) refl m(2) refl refl refl, of ex_after] got by simp
qed

text \<open>
  A defect, between the two locks: a request that has its muxer when the prune runs starts a session
  on it afterwards, since \<open>Close\<close> leaves no mark. The hidden camera is connected and its viewer gets
  its video for as long as it stays: the muxer is in no table that a later prune or \<open>Shutdown\<close> looks
  at, and the watchdog never stops a muxer that has a viewer.
\<close>

definition ex_slipped :: mp4_server where
  "ex_slipped =
     server_run ex_lib ([Arrive ex_lookup ex_mp4_get, PruneAll (\<lambda>_. None), Enter 0 (ex_io 0) 0] @
       map (AtMuxer 0) [Join, Packet 0 (Some \<lparr>tau_ts = 0, tau_au = [[0x65, 1]]\<rparr>), TakeUnit 0, Act 0, ReadInit 0 True,
         Packet 0 (Some \<lparr>tau_ts = 3000, tau_au = [[0x41, 2]]\<rparr>), TakeUnit 0, Act 0, Deliver 0 True, Idle (10 ^ 15)] @
       [PruneAll (\<lambda>_. None), ShutdownAll]) new_mp4_server"

theorem request_in_flight_outlives_prune:
  "ms_muxers (sv_table ex_slipped) = [] \<and> ms_closed (sv_table ex_slipped) = [0] \<and>
   ps_open (lv_sys (sv_live ex_slipped 0)) = [0] \<and>
   map frag_au (lv_got (sv_live ex_slipped 0) 0) = [[[0x67, 1, 2, 3], [0x68], [0x65, 1]]]"
  by code_simp

end
