(* ===== verification/HlsSession.thy ===== *)
theory HlsSession
  imports Mp4Session
begin

text \<open>
  The life of one HLS muxer, \<open>Muxer\<close> of \<open>internal/hls/muxer.go\<close>: opening the RTSP session and the
  gohlslib muxer, serving a request from a snapshot of the muxer, the read loop, the idle watchdog,
  and the callback that feeds access units. One step per critical section of the muxer's lock.
\<close>

section \<open>Opening the upstream\<close>

text \<open>
  The calls of \<open>startLocked\<close>: those of the RTSP client (\<open>rtsp_io\<close>) and gohlslib's \<open>Start\<close>. The two
  event lists are what happens to the RTSP client and to the HLS muxer.
\<close>

record hls_io =
  hio_rtsp :: rtsp_io
  hio_start :: "string option"

definition hls_connect ::
  "hls_io \<Rightarrow> (string + bytes \<times> bytes) \<times> client_event list \<times> client_event list" where
  "hls_connect h =
     (let io = hio_rtsp h in
      case io_parse io of Some e \<Rightarrow> (Inl (''parse url: '' @ e), [], []) | None \<Rightarrow>
      case io_start io of Some e \<Rightarrow> (Inl (''rtsp start: '' @ e), [], []) | None \<Rightarrow>
      case io_describe io of Inl e \<Rightarrow> (Inl (''describe: '' @ e), [Opened, Closed], []) | Inr medias \<Rightarrow>
      case find_h264 medias of
        None \<Rightarrow> (Inl ''no H.264 video track in RTSP stream'', [Opened, Closed], [])
      | Some fmt \<Rightarrow>
      case io_setup io of Some e \<Rightarrow> (Inl (''setup: '' @ e), [Opened, Closed], []) | None \<Rightarrow>
      case io_decoder io of
        Some e \<Rightarrow> (Inl (''create h264 decoder: '' @ e), [Opened, Closed], []) | None \<Rightarrow>
      case hio_start h of Some e \<Rightarrow> (Inl (''hls start: '' @ e), [Opened, Closed], []) | None \<Rightarrow>
      case io_play io of Some e \<Rightarrow> (Inl (''play: '' @ e), [Opened, Closed], [Opened, Closed]) | None \<Rightarrow>
      (Inr fmt, [Opened], [Opened]))"

section \<open>The muxer\<close>

text \<open>
  Handles are numbered by the dial that made them. \<open>hm_ctx\<close> is what \<open>cancelUp\<close> cancels; it stays
  set after a stop, as in the code.
\<close>

record hls_muxer =
  hm_mux :: "nat option"
  hm_track :: "nat option"
  hm_client :: "nat option"
  hm_ctx :: "nat option"
  hm_started :: bool
  hm_last :: instant

text \<open>
  The muxer and what it has done: dials, RTSP clients and HLS muxers open, contexts cancelled,
  sessions started, and the read loops and watchdogs that have not returned.
\<close>

record hls_sys =
  hs_mux :: hls_muxer
  hs_dialed :: nat
  hs_clients :: "nat list"
  hs_muxes :: "nat list"
  hs_cancelled :: "nat list"
  hs_sessions :: "nat list"
  hs_readers :: "nat list"
  hs_watchers :: "nat list"

definition new_hls :: hls_sys where
  "new_hls =
     \<lparr>hs_mux = \<lparr>hm_mux = None, hm_track = None, hm_client = None, hm_ctx = None, hm_started = False, hm_last = 0\<rparr>,
      hs_dialed = 0, hs_clients = [], hs_muxes = [], hs_cancelled = [], hs_sessions = [], hs_readers = [],
      hs_watchers = []\<rparr>"

definition hls_idle_timeout :: duration where "hls_idle_timeout = 30 * second"

definition hls_stop_locked :: "hls_sys \<Rightarrow> hls_sys" where
  "hls_stop_locked s =
     (let m = hs_mux s in
      if \<not> hm_started m then s
      else
        s\<lparr>hs_cancelled := (case hm_ctx m of Some n \<Rightarrow> n # hs_cancelled s | None \<Rightarrow> hs_cancelled s),
          hs_clients := (case hm_client m of Some n \<Rightarrow> removeAll n (hs_clients s) | None \<Rightarrow> hs_clients s),
          hs_muxes := (case hm_mux m of Some n \<Rightarrow> removeAll n (hs_muxes s) | None \<Rightarrow> hs_muxes s),
          hs_mux := m\<lparr>hm_client := None, hm_mux := None, hm_track := None, hm_started := False\<rparr>\<rparr>)"

definition hls_start_locked :: "hls_io \<Rightarrow> instant \<Rightarrow> hls_sys \<Rightarrow> string option \<times> hls_sys" where
  "hls_start_locked h now s =
     (let n = hs_dialed s; (r, evs, mevs) = hls_connect h;
          s1 = s\<lparr>hs_dialed := n + 1,
            hs_clients := (if left_open evs then n # hs_clients s else hs_clients s),
            hs_muxes := (if left_open mevs then n # hs_muxes s else hs_muxes s)\<rparr>
      in case r of
           Inl e \<Rightarrow> (Some e, s1)
         | Inr fmt \<Rightarrow>
             (None, s1\<lparr>hs_sessions := n # hs_sessions s, hs_readers := n # hs_readers s,
                hs_watchers := n # hs_watchers s,
                hs_mux := \<lparr>hm_mux = Some n, hm_track = Some n, hm_client = Some n, hm_ctx = Some n,
                  hm_started = True, hm_last = now\<rparr>\<rparr>))"

definition hls_ensure_started :: "hls_io \<Rightarrow> instant \<Rightarrow> hls_sys \<Rightarrow> string option \<times> hls_sys" where
  "hls_ensure_started h now s =
     (if hm_started (hs_mux s) then (None, s)
      else case hls_start_locked h now s of
        (Some e, s1) \<Rightarrow> (Some e, hls_stop_locked s1)
      | (None, s1) \<Rightarrow> (None, s1))"

text \<open>
  \<open>ServeHTTP\<close>: the access time and \<open>ensureStarted\<close>; then (\<open>waitFirstSegment\<close> is a no-op) the snapshot
  of the HLS muxer under the lock. The result of the second is the muxer that handles the request.
\<close>

definition hls_touch :: "instant \<Rightarrow> hls_sys \<Rightarrow> hls_sys" where
  "hls_touch now s = s\<lparr>hs_mux := (hs_mux s)\<lparr>hm_last := now\<rparr>\<rparr>"

definition hls_begin :: "hls_io \<Rightarrow> instant \<Rightarrow> hls_sys \<Rightarrow> http_response option \<times> hls_sys" where
  "hls_begin h now s =
     (case hls_ensure_started h now (hls_touch now s) of
        (Some e, s1) \<Rightarrow> (Some (http_error ''stream unavailable'' 503), s1)
      | (None, s1) \<Rightarrow> (None, s1))"

definition hls_snapshot :: "hls_sys \<Rightarrow> http_response + nat" where
  "hls_snapshot s =
     (case hm_mux (hs_mux s) of
        None \<Rightarrow> Inl (http_error ''stream restarting'' 503)
      | Some n \<Rightarrow> Inr n)"

text \<open>\<open>runReadLoop\<close> of session \<open>n\<close>: the cancelled context, or the end of the RTSP session.\<close>

definition hls_read_cancelled :: "nat \<Rightarrow> hls_sys \<Rightarrow> hls_sys" where
  "hls_read_cancelled n s = s\<lparr>hs_readers := removeAll n (hs_readers s)\<rparr>"

definition hls_read_ended :: "nat \<Rightarrow> hls_sys \<Rightarrow> hls_sys" where
  "hls_read_ended n s = hls_stop_locked (s\<lparr>hs_readers := removeAll n (hs_readers s)\<rparr>)"

text \<open>
  A tick of \<open>runIdleWatchdog\<close> of session \<open>n\<close>: the check under the lock at time \<open>now\<close>. The check before
  it, without the lock, only skips ticks. The watchdog returns once it has stopped the session.
\<close>

definition hls_watchdog :: "nat \<Rightarrow> instant \<Rightarrow> hls_sys \<Rightarrow> bool \<times> hls_sys" where
  "hls_watchdog n now s =
     (if hm_started (hs_mux s) \<and> now - hm_last (hs_mux s) > hls_idle_timeout
      then (True, hls_stop_locked (s\<lparr>hs_watchers := removeAll n (hs_watchers s)\<rparr>))
      else (False, s))"

definition hls_watch_cancelled :: "nat \<Rightarrow> hls_sys \<Rightarrow> hls_sys" where
  "hls_watch_cancelled n s = s\<lparr>hs_watchers := removeAll n (hs_watchers s)\<rparr>"

section \<open>The callback\<close>

text \<open>
  \<open>OnPacketRTP\<close>: a packet is its RTP timestamp and what the decoder makes of it, \<open>None\<close> when the
  access unit is not complete or was damaged. Result: the clock, and what goes to \<open>WriteH264\<close>.
\<close>

definition hls_packet ::
  "bytes \<Rightarrow> bytes \<Rightarrow> u32 \<times> bytes list option \<Rightarrow> rtp_clock \<Rightarrow> (64 word \<times> bytes list) option \<times> rtp_clock" where
  "hls_packet sps pps p c =
     (case p of (ts, dec) \<Rightarrow>
      case dec of
        None \<Rightarrow> (None, c)
      | Some au0 \<Rightarrow>
          (let au = inject_hls au0 sps pps; c' = rtp_tick c ts in (Some (pts c', au), c')))"

fun hls_packets ::
  "bytes \<Rightarrow> bytes \<Rightarrow> (u32 \<times> bytes list option) list \<Rightarrow> rtp_clock \<Rightarrow> (64 word \<times> bytes list) list" where
  "hls_packets sps pps [] c = []"
| "hls_packets sps pps (p # ps) c =
     (case hls_packet sps pps p c of
        (None, c') \<Rightarrow> hls_packets sps pps ps c'
      | (Some w, c') \<Rightarrow> w # hls_packets sps pps ps c')"

section \<open>Runs\<close>

datatype hls_event =
    HlsBegin hls_io instant
  | HlsReadCancelled nat
  | HlsReadEnded nat
  | HlsWatchdog nat instant
  | HlsWatchCancelled nat
  | HlsClose

inductive hls_step :: "hls_event \<Rightarrow> hls_sys \<Rightarrow> hls_sys \<Rightarrow> bool" where
  serve: "hls_step (HlsBegin h now) s (snd (hls_begin h now s))"
| cancelled: "n \<in> set (hs_readers s) \<Longrightarrow> n \<in> set (hs_cancelled s) \<Longrightarrow>
    hls_step (HlsReadCancelled n) s (hls_read_cancelled n s)"
| ended: "n \<in> set (hs_readers s) \<Longrightarrow> hls_step (HlsReadEnded n) s (hls_read_ended n s)"
| tick: "n \<in> set (hs_watchers s) \<Longrightarrow> hls_step (HlsWatchdog n now) s (snd (hls_watchdog n now s))"
| unwatch: "n \<in> set (hs_watchers s) \<Longrightarrow> n \<in> set (hs_cancelled s) \<Longrightarrow>
    hls_step (HlsWatchCancelled n) s (hls_watch_cancelled n s)"
| close: "hls_step HlsClose s (hls_stop_locked s)"

inductive hls_run :: "hls_event list \<Rightarrow> hls_sys \<Rightarrow> bool" where
  start: "hls_run [] new_hls"
| next_step: "hls_run es s \<Longrightarrow> hls_step e s s' \<Longrightarrow> hls_run (es @ [e]) s'"

inductive_cases hls_stepE: "hls_step e s s'"

section \<open>The invariant\<close>

lemma hls_connect_left_open:
  assumes "hls_connect h = (r, evs, mevs)"
  shows "(left_open evs \<longleftrightarrow> (\<exists>fmt. r = Inr fmt)) \<and> (left_open mevs \<longleftrightarrow> left_open evs)"
  using assms by (auto simp: hls_connect_def left_open_def Let_def split: option.splits sum.splits)

text \<open>
  Exactly one client and one HLS muxer are open while a session runs, those of the session; none
  otherwise. Every session that runs has a read loop and a watchdog, so that somebody stops it.
\<close>

definition hls_ok :: "hls_sys \<Rightarrow> bool" where
  "hls_ok s \<longleftrightarrow>
     (if hm_started (hs_mux s)
      then (\<exists>n. hm_client (hs_mux s) = Some n \<and> hm_mux (hs_mux s) = Some n \<and> hm_ctx (hs_mux s) = Some n \<and>
              hs_clients s = [n] \<and> hs_muxes s = [n] \<and> n \<notin> set (hs_cancelled s) \<and>
              n \<in> set (hs_readers s) \<and> n \<in> set (hs_watchers s))
      else hm_client (hs_mux s) = None \<and> hm_mux (hs_mux s) = None \<and> hs_clients s = [] \<and> hs_muxes s = []) \<and>
     set (hs_readers s) \<subseteq> set (hs_sessions s) \<and> set (hs_watchers s) \<subseteq> set (hs_sessions s) \<and>
     set (hs_cancelled s) \<subseteq> set (hs_sessions s) \<and> (\<forall>n \<in> set (hs_sessions s). n < hs_dialed s)"

lemma hls_ok_new [simp, inv_intro]: "hls_ok new_hls"
  by (simp add: hls_ok_def new_hls_def)

lemma hls_ok_stop [inv_intro]:
  assumes "hls_ok s"
  shows "hls_ok (hls_stop_locked (s\<lparr>hs_readers := removeAll n (hs_readers s)\<rparr>))"
    and "hls_ok (hls_stop_locked (s\<lparr>hs_watchers := removeAll n (hs_watchers s)\<rparr>))"
    and "hls_ok (hls_stop_locked s)"
  using assms by (auto simp: hls_ok_def hls_stop_locked_def Let_def split: if_splits)

lemma hls_ok_touch: "hls_ok s \<Longrightarrow> hls_ok (hls_touch now s)"
  by (simp add: hls_ok_def hls_touch_def)

lemma hls_ok_start:
  assumes "hls_ok s" and "\<not> hm_started (hs_mux s)" and "hls_start_locked h now s = (r, s')"
  shows "hls_ok s' \<and> (hm_started (hs_mux s') \<longleftrightarrow> r = None)"
proof -
  obtain q evs mevs where c: "hls_connect h = (q, evs, mevs)" by (cases "hls_connect h") auto
  have new: "hs_dialed s \<notin> set (hs_cancelled s)" using assms(1) by (auto simp: hls_ok_def)
  show ?thesis
  proof (cases q)
    case (Inl e)
    then show ?thesis
      using assms hls_connect_left_open [OF c]
      by (auto simp: hls_start_locked_def c hls_ok_def less_SucI)
  next
    case (Inr fmt)
    then show ?thesis
      using assms new hls_connect_left_open [OF c]
      by (auto simp: hls_start_locked_def c hls_ok_def Let_def less_SucI)
  qed
qed

lemma hls_ok_ensure:
  assumes "hls_ok s" and "hls_ensure_started h now s = (r, s')"
  shows "hls_ok s' \<and> (hm_started (hs_mux s') \<longleftrightarrow> r = None)"
proof (cases "hm_started (hs_mux s)")
  case False
  obtain q s1 where q: "hls_start_locked h now s = (q, s1)" by fastforce
  note ok = hls_ok_start [OF assms(1) False q]
  then show ?thesis
    using assms(2) False q hls_ok_stop(3) [of s1]
    by (auto simp: hls_ensure_started_def hls_stop_locked_def split: option.splits)
qed (use assms in \<open>simp add: hls_ensure_started_def\<close>)

lemma hls_ok_begin [inv_intro]: "hls_ok s \<Longrightarrow> hls_ok (snd (hls_begin h now s))"
  using hls_ok_ensure [OF hls_ok_touch, of s h now now]
  by (auto simp: hls_begin_def split: prod.splits option.splits)

lemma hls_ok_leave:
  assumes "hls_ok s" and "n \<in> set (hs_cancelled s)"
  shows "hls_ok (hls_read_cancelled n s)" and "hls_ok (hls_watch_cancelled n s)"
  using assms by (auto simp: hls_ok_def hls_read_cancelled_def hls_watch_cancelled_def split: if_splits)

lemma hls_ok_step: "hls_step e s s' \<Longrightarrow> hls_ok s \<Longrightarrow> hls_ok s'"
proof (erule hls_stepE)
  fix n now assume "hls_ok s" "s' = snd (hls_watchdog n now s)"
  then show "hls_ok s'" by (simp add: hls_watchdog_def hls_ok_stop)
qed (simp_all add: inv_intro hls_ok_leave hls_read_ended_def)

lemma hls_run_ok: "hls_run es s \<Longrightarrow> hls_ok s"
  by (induction rule: hls_run.induct) (use hls_ok_step in auto)

lemma hls_packets_timed:
  assumes "list_all (\<lambda>(t, dec). - (2 ^ 63) \<le> t - t0 \<and> t - t0 < 2 ^ 63) ps"
    and "small_steps (t # [t. (t, Some au) \<leftarrow> ps])"
    and "have_first c" "last_raw_ts c = word_of_int t" "pts c = word_of_int (t - t0)"
  shows "map (apfst sint) (hls_packets sps pps (map (apfst word_of_int) ps) c) =
    [(t - t0, inject_hls au sps pps). (t, Some au) \<leftarrow> ps]"
  using assms
proof (induction ps arbitrary: t c)
  case (Cons p ps)
  obtain u dec where p: "p = (u, dec)" by (cases p)
  show ?case
  proof (cases dec)
    case None
    then show ?thesis using Cons.IH [OF _ _ Cons.prems(3-5)] Cons.prems(1,2) p by (simp add: hls_packet_def)
  next
    case (Some au)
    let ?c = "rtp_tick c (word_of_int u)"
    have d: "- (2 ^ 31) \<le> u - t" "u - t < 2 ^ 31" and ss: "small_steps (u # [t. (t, Some au) \<leftarrow> ps])"
      using Cons.prems(2) p Some by (auto simp: small_steps_def)
    note c = rtp_tick_unwraps [OF d Cons.prems(3-5)]
    have "sint (pts ?c) = u - t0"
      using Cons.prems(1) p unfolding c(3)
      by (simp only: signed_of_int) (simp add: signed_take_bit_int_eq_self)
    then show ?thesis using Cons.IH [OF _ ss c] Cons.prems(1) p Some by (simp add: hls_packet_def Let_def)
  qed
qed simp

text \<open>A session that has started, with both its loops.\<close>

definition ex_hls_io :: hls_io where "ex_hls_io = \<lparr>hio_rtsp = ex_io 0, hio_start = None\<rparr>"

definition ex_hls :: hls_sys where "ex_hls = snd (hls_begin ex_hls_io 5 new_hls)"

lemma ex_hls_run: "hls_run [HlsBegin ex_hls_io 5] ex_hls"
  using hls_run.next_step [OF hls_run.start hls_step.serve, of ex_hls_io 5] by (simp add: ex_hls_def)

section \<open>Properties\<close>

text \<open>
  C23: the camera and the HLS muxer are open exactly while a session runs. In every run, however
  requests, stops, lost cameras and idle checks interleave and wherever a start failed, exactly one
  RTSP client and one HLS muxer are open while the muxer is started and none otherwise; and the
  snapshot a request is handled with is that open muxer, or the request gets 503, never a released one.
\<close>

theorem hls_open_while_started:
  assumes "hls_run es s"
  shows "hs_clients s = hs_muxes s \<and> length (hs_muxes s) = (if hm_started (hs_mux s) then 1 else 0) \<and>
    hls_snapshot s = (if hm_started (hs_mux s) then Inr (hd (hs_muxes s))
                      else Inl (http_error ''stream restarting'' 503))"
  using hls_run_ok [OF assms] by (auto simp: hls_ok_def hls_snapshot_def split: if_splits)

theorem hls_open_while_started_witness:
  "hs_clients ex_hls = hs_muxes ex_hls \<and>
    length (hs_muxes ex_hls) = (if hm_started (hs_mux ex_hls) then 1 else 0) \<and>
    hls_snapshot ex_hls = (if hm_started (hs_mux ex_hls) then Inr (hd (hs_muxes ex_hls))
                           else Inl (http_error ''stream restarting'' 503))"
  by (rule hls_open_while_started [OF ex_hls_run])

text \<open>
  An abandoned HLS session is released. In every run, once the last request is more than thirty
  seconds old, some watchdog is alive whose tick closes the camera and the muxer; and no watchdog,
  not even that of an earlier session, stops one that was asked for within thirty seconds.
\<close>

theorem hls_idle_released:
  assumes "hls_run es s" and "hm_started (hs_mux s)"
  shows "if 30 * second < now - hm_last (hs_mux s)
    then \<exists>n s'. hls_step (HlsWatchdog n now) s s' \<and> hs_clients s' = [] \<and> hs_muxes s' = []
    else \<forall>n s'. hls_step (HlsWatchdog n now) s s' \<longrightarrow> s' = s"
proof (cases "30 * second < now - hm_last (hs_mux s)")
  case True
  obtain n where n: "n \<in> set (hs_watchers s)" "hm_client (hs_mux s) = Some n" "hm_mux (hs_mux s) = Some n"
      "hs_clients s = [n]" "hs_muxes s = [n]"
    using hls_run_ok [OF assms(1)] assms(2) by (auto simp: hls_ok_def)
  have "hs_clients (snd (hls_watchdog n now s)) = []" "hs_muxes (snd (hls_watchdog n now s)) = []"
    using n assms(2) True by (simp_all add: hls_watchdog_def hls_idle_timeout_def hls_stop_locked_def Let_def)
  with hls_step.tick [OF n(1), of now] True show ?thesis by auto
next
  case False
  then show ?thesis by (auto elim!: hls_stepE simp: hls_watchdog_def hls_idle_timeout_def)
qed

theorem hls_idle_released_witness:
  "\<exists>n s'. hls_step (HlsWatchdog n (31 * second)) ex_hls s' \<and> hs_clients s' = [] \<and> hs_muxes s' = []"
proof -
  have "hm_started (hs_mux ex_hls)" "30 * second < 31 * second - hm_last (hs_mux ex_hls)" by code_simp+
  then show ?thesis using hls_idle_released [OF ex_hls_run, of "31 * second"] by simp
qed

text \<open>
  C36: the player gets every frame the camera sent, in order and in time. For packets whose true
  camera time \<open>t\<close> (the wire carries it modulo \<open>2\<^sup>3\<^sup>2\<close>) moves less than \<open>2\<^sup>3\<^sup>1\<close> ticks between decoded
  units, the HLS muxer is written exactly the decoded access units, with parameter sets injected, at
  their true distance from the first; packets that do not decode leave no trace.
\<close>

theorem hls_writes_frames_in_time:
  assumes "list_all (\<lambda>(t, dec). - (2 ^ 63) \<le> t - t0 \<and> t - t0 < 2 ^ 63) ps"
    and "small_steps [t. (t, Some au) \<leftarrow> (t0, Some au0) # ps]"
  shows "map (apfst sint) (hls_packets sps pps (map (apfst word_of_int) ((t0, Some au0) # ps)) rtp_clock0) =
    [(t - t0, inject_hls au sps pps). (t, Some au) \<leftarrow> (t0, Some au0) # ps]"
proof -
  let ?c = "rtp_tick rtp_clock0 (word_of_int t0)"
  have "have_first ?c" "last_raw_ts ?c = word_of_int t0" "pts ?c = word_of_int (t0 - t0)"
    by (simp_all add: rtp_tick_def rtp_clock0_def)
  from hls_packets_timed [OF assms(1) _ this] assms(2) show ?thesis
    by (simp add: hls_packet_def Let_def rtp_tick_def rtp_clock0_def)
qed

text \<open>Three frames across the wrap of the timestamp, and a packet that completes none.\<close>

theorem hls_writes_frames_in_time_witness:
  "map (apfst sint) (hls_packets [0x67] [0x68]
     (map (apfst word_of_int) [(4294967000, Some [[0x65]]), (4294968000, None), (4294970000, Some [[0x41]])]) rtp_clock0) =
   [(0, [[0x67], [0x68], [0x65]]), (3000, [[0x41]])]"
proof -
  have "small_steps [t. (t, Some au) \<leftarrow> [(4294967000, Some [[0x65]]), (4294968000, None), (4294970000, Some [[0x41 :: byte]])]]"
    by (simp add: small_steps_def)
  moreover have "inject_hls [[0x65]] [0x67] [0x68] = [[0x67], [0x68], [0x65]]" "inject_hls [[0x41]] [0x67] [0x68] = [[0x41]]"
    by code_simp+
  ultimately show ?thesis
    using hls_writes_frames_in_time
      [of 4294967000 "[(4294968000, None), (4294970000, Some [[0x41]])]" "[[0x65]]" "[0x67]" "[0x68]"]
    by simp
qed

end
