(* ===== verification/HlsServer.thy ===== *)
theory HlsServer
  imports HlsSession MuxServer
begin

text \<open>
  The HLS server as a whole: the table of \<open>internal/hls/server.go\<close> over the muxers of
  \<open>internal/hls/muxer.go\<close>. A request looks its muxer up under the lock of the table, starts the muxer
  under the muxer's own lock, and takes its snapshot under that lock once more; \<open>Prune\<close> and \<open>Shutdown\<close>
  close muxers in between. The theorems say what a prune takes away, and for how long a request that
  slipped past it keeps the camera connected.
\<close>

section \<open>The server\<close>

text \<open>
  The muxers by object number; the requests that have left \<open>muxerFor\<close> but not yet started the muxer
  they were given, those that have and still need its snapshot, and what the requests were given: the
  gohlslib muxer that handles them, or an error.
\<close>

record hls_server =
  hv_table :: mux_server
  hv_live :: "nat \<Rightarrow> hls_sys"
  hv_flight :: "nat list"
  hv_begun :: "nat list"
  hv_answers :: "(nat \<times> (http_response + nat)) list"

definition new_hls_server :: hls_server where
  "new_hls_server =
     \<lparr>hv_table = new_mux_server, hv_live = (\<lambda>_. new_hls), hv_flight = [], hv_begun = [], hv_answers = []\<rparr>"

text \<open>A new table: \<open>Close\<close> has run on the muxers that left it.\<close>

definition hls_with_table :: "mux_server \<Rightarrow> hls_server \<Rightarrow> hls_server" where
  "hls_with_table t s =
     s\<lparr>hv_table := t,
       hv_live := (\<lambda>x. if x \<in> set (ms_closed t) \<and> x \<notin> set (ms_closed (hv_table s))
                       then hls_stop_locked (hv_live s x) else hv_live s x)\<rparr>"

text \<open>What a muxer's read loops and watchdogs do, each only while it runs.\<close>

fun hls_own_step :: "hls_event \<Rightarrow> hls_sys \<Rightarrow> hls_sys" where
  "hls_own_step (HlsReadCancelled n) s =
     (if n \<in> set (hs_readers s) \<and> n \<in> set (hs_cancelled s) then hls_read_cancelled n s else s)"
| "hls_own_step (HlsReadEnded n) s = (if n \<in> set (hs_readers s) then hls_read_ended n s else s)"
| "hls_own_step (HlsWatchdog n now) s = (if n \<in> set (hs_watchers s) then snd (hls_watchdog n now s) else s)"
| "hls_own_step (HlsWatchCancelled n) s =
     (if n \<in> set (hs_watchers s) \<and> n \<in> set (hs_cancelled s) then hls_watch_cancelled n s else s)"
| "hls_own_step _ s = s"

datatype hls_server_event =
    HlsArrive "string \<Rightarrow> (string \<times> bool) option" http_request
  | HlsEnter nat hls_io instant
  | HlsTakeMux nat
  | HlsAtMuxer nat hls_event
  | HlsPruneAll "string \<Rightarrow> (string \<times> bool) option"
  | HlsShutdownAll

fun hls_server_step :: "hls_server_event \<Rightarrow> hls_server \<Rightarrow> hls_server" where
  "hls_server_step (HlsArrive lookup r) s =
     (case hls_serve lookup r (hv_table s) of
        (Inl _, t) \<Rightarrow> hls_with_table t s
      | (Inr (m, _), t) \<Rightarrow> (hls_with_table t s)\<lparr>hv_flight := mx_obj m # hv_flight s\<rparr>)"
| "hls_server_step (HlsEnter x h now) s =
     (if x \<notin> set (hv_flight s) then s
      else case hls_begin h now (hv_live s x) of
        (Some e, m) \<Rightarrow>
          s\<lparr>hv_flight := remove1 x (hv_flight s), hv_live := (hv_live s)(x := m), hv_answers := (x, Inl e) # hv_answers s\<rparr>
      | (None, m) \<Rightarrow>
          s\<lparr>hv_flight := remove1 x (hv_flight s), hv_live := (hv_live s)(x := m), hv_begun := x # hv_begun s\<rparr>)"
| "hls_server_step (HlsTakeMux x) s =
     (if x \<in> set (hv_begun s)
      then s\<lparr>hv_begun := remove1 x (hv_begun s), hv_answers := (x, hls_snapshot (hv_live s x)) # hv_answers s\<rparr>
      else s)"
| "hls_server_step (HlsAtMuxer x e) s = s\<lparr>hv_live := (hv_live s)(x := hls_own_step e (hv_live s x))\<rparr>"
| "hls_server_step (HlsPruneAll lookup) s = hls_with_table (prune lookup (hv_table s)) s"
| "hls_server_step HlsShutdownAll s = hls_with_table (shutdown (hv_table s)) s"

definition hls_server_run :: "hls_server_event list \<Rightarrow> hls_server \<Rightarrow> hls_server" where
  "hls_server_run es s = fold hls_server_step es s"

lemma hls_server_run_simps [simp]:
  "hls_server_run [] s = s"
  "hls_server_run (e # es) s = hls_server_run es (hls_server_step e s)"
  by (simp_all add: hls_server_run_def)

section \<open>The invariant\<close>

definition hls_server_ok :: "hls_server \<Rightarrow> bool" where
  "hls_server_ok s \<longleftrightarrow> mux_ok (hv_table s) \<and> (\<forall>x. hls_ok (hv_live s x))"

lemma hls_server_ok_new [simp]: "hls_server_ok new_hls_server"
  by (simp add: hls_server_ok_def new_hls_server_def)

lemma hls_server_ok_table: "hls_server_ok s \<Longrightarrow> mux_ok t \<Longrightarrow> hls_server_ok (hls_with_table t s)"
  by (simp add: hls_server_ok_def hls_with_table_def hls_ok_stop)

lemma hls_ok_own: "hls_ok s \<Longrightarrow> hls_ok (hls_own_step e s)"
  by (cases e) (simp_all add: hls_ok_leave hls_read_ended_def hls_watchdog_def hls_ok_stop)

lemma hls_server_ok_step: "hls_server_ok s \<Longrightarrow> hls_server_ok (hls_server_step e s)"
proof (cases e)
  case (HlsArrive lookup r)
  obtain y t where y: "hls_serve lookup r (hv_table s) = (y, t)" by fastforce
  moreover assume ok: "hls_server_ok s"
  ultimately have "hls_server_ok (hls_with_table t s)"
    using served_ok [OF _ hls_serve_cases [OF y]] hls_server_ok_table [OF ok, of t] by (simp add: hls_server_ok_def)
  then show ?thesis using HlsArrive y by (auto simp: hls_server_ok_def split: sum.split)
next
  case (HlsEnter x h now)
  assume ok: "hls_server_ok s"
  obtain a m where a: "hls_begin h now (hv_live s x) = (a, m)" by fastforce
  have "hls_ok m" using ok hls_ok_begin [of "hv_live s x" h now] a by (simp add: hls_server_ok_def)
  then show ?thesis using ok HlsEnter a by (auto simp: hls_server_ok_def split: option.split)
qed (auto simp: hls_server_ok_def hls_ok_own intro!: hls_server_ok_table [unfolded hls_server_ok_def] mux_ok_shutdown
      dest: prune_spec [THEN conjunct1])

section \<open>A muxer nobody asks for\<close>

text \<open>
  The muxer has been closed and no request for it is in flight. Without a request it does not start,
  and its time of last access stays what it was.
\<close>

definition unasked :: "nat \<Rightarrow> hls_server \<Rightarrow> bool" where
  "unasked x s \<longleftrightarrow> x \<in> set (ms_closed (hv_table s)) \<and> x \<notin> set (hv_flight s)"

definition fades :: "hls_sys \<Rightarrow> hls_sys \<Rightarrow> bool" where
  "fades m m' \<longleftrightarrow> (hm_started (hs_mux m') \<longrightarrow> hm_started (hs_mux m)) \<and> hm_last (hs_mux m') = hm_last (hs_mux m)"

lemma fades_refl [simp, intro]: "fades m m"
  by (simp add: fades_def)

lemma fades_trans: "fades a b \<Longrightarrow> fades b c \<Longrightarrow> fades a c"
  by (simp add: fades_def)

lemma fades_stop: "fades m (hls_stop_locked (m\<lparr>hs_readers := r, hs_watchers := w\<rparr>))" "fades m (hls_stop_locked m)"
  by (auto simp: fades_def hls_stop_locked_def Let_def)

lemma fades_own: "fades m (hls_own_step e m)"
  by (cases e)
    (auto simp: hls_read_cancelled_def hls_watch_cancelled_def hls_read_ended_def hls_watchdog_def
      hls_stop_locked_def fades_def Let_def)

lemma unasked_table:
  assumes "unasked x s" and "set (ms_closed (hv_table s)) \<subseteq> set (ms_closed t)"
  shows "unasked x (hls_with_table t s) \<and> hv_live (hls_with_table t s) x = hv_live s x"
  using assms by (auto simp: unasked_def hls_with_table_def)

lemma unasked_step:
  assumes "hls_server_ok s" and "unasked x s"
  shows "unasked x (hls_server_step e s) \<and> fades (hv_live s x) (hv_live (hls_server_step e s) x)"
proof (cases e)
  case (HlsArrive lookup r)
  obtain y t where y: "hls_serve lookup r (hv_table s) = (y, t)" by fastforce
  note t = unasked_table [OF assms(2) served_closed [OF hls_serve_cases [OF y]]]
  moreover have "hv_flight (hls_with_table t s) = hv_flight s" by (simp add: hls_with_table_def)
  moreover have "mx_obj m \<noteq> x" if "y = Inr (m, p)" for m p
    using served_ok [OF _ hls_serve_cases [OF y]] assms t that by (auto simp: hls_server_ok_def unasked_def hls_with_table_def)
  ultimately show ?thesis using HlsArrive y by (auto simp: unasked_def split: sum.split)
next
  case (HlsEnter z h now)
  then show ?thesis using assms(2) by (auto simp: unasked_def dest: notin_set_remove1 split: prod.split option.split)
next
  case (HlsAtMuxer z f)
  then show ?thesis using assms(2) fades_own by (auto simp: unasked_def)
next
  case (HlsPruneAll lookup)
  then show ?thesis using unasked_table [OF assms(2) closed_prune] by simp
next
  case HlsShutdownAll
  then show ?thesis using unasked_table [OF assms(2), of "shutdown (hv_table s)"] by (simp add: shutdown_def)
qed (use assms(2) in \<open>auto simp: unasked_def\<close>)

interpretation hls_fleet: muxer_fleet hls_server_step hls_server_ok unasked hv_live fades
  by unfold_locales (use hls_server_ok_step unasked_step fades_trans in blast)+

lemmas hls_server_ok_run = hls_fleet.ok_run [folded hls_server_run_def]
lemmas unasked_run = hls_fleet.gone_run [folded hls_server_run_def]

lemma hls_released:
  "hls_ok m \<Longrightarrow> \<not> hm_started (hs_mux m) \<Longrightarrow>
   hs_clients m = [] \<and> hs_muxes m = [] \<and> hls_snapshot m = Inl (http_error ''stream restarting'' 503)"
  by (auto simp: hls_ok_def hls_snapshot_def)

section \<open>Properties\<close>

text \<open>
  C8: a pruned camera is off HLS. When a prune finds the camera hidden or gone and no request for its
  muxer is between the two locks, its RTSP client and its gohlslib muxer are released and, whatever
  requests, prunes and events follow, never opened again; and a request that had started the muxer
  before is told to come back later instead of being handed the released one.
\<close>

theorem hls_pruned_camera_released:
  assumes "s = hls_server_run es new_hls_server" and "(cam, m) \<in> set (ms_muxers (hv_table s))" and "lookup cam = None"
    and "mx_obj m \<notin> set (hv_flight s)" and "u = hls_server_run (HlsPruneAll lookup # es') s"
  shows "hs_clients (hv_live u (mx_obj m)) = [] \<and> hs_muxes (hv_live u (mx_obj m)) = [] \<and>
    hls_snapshot (hv_live u (mx_obj m)) = Inl (http_error ''stream restarting'' 503)"
proof -
  let ?x = "mx_obj m" let ?t = "hls_server_step (HlsPruneAll lookup) s"
  have ok: "hls_server_ok s" unfolding assms(1) by (rule hls_server_ok_run) simp
  then have "mux_ok (hv_table s)" by (simp add: hls_server_ok_def)
  from prune_closes [OF this assms(2), of lookup]
  have c: "?x \<in> set (ms_closed (prune lookup (hv_table s)))" "?x \<notin> set (ms_closed (hv_table s))"
    by (simp_all add: stale_def assms(3))
  then have t: "unasked ?x ?t" "\<not> hm_started (hs_mux (hv_live ?t ?x))"
    using assms(4) by (simp_all add: unasked_def hls_with_table_def hls_stop_locked_def Let_def)
  from unasked_run [OF hls_server_ok_step [OF ok] t(1), of es'] t(2)
  have "\<not> hm_started (hs_mux (hv_live u ?x))" by (auto simp: assms(5) fades_def)
  moreover have "hls_ok (hv_live u ?x)" using hls_server_ok_run [OF ok] unfolding assms(5) hls_server_ok_def by blast
  ultimately show ?thesis using hls_released by blast
qed

text \<open>Camera \<open>a\<close>, hidden while one request plays and another is about to take its snapshot.\<close>

definition ex_hls_lookup :: "string \<Rightarrow> (string \<times> bool) option" where
  "ex_hls_lookup cam = (if cam = ''a'' then Some (''rtsp://a'', True) else None)"

definition ex_hls_get :: http_request where
  "ex_hls_get =
     \<lparr>req_method = ''GET'', path = ''/a/index.m3u8'', raw_query = [], header = (\<lambda>_. []), remote_addr = [],
      basic_auth = None, form = None, body_json = None\<rparr>"

definition ex_played :: hls_server where
  "ex_played =
     hls_server_run [HlsArrive ex_hls_lookup ex_hls_get, HlsEnter 0 ex_hls_io 5, HlsTakeMux 0,
       HlsArrive ex_hls_lookup ex_hls_get, HlsEnter 0 ex_hls_io 6] new_hls_server"

theorem hls_pruned_camera_released_witness:
  "hs_clients (hv_live ex_played 0) = [0] \<and>
   hs_clients (hv_live (hls_server_run [HlsPruneAll (\<lambda>_. None), HlsTakeMux 0] ex_played) 0) = [] \<and>
   hv_answers (hls_server_run [HlsPruneAll (\<lambda>_. None), HlsTakeMux 0] ex_played) =
     [(0, Inl (http_error ''stream restarting'' 503)), (0, Inr 0)]"
proof -
  let ?m = "\<lparr>mx_stream = ''a'', mx_url = ''rtsp://a'', mx_verify = True, mx_obj = 0\<rparr>"
  have p: "ms_muxers (hv_table ex_played) = [(''a'', ?m)]" "hv_flight ex_played = []" "hs_clients (hv_live ex_played 0) = [0]"
    by code_simp+
  then have m: "(''a'', ?m) \<in> set (ms_muxers (hv_table ex_played))" "mx_obj ?m \<notin> set (hv_flight ex_played)" by simp_all
  have "hv_answers (hls_server_run [HlsPruneAll (\<lambda>_. None), HlsTakeMux 0] ex_played) =
      [(0, Inl (http_error ''stream restarting'' 503)), (0, Inr 0)]" by code_simp
  with hls_pruned_camera_released [OF ex_played_def m(1) refl m(2) refl, of "[HlsTakeMux 0]"] p(3) show ?thesis by simp
qed

text \<open>
  A request that slips through between the two locks starts the closed muxer again, as in the MP4
  server, but here it does not outlive its player. Once no request for a closed muxer is in flight
  its last access is never moved again, and when thirty seconds have passed since then some watchdog
  is alive whose tick releases the camera, after which it stays released whatever happens.
\<close>

theorem hls_closed_muxer_fades:
  assumes "s = hls_server_run es new_hls_server" and "x \<in> set (ms_closed (hv_table s))" and "x \<notin> set (hv_flight s)"
    and "u = hls_server_run es' s" and "hm_started (hs_mux (hv_live u x))"
    and "30 * second < now - hm_last (hs_mux (hv_live s x))"
  shows "\<exists>n. n \<in> set (hs_watchers (hv_live u x)) \<and>
    (\<forall>es''. hs_clients (hv_live (hls_server_run (HlsAtMuxer x (HlsWatchdog n now) # es'') u) x) = [] \<and>
            hs_muxes (hv_live (hls_server_run (HlsAtMuxer x (HlsWatchdog n now) # es'') u) x) = [])"
proof -
  have ok: "hls_server_ok u" unfolding assms(4,1) by (intro hls_server_ok_run) simp
  have "hls_server_ok s" unfolding assms(1) by (rule hls_server_ok_run) simp
  from unasked_run [OF this, of x es'] assms(2,3)
  have un: "unasked x u" "hm_last (hs_mux (hv_live u x)) = hm_last (hs_mux (hv_live s x))"
    by (auto simp: unasked_def fades_def assms(4))
  have "hls_ok (hv_live u x)" using ok by (simp add: hls_server_ok_def)
  then obtain n where n: "n \<in> set (hs_watchers (hv_live u x))"
    using assms(5) by (auto simp: hls_ok_def)
  let ?t = "hls_server_step (HlsAtMuxer x (HlsWatchdog n now)) u"
  have t: "\<not> hm_started (hs_mux (hv_live ?t x))"
    using n assms(5,6) un(2) by (simp add: hls_watchdog_def hls_idle_timeout_def hls_stop_locked_def Let_def)
  have "hs_clients (hv_live (hls_server_run es'' ?t) x) = [] \<and> hs_muxes (hv_live (hls_server_run es'' ?t) x) = []" for es''
  proof -
    note okt = hls_server_ok_step [OF ok]
    have "\<not> hm_started (hs_mux (hv_live (hls_server_run es'' ?t) x))"
      using unasked_run [OF okt conjunct1 [OF unasked_step [OF ok un(1)]], of es''] t unfolding fades_def by blast
    moreover have "hls_ok (hv_live (hls_server_run es'' ?t) x)"
      using hls_server_ok_run [OF okt] unfolding hls_server_ok_def by blast
    ultimately show ?thesis using hls_released by blast
  qed
  with n show ?thesis by auto
qed

text \<open>The request of a player slips past the prune and opens the hidden camera; half a minute later it is released.\<close>

definition ex_hls_slipped :: hls_server where
  "ex_hls_slipped =
     hls_server_run [HlsArrive ex_hls_lookup ex_hls_get, HlsPruneAll (\<lambda>_. None), HlsEnter 0 ex_hls_io 5] new_hls_server"

theorem hls_closed_muxer_fades_witness:
  "hs_clients (hv_live ex_hls_slipped 0) = [0] \<and>
   (\<exists>n. hs_clients (hv_live (hls_server_run [HlsAtMuxer 0 (HlsWatchdog n (31 * second)), HlsTakeMux 0] ex_hls_slipped) 0) = [])"
proof -
  have e: "0 \<in> set (ms_closed (hv_table ex_hls_slipped))" "0 \<notin> set (hv_flight ex_hls_slipped)"
      "hm_started (hs_mux (hv_live ex_hls_slipped 0))" "hs_clients (hv_live ex_hls_slipped 0) = [0]"
      "30 * second < 31 * second - hm_last (hs_mux (hv_live ex_hls_slipped 0))" by code_simp+
  show ?thesis
    using hls_closed_muxer_fades [OF ex_hls_slipped_def e(1,2) hls_server_run_simps(1) [symmetric] e(3,5)] e(4) by blast
qed

end
