(* ===== verification/RtspFeed.thy ===== *)
theory RtspFeed
  imports H264
begin

text \<open>
  The callback of the RTSP producer, \<open>OnPacketRTP\<close> in \<open>connect\<close> of \<open>internal/rtsp/client.go\<close>: packets
  of the camera become the samples of the WebRTC track. The theorems say which access units the track
  is written and what the durations of the samples add up to.
\<close>

section \<open>The callback\<close>

text \<open>\<open>media.Sample\<close>, as far as the callback sets it.\<close>

record sample =
  sm_data :: bytes
  sm_duration :: duration

text \<open>
  A packet is its RTP timestamp and what the decoder makes of it, \<open>None\<close> on each of its errors. The
  state is \<open>lastTS\<close>, \<open>None\<close> while \<open>haveTS\<close> is false; \<open>track\<close> tells whether \<open>currentTrack\<close> is set. The
  time stamp is kept even when there is no track to write to.
\<close>

definition rtsp_packet ::
  "bytes \<Rightarrow> bytes \<Rightarrow> bool \<times> u32 \<times> bytes list option \<Rightarrow> u32 option \<Rightarrow> sample option \<times> u32 option" where
  "rtsp_packet sps pps p last_ts =
     (case p of (track, ts, dec) \<Rightarrow>
      case dec of
        None \<Rightarrow> (None, last_ts)
      | Some au0 \<Rightarrow>
          (let au = inject_rtsp au0 sps pps; dur = rtsp_duration last_ts ts
           in (if track then Some \<lparr>sm_data = encode_annexb au, sm_duration = dur\<rparr> else None, Some ts)))"

text \<open>The packets of one session: the locals of the callback are those of its \<open>connect\<close>.\<close>

fun rtsp_samples :: "bytes \<Rightarrow> bytes \<Rightarrow> (bool \<times> u32 \<times> bytes list option) list \<Rightarrow> u32 option \<Rightarrow> sample list" where
  "rtsp_samples sps pps [] last_ts = []"
| "rtsp_samples sps pps (p # ps) last_ts =
     (case rtsp_packet sps pps p last_ts of
        (None, l) \<Rightarrow> rtsp_samples sps pps ps l
      | (Some x, l) \<Rightarrow> x # rtsp_samples sps pps ps l)"

section \<open>Lemmas\<close>

lemma rtsp_duration_bounds: "0 < rtsp_duration l ts \<and> rtsp_duration l ts < 2 ^ 45"
proof -
  have s: "second = 1000000000" by (simp add: second_def)
  have b: "sint (ts - k) < 2 ^ 31" for k using sint_lt [of "ts - k"] by simp
  have "0 < d * second div 90000 \<and> d * second div 90000 < 2 ^ 45" if "0 < d" "d < 2 ^ 31" for d :: int
    using that unfolding s by auto
  then show ?thesis using b by (auto simp: rtsp_duration_def rtsp_fallback_def Let_def split: option.split)
qed

lemma rtsp_samples_units:
  "map sm_data (rtsp_samples sps pps ps l) = [encode_annexb (inject_rtsp au sps pps). (True, ts, Some au) \<leftarrow> ps]"
  by (induction sps pps ps l rule: rtsp_samples.induct) (auto simp: rtsp_packet_def Let_def split: option.splits bool.splits)

text \<open>Camera ticks that move forward by less than half the 32-bit range.\<close>

definition forward_steps :: "int list \<Rightarrow> bool" where
  "forward_steps ts \<longleftrightarrow> successively (\<lambda>a b. a < b \<and> b - a < 2 ^ 31) ts"

lemma rtsp_duration_step:
  assumes "t < u" and "u - t < 2 ^ 31"
  shows "rtsp_duration (Some (word_of_int t)) (word_of_int u) = (u - t) * second div 90000"
proof -
  have "sint (word_of_int (u - t) :: u32) = u - t" using assms by (intro sint_delta) auto
  then show ?thesis using assms(1) by (simp add: rtsp_duration_def Let_def)
qed

lemma rtsp_samples_time:
  assumes "forward_steps (t # [u. (u, Some au) \<leftarrow> ps])"
  shows "let xs = rtsp_samples sps pps (map (\<lambda>(u, dec). (True, word_of_int u, dec)) ps) (Some (word_of_int t));
             elapsed = (last (t # [u. (u, Some au) \<leftarrow> ps]) - t) * second;
             total = sum_list (map sm_duration xs)
         in 90000 * total \<le> elapsed \<and> elapsed \<le> 90000 * total + 89999 * int (length xs)"
  using assms
proof (induction ps arbitrary: t)
  case (Cons p ps)
  obtain u dec where p: "p = (u, dec)" by (cases p)
  show ?case
  proof (cases dec)
    case None
    then show ?thesis using Cons p by (simp add: rtsp_packet_def)
  next
    case (Some au)
    have d: "t < u" "u - t < 2 ^ 31" and f: "forward_steps (u # [u. (u, Some au) \<leftarrow> ps])"
      using Cons.prems p Some by (auto simp: forward_steps_def)
    let ?d = "(u - t) * second div 90000"
    have q: "90000 * ?d \<le> (u - t) * second \<and> (u - t) * second \<le> 90000 * ?d + 89999"
      by presburger
    show ?thesis
      using Cons.IH [OF f] q p Some
      by (simp add: rtsp_packet_def rtsp_duration_step [OF d] Let_def algebra_simps)
  qed
qed simp

section \<open>Properties\<close>

text \<open>
  C37: the WebRTC track gets what the camera sent, at the camera's pace. For packets whose true camera
  time (the wire carries it modulo \<open>2\<^sup>3\<^sup>2\<close>) moves forward by less than \<open>2\<^sup>3\<^sup>1\<close> ticks between
  decoded units, the track is written exactly the decoded units, in order and with the parameter
  sets in front of key frames; the first lasts 33 ms, and the durations of the others add up to the time between
  the first and the last to within a nanosecond per frame, however long the stream runs.
\<close>

theorem track_gets_frames_in_time:
  assumes "forward_steps [t. (t, Some au) \<leftarrow> (t0, Some au0) # ps]"
    and "xs = rtsp_samples sps pps (map (\<lambda>(t, dec). (True, word_of_int t, dec)) ((t0, Some au0) # ps)) None"
    and "elapsed = (last [t. (t, Some au) \<leftarrow> (t0, Some au0) # ps] - t0) * second"
  shows "map sm_data xs = [encode_annexb (inject_rtsp au sps pps). (t, Some au) \<leftarrow> (t0, Some au0) # ps] \<and>
    sm_duration (hd xs) = 33000000 \<and>
    90000 * sum_list (map sm_duration (tl xs)) \<le> elapsed \<and>
    elapsed \<le> 90000 * (sum_list (map sm_duration (tl xs)) + int (length (tl xs)))"
proof -
  let ?ps = "map (\<lambda>(t, dec). (True, word_of_int t :: u32, dec)) ps"
  have xs: "xs = \<lparr>sm_data = encode_annexb (inject_rtsp au0 sps pps), sm_duration = rtsp_fallback\<rparr> #
      rtsp_samples sps pps ?ps (Some (word_of_int t0))"
    by (simp add: assms(2) rtsp_packet_def rtsp_duration_def Let_def)
  have "[encode_annexb (inject_rtsp au sps pps). (True, ts, Some au) \<leftarrow> ?ps] =
      [encode_annexb (inject_rtsp au sps pps). (t, Some au) \<leftarrow> ps]"
    by (induction ps) (auto split: option.split)
  with rtsp_samples_time [of t0 ps sps pps] assms(1,3) show ?thesis
    by (auto simp: xs rtsp_samples_units rtsp_fallback_def Let_def)
qed

text \<open>Three frames across the wrap of the timestamp, and a packet that completes none.\<close>

definition ex_feed :: "(int \<times> bytes list option) list" where
  "ex_feed =
     [(4294967000, Some [[0x65]]), (4294968000, None), (4294970000, Some [[0x41]]), (4294973003, Some [[0x41, 7]])]"

theorem track_gets_frames_in_time_witness:
  "map sm_data (rtsp_samples [0x67] [0x68] (map (\<lambda>(t, dec). (True, word_of_int t, dec)) ex_feed) None) =
     [[0, 0, 0, 1, 0x67, 0, 0, 0, 1, 0x68, 0, 0, 0, 1, 0x65], [0, 0, 0, 1, 0x41], [0, 0, 0, 1, 0x41, 7]] \<and>
   90000 * (33333333 + 33366666) \<le> (6003 * second :: int) \<and> 6003 * second \<le> 90000 * (33333333 + 33366666 + 2 :: int)"
proof -
  let ?xs = "rtsp_samples [0x67] [0x68] (map (\<lambda>(t, dec). (True, word_of_int t, dec)) ex_feed) None"
  have e: "ex_feed = (4294967000, Some [[0x65]]) # tl ex_feed" by (simp add: ex_feed_def)
  have "forward_steps [t. (t, Some au) \<leftarrow> ex_feed]" by (simp add: forward_steps_def ex_feed_def)
  from track_gets_frames_in_time [of 4294967000 "[[0x65]]" "tl ex_feed" ?xs "[0x67]" "[0x68]", folded e, OF this refl refl]
  have t: "map sm_data ?xs = [encode_annexb (inject_rtsp au [0x67] [0x68]). (t, Some au) \<leftarrow> ex_feed]"
    "90000 * sum_list (map sm_duration (tl ?xs)) \<le> (last [t. (t, Some au) \<leftarrow> ex_feed] - 4294967000) * second"
    "(last [t. (t, Some au) \<leftarrow> ex_feed] - 4294967000) * second
       \<le> 90000 * (sum_list (map sm_duration (tl ?xs)) + int (length (tl ?xs)))" by blast+
  have "map sm_duration (tl ?xs) = [33333333, 33366666]" "length (tl ?xs) = 2" by code_simp+
  moreover have "[encode_annexb (inject_rtsp au [0x67] [0x68]). (t, Some au) \<leftarrow> ex_feed] =
     [[0, 0, 0, 1, 0x67, 0, 0, 0, 1, 0x68, 0, 0, 0, 1, 0x65], [0, 0, 0, 1, 0x41], [0, 0, 0, 1, 0x41, 7]]" by code_simp
  moreover have "last [t. (t, Some au) \<leftarrow> ex_feed] - 4294967000 = 6003" by (simp add: ex_feed_def)
  ultimately show ?thesis using t by (simp only: sum_list.Cons sum_list.Nil) simp
qed

text \<open>
  Whatever timestamps a camera sends, also repeated, reordered or wild ones, every sample lasts a
  positive time below ten hours, and the product that is divided by the clock rate does not overflow
  Go's 64 bits.
\<close>

theorem sample_durations_sane:
  "list_all (\<lambda>x. 0 < sm_duration x \<and> sm_duration x < 10 * hour) (rtsp_samples sps pps ps l) \<and>
   sint (ts - k :: u32) * second \<in> {- (2 ^ 63) ..< 2 ^ 63}"
proof (rule conjI)
  have "2 ^ 45 < 10 * hour" by (simp add: duration_defs)
  then have b: "0 < rtsp_duration l ts \<and> rtsp_duration l ts < 10 * hour" for l ts
    using rtsp_duration_bounds [of l ts] by linarith
  show "list_all (\<lambda>x. 0 < sm_duration x \<and> sm_duration x < 10 * hour) (rtsp_samples sps pps ps l)"
    by (induction sps pps ps l rule: rtsp_samples.induct) (auto simp: rtsp_packet_def Let_def b split: option.splits)
  have "- (2 ^ 31) \<le> sint (ts - k)" "sint (ts - k) < 2 ^ 31"
    using sint_ge [of "ts - k"] sint_lt [of "ts - k"] by simp_all
  then show "sint (ts - k) * second \<in> {- (2 ^ 63) ..< 2 ^ 63}" by (simp add: duration_defs)
qed

end
