(* ===== verification/Watch.thy ===== *)
theory Watch
  imports Reconciler
begin

text \<open>
  The loops around the reconciler, \<open>internal/bridge/reconciler.go\<close>: the verbosity of the event log,
  the reconnect waits of \<open>watchEvents\<close>, and the trigger, debounce timer and safety ticker of
  \<open>Poll\<close>.
\<close>

section \<open>The event log\<close>

text \<open>The constants \<open>wsLogOff\<close>, \<open>wsLogInteresting\<close> and \<open>wsLogAll\<close>, ordered by verbosity.\<close>

datatype ws_level = WsOff | WsInteresting | WsAll

fun ws_value :: "ws_level \<Rightarrow> int" where
  "ws_value WsOff = 0"
| "ws_value WsInteresting = 1"
| "ws_value WsAll = 2"

lemma ws_value_inject [simp]: "ws_value a = ws_value b \<longleftrightarrow> a = b"
  by (cases a; cases b) simp_all

instantiation ws_level :: linorder
begin

definition less_eq_ws_level :: "ws_level \<Rightarrow> ws_level \<Rightarrow> bool" where
  "a \<le> b \<longleftrightarrow> ws_value a \<le> ws_value b"

definition less_ws_level :: "ws_level \<Rightarrow> ws_level \<Rightarrow> bool" where
  "a < b \<longleftrightarrow> ws_value a < ws_value b"

instance
  by standard (auto simp: less_eq_ws_level_def less_ws_level_def)

end

definition ws_level_from_string :: "string \<Rightarrow> ws_level" where
  "ws_level_from_string s =
     (let l = to_lower (trim_space s) in
      if l = ''off'' then WsOff else if l = ''all'' then WsAll else WsInteresting)"

definition ws_level_string :: "ws_level \<Rightarrow> string" where
  "ws_level_string v =
     (case v of WsOff \<Rightarrow> ''off'' | WsAll \<Rightarrow> ''all'' | WsInteresting \<Rightarrow> ''interesting'')"

definition ws_interesting_fields :: "string list" where
  "ws_interesting_fields =
     [''state'', ''isConnected'', ''isAdopted'', ''name'', ''channels'', ''lastRing'', ''lastMotion'',
      ''isMotionDetected'']"

definition ws_has_interesting_field :: "jobject \<Rightarrow> bool" where
  "ws_has_interesting_field m \<longleftrightarrow> list_ex (\<lambda>e. fst e \<in> set ws_interesting_fields) m"

text \<open>Whether the line of a camera event is written.\<close>

definition ws_logs :: "ws_level \<Rightarrow> unifi_event \<Rightarrow> bool" where
  "ws_logs lvl ev \<longleftrightarrow>
     ev_model_key ev = ''camera'' \<and> (ev_action ev = ''update'' \<or> ev_action ev = ''add'') \<and>
     (lvl = WsAll \<or> lvl = WsInteresting \<and> ws_has_interesting_field (ev_fields ev))"

lemma ws_logs_mono: "a \<le> b \<Longrightarrow> ws_logs a ev \<Longrightarrow> ws_logs b ev"
  by (cases a; cases b) (auto simp: ws_logs_def less_eq_ws_level_def)

section \<open>The reconnect waits\<close>

text \<open>A turn of the loop: the dial fails, or the connection lasts for a while.\<close>

datatype dial = DialFails | Connected duration

definition ws_max_backoff :: duration where "ws_max_backoff = 30 * second"

definition ws_next_backoff :: "duration \<Rightarrow> duration" where
  "ws_next_backoff b =
     (if b < ws_max_backoff then (let b2 = b * 2 in if b2 > ws_max_backoff then ws_max_backoff else b2) else b)"

text \<open>The waits of the loop, from the current backoff on.\<close>

fun ws_waits :: "duration \<Rightarrow> dial list \<Rightarrow> duration list" where
  "ws_waits b [] = []"
| "ws_waits b (DialFails # ds) = b # ws_waits (ws_next_backoff b) ds"
| "ws_waits b (Connected d # ds) =
     (let b = (if d > 30 * second then second else b) in b # ws_waits (ws_next_backoff b) ds)"

text \<open>The connection survived, so that the backoff starts over.\<close>

fun healthy :: "dial \<Rightarrow> bool" where
  "healthy DialFails \<longleftrightarrow> False"
| "healthy (Connected d) \<longleftrightarrow> 30 * second < d"

definition ws_backoff_at :: "nat \<Rightarrow> duration" where
  "ws_backoff_at n = min ws_max_backoff (2 ^ n * second)"

lemma ws_next_backoff_at: "ws_next_backoff (ws_backoff_at n) = ws_backoff_at (Suc n)"
  by (auto simp: ws_next_backoff_def ws_backoff_at_def Let_def min_def ws_max_backoff_def)

lemma ws_waits_unhealthy:
  "filter healthy ds = [] \<Longrightarrow> ws_waits (ws_backoff_at n) ds = map ws_backoff_at [n ..< n + length ds]"
proof (induction ds arbitrary: n)
  case (Cons d ds)
  then show ?case
    by (cases d) (auto simp: ws_next_backoff_at upt_conv_Cons simp del: upt_Suc split: if_splits)
qed simp

lemma ws_next_backoff_range: "second \<le> b \<Longrightarrow> b \<le> 30 * second \<Longrightarrow> second \<le> ws_next_backoff b \<and> ws_next_backoff b \<le> 30 * second"
  by (auto simp: ws_next_backoff_def Let_def ws_max_backoff_def second_def)

lemma ws_waits_range:
  "second \<le> b \<Longrightarrow> b \<le> 30 * second \<Longrightarrow> set (ws_waits b ds) \<subseteq> {second .. 30 * second}"
proof (induction b ds rule: ws_waits.induct)
  case (3 b d ds)
  have "second \<le> 30 * second" by (simp add: second_def)
  then show ?case using 3 ws_next_backoff_range [of second] ws_next_backoff_range [of b] by (simp add: Let_def)
qed (use ws_next_backoff_range in auto)

lemma ws_backoff_at_0: "ws_backoff_at 0 = second"
  by (simp add: ws_backoff_at_def ws_max_backoff_def second_def)

section \<open>Poll\<close>

text \<open>
  The trigger channel of capacity one, the debounce timer (once made, \<open>AfterFunc\<close> and \<open>Reset\<close> arm
  it alike), and two ghosts: \<open>po_behind\<close> says that an event has called \<open>fire\<close> since the last refresh
  began, and \<open>po_refreshes\<close> counts refreshes begun.
\<close>

record poll =
  po_trigger :: bool
  po_armed :: bool
  po_behind :: bool
  po_refreshes :: nat

definition poll0 :: poll where
  "poll0 = \<lparr>po_trigger = False, po_armed = False, po_behind = False, po_refreshes = 0\<rparr>"

datatype poll_event = Fire | Receive | TimerExpires | SafetyTick

definition begin_refresh :: "poll \<Rightarrow> poll" where
  "begin_refresh p = p\<lparr>po_behind := False, po_refreshes := po_refreshes p + 1\<rparr>"

inductive poll_step :: "poll \<Rightarrow> poll_event \<Rightarrow> poll \<Rightarrow> bool" where
  fire: "poll_step p Fire (p\<lparr>po_trigger := True, po_behind := True\<rparr>)"
| receive: "po_trigger p \<Longrightarrow> poll_step p Receive (p\<lparr>po_trigger := False, po_armed := True\<rparr>)"
| expire: "po_armed p \<Longrightarrow> poll_step p TimerExpires (begin_refresh (p\<lparr>po_armed := False\<rparr>))"
| tick: "poll_step p SafetyTick (begin_refresh p)"

inductive poll_run :: "poll \<Rightarrow> poll_event list \<Rightarrow> poll \<Rightarrow> bool" where
  idle: "poll_run p [] p"
| turn: "poll_step p e p1 \<Longrightarrow> poll_run p1 es p2 \<Longrightarrow> poll_run p (e # es) p2"

inductive_cases poll_stepE: "poll_step p e p'"
inductive_simps poll_run_simps: "poll_run p [] p'" "poll_run p (e # es) p'"
inductive_simps poll_step_simps:
  "poll_step p Fire p'" "poll_step p Receive p'" "poll_step p TimerExpires p'" "poll_step p SafetyTick p'"

lemma poll_step_pending:
  "poll_step p e p' \<Longrightarrow> po_behind p \<longrightarrow> po_trigger p \<or> po_armed p \<Longrightarrow>
   po_behind p' \<longrightarrow> po_trigger p' \<or> po_armed p'"
  by (erule poll_stepE) (auto simp: begin_refresh_def)

lemma poll_run_pending:
  "poll_run p es p' \<Longrightarrow> po_behind p \<longrightarrow> po_trigger p \<or> po_armed p \<Longrightarrow>
   po_behind p' \<longrightarrow> po_trigger p' \<or> po_armed p'"
  by (induction rule: poll_run.induct) (use poll_step_pending in blast)+

text \<open>Between two ticks of the safety net a refresh needs an event to trigger it.\<close>

fun fires :: "poll_event list \<Rightarrow> nat" where
  "fires [] = 0"
| "fires (e # es) = (if e = Fire then 1 else 0) + fires es"

fun ticks :: "poll_event list \<Rightarrow> nat" where
  "ticks [] = 0"
| "ticks (e # es) = (if e = SafetyTick then 1 else 0) + ticks es"

definition pending :: "poll \<Rightarrow> nat" where
  "pending p = (if po_trigger p then 1 else 0) + (if po_armed p then 1 else 0)"

lemma poll_run_count:
  "poll_run p es p' \<Longrightarrow> po_refreshes p' + pending p' \<le> po_refreshes p + pending p + fires es + ticks es"
proof (induction rule: poll_run.induct)
  case (turn p e p1 es p2)
  have "po_refreshes p1 + pending p1 \<le> po_refreshes p + pending p + fires [e] + ticks [e]"
    using turn.hyps(1) by (cases rule: poll_step.cases) (auto simp: pending_def begin_refresh_def)
  then show ?case using turn.IH by simp
qed simp

section \<open>Properties\<close>

text \<open>
  The setting of the event log survives its trip through text, and verbosity is what the
  order says: whatever a level logs, a higher one logs too, and \<open>off\<close> logs nothing.
\<close>

theorem ws_level_roundtrip:
  "ws_level_from_string (ws_level_string l) = l \<and>
   (l \<le> l' \<and> ws_logs l ev \<longrightarrow> ws_logs l' ev) \<and> \<not> ws_logs (ws_level_from_string ''off'') ev"
proof -
  have "ws_level_from_string (ws_level_string l) = l" by (cases l; simp only:; code_simp)
  moreover have "ws_level_from_string ''off'' = WsOff" by code_simp
  ultimately show ?thesis using ws_logs_mono by (auto simp: ws_logs_def)
qed

theorem ws_level_roundtrip_witness:
  "ws_logs WsInteresting \<lparr>ev_action = ''add'', ev_model_key = ''camera'', ev_id = [], ev_new_update = [],
     ev_fields = [(''name'', JNull)]\<rparr> \<longrightarrow>
   ws_logs WsAll \<lparr>ev_action = ''add'', ev_model_key = ''camera'', ev_id = [], ev_new_update = [],
     ev_fields = [(''name'', JNull)]\<rparr>"
  using ws_level_roundtrip [of WsInteresting WsAll] by (simp add: less_eq_ws_level_def)

text \<open>
  The reconnect loop backs off and never spins. Whatever the dials do, every wait is between
  one and thirty seconds; a run of failures and short connections doubles the wait up to thirty
  seconds and keeps it there; a connection that lasted more than thirty seconds starts it over.
\<close>

theorem ws_backoff_bounded:
  "set (ws_waits (ws_backoff_at n) ds) \<subseteq> {second .. 30 * second} \<and>
   (filter healthy ds = [] \<longrightarrow>
     ws_waits second ds = map (\<lambda>k. min (30 * second) (2 ^ k * second)) [0 ..< length ds] \<and>
     ws_waits (ws_backoff_at n) (Connected (31 * second) # ds) =
       map (\<lambda>k. min (30 * second) (2 ^ k * second)) [0 ..< length ds + 1])"
proof -
  have "second * 1 \<le> second * 2 ^ n" by (rule mult_left_mono) (simp_all add: order_less_imp_le)
  then have "second \<le> ws_backoff_at n" "ws_backoff_at n \<le> 30 * second"
    by (auto simp: ws_backoff_at_def ws_max_backoff_def min_def mult.commute)
  moreover have "ws_backoff_at = (\<lambda>k. min (30 * second) (2 ^ k * second))"
    by (simp add: ws_backoff_at_def ws_max_backoff_def fun_eq_iff)
  moreover have "ws_waits (ws_backoff_at n) (Connected (31 * second) # ds) = map ws_backoff_at [0 ..< length ds + 1]"
    if "filter healthy ds = []"
  proof -
    have "ws_next_backoff second = ws_backoff_at 1" using ws_next_backoff_at [of 0] by (simp add: ws_backoff_at_0)
    then have "ws_waits (ws_backoff_at n) (Connected (31 * second) # ds) = ws_backoff_at 0 # map ws_backoff_at [1 ..< 1 + length ds]"
      using ws_waits_unhealthy [OF that, of 1] by (simp add: second_def) (simp add: ws_backoff_at_0 second_def)
    then show ?thesis by (simp add: upt_conv_Cons del: upt_Suc)
  qed
  ultimately show ?thesis
    using ws_waits_range ws_waits_unhealthy [of ds 0] by (simp add: ws_backoff_at_0)
qed

theorem ws_backoff_bounded_witness:
  "ws_waits second [DialFails, Connected 5, DialFails] = [second, 2 * second, 4 * second]"
proof -
  have "filter healthy [DialFails, Connected 5, DialFails] = []" by (simp add: second_def)
  then show ?thesis
    using ws_backoff_bounded [of 0 "[DialFails, Connected 5, DialFails]"] by (simp del: ws_waits.simps filter.simps)
qed

text \<open>
  No event is lost to the debouncing. In every run of \<open>Poll\<close> an event that has called \<open>fire\<close>
  and has seen no refresh begin yet is still in the trigger channel or in the armed timer, from where
  at most two steps begin a refresh; and refreshes are no more than safety ticks and events together.
\<close>

theorem poll_loses_no_event:
  assumes "poll_run poll0 es p"
  shows "(po_behind p \<longrightarrow> (\<exists>es' p'. poll_run p es' p' \<and> length es' \<le> 2 \<and> set es' \<subseteq> {Receive, TimerExpires} \<and>
      \<not> po_behind p' \<and> po_refreshes p' = po_refreshes p + 1)) \<and>
    po_refreshes p \<le> fires es + ticks es"
proof -
  have "po_behind p \<longrightarrow> po_trigger p \<or> po_armed p" by (rule poll_run_pending [OF assms]) (simp add: poll0_def)
  moreover have "\<exists>p'. poll_run p [Receive, TimerExpires] p' \<and> \<not> po_behind p' \<and> po_refreshes p' = po_refreshes p + 1"
    if "po_trigger p"
    using that by (simp add: poll_run_simps poll_step_simps begin_refresh_def)
  moreover have "\<exists>p'. poll_run p [TimerExpires] p' \<and> \<not> po_behind p' \<and> po_refreshes p' = po_refreshes p + 1"
    if "po_armed p"
    using that by (simp add: poll_run_simps poll_step_simps begin_refresh_def)
  moreover have "length [Receive, TimerExpires] \<le> 2 \<and> length [TimerExpires] \<le> 2" by simp
  ultimately have "po_behind p \<longrightarrow> (\<exists>es' p'. poll_run p es' p' \<and> length es' \<le> 2 \<and> set es' \<subseteq> {Receive, TimerExpires} \<and>
      \<not> po_behind p' \<and> po_refreshes p' = po_refreshes p + 1)"
    by (metis empty_set insert_subset list.simps(15) subset_insertI empty_subsetI insertI1 insertI2)
  moreover have "po_refreshes p \<le> fires es + ticks es"
    using poll_run_count [OF assms] by (simp add: poll0_def pending_def)
  ultimately show ?thesis by blast
qed

theorem poll_loses_no_event_witness:
  "\<exists>p. poll_run poll0 [Fire, Receive, Fire, TimerExpires] p \<and> po_refreshes p = 1 \<and>
     po_refreshes p \<le> fires [Fire, Receive, Fire, TimerExpires] + ticks [Fire, Receive, Fire, TimerExpires]"
proof -
  let ?p = "\<lparr>po_trigger = True, po_armed = False, po_behind = False, po_refreshes = 1\<rparr>"
  have r: "poll_run poll0 [Fire, Receive, Fire, TimerExpires] ?p"
    by (simp add: poll_run_simps poll_step_simps begin_refresh_def poll0_def)
  from r poll_loses_no_event [OF r] show ?thesis by (intro exI [of _ ?p]) simp
qed

end
