(* ===== verification/Config.thy ===== *)
theory Config
  imports Watch
begin

text \<open>
  \<open>internal/config/config.go\<close> (\<open>LoadPartial\<close>, \<open>Load\<close>, \<open>validate\<close>) and the persisted secret of
  \<open>internal/bridge/secrets.go\<close>. What the file system, the random source and \<open>json.Unmarshal\<close>
  answer is passed in.
\<close>

section \<open>Options\<close>

record unifi_options =
  uo_host :: string
  uo_username :: string
  uo_password :: string
  uo_verify_tls :: bool

record google_options =
  go_project_id :: string
  go_service_account :: string
  go_client_id :: string
  go_client_secret :: string
  go_enable_homegraph :: "bool option"

record bridge_options =
  bo_public_base_url :: string
  bo_listen_addr :: string
  bo_stream_token_secret :: string
  bo_consent_password :: string
  bo_agent_user_id :: string
  bo_log_level :: string
  bo_exposed_cameras :: "string list"
  bo_ws_event_log :: string

record config =
  cf_unifi :: unifi_options
  cf_google :: google_options
  cf_bridge :: bridge_options

definition homegraph_enabled :: "google_options \<Rightarrow> bool" where
  "homegraph_enabled g \<longleftrightarrow> (case go_enable_homegraph g of None \<Rightarrow> True | Some b \<Rightarrow> b)"

definition default_ws_event_log :: "string \<Rightarrow> string" where
  "default_ws_event_log s =
     (if s = [] then ''interesting''
      else if s = ''off'' \<or> s = ''interesting'' \<or> s = ''all'' then s
      else ''interesting'')"

definition with_defaults :: "bridge_options \<Rightarrow> bridge_options" where
  "with_defaults b =
     b\<lparr>bo_listen_addr := (if bo_listen_addr b = [] then ''0.0.0.0:8099'' else bo_listen_addr b),
       bo_agent_user_id := (if bo_agent_user_id b = [] then ''unifi-protect-bridge'' else bo_agent_user_id b),
       bo_log_level := (if bo_log_level b = [] then ''info'' else bo_log_level b),
       bo_ws_event_log := default_ws_event_log (bo_ws_event_log b)\<rparr>"

definition load_partial :: "(bytes \<Rightarrow> string + config) \<Rightarrow> string + bytes \<Rightarrow> string + config" where
  "load_partial parse read =
     (case read of
        Inl e \<Rightarrow> Inl (''read config: '' @ e)
      | Inr b \<Rightarrow>
          (case parse b of
             Inl e \<Rightarrow> Inl (''parse config: '' @ e)
           | Inr c \<Rightarrow> Inr (c\<lparr>cf_bridge := with_defaults (cf_bridge c)\<rparr>)))"

definition validate :: "config \<Rightarrow> string option" where
  "validate c =
     (if uo_host (cf_unifi c) = [] then Some ''unifi.host is required''
      else if uo_username (cf_unifi c) = [] \<or> uo_password (cf_unifi c) = [] then
        Some ''unifi credentials are required''
      else if bo_public_base_url (cf_bridge c) = [] then
        Some ''bridge.public_base_url is required (Google must reach the fulfillment URL)''
      else if bo_consent_password (cf_bridge c) = [] then
        Some ''bridge.consent_password is required (gates Google account linking)''
      else if length (bo_consent_password (cf_bridge c)) < 8 then
        Some (''bridge.consent_password must be at least 8 characters '' @
          ''(it gates Google account linking on an internet-exposed endpoint)'')
      else None)"

definition load :: "(bytes \<Rightarrow> string + config) \<Rightarrow> string + bytes \<Rightarrow> string + config" where
  "load parse read =
     (case load_partial parse read of
        Inl e \<Rightarrow> Inl e
      | Inr c \<Rightarrow> (case validate c of Some e \<Rightarrow> Inl e | None \<Rightarrow> Inr c))"

section \<open>Log level\<close>

datatype slog_level = LevelDebug | LevelInfo | LevelWarn | LevelError

text \<open>\<open>parseLogLevel\<close> of \<open>cmd/bridge/main.go\<close>\<close>

definition parse_log_level :: "string \<Rightarrow> slog_level" where
  "parse_log_level s =
     (let l = to_lower (trim_space s) in
      if l = ''debug'' then LevelDebug
      else if l = ''warn'' \<or> l = ''warning'' then LevelWarn
      else if l = ''error'' then LevelError
      else LevelInfo)"

section \<open>The persisted secret\<close>

text \<open>
  \<open>LoadOrCreateSecret\<close>: the content of the file (\<open>None\<close>: it cannot be read), the 32 bytes of the
  random source or its error, and what writing does: an error, if any, and the file's content after.
\<close>

definition load_or_create_secret ::
  "string \<Rightarrow> string \<Rightarrow> bytes option \<Rightarrow> string + bytes \<Rightarrow> (bytes \<Rightarrow> string option \<times> bytes option)
   \<Rightarrow> (string + bytes) \<times> bytes option" where
  "load_or_create_secret configured pth disk rand write =
     (if configured \<noteq> [] then (Inr (to_bytes configured), disk)
      else if case disk of None \<Rightarrow> False | Some b \<Rightarrow> length b \<ge> 32 then (Inr (the disk), disk)
      else case rand of
             Inl e \<Rightarrow> (Inl (''generate: '' @ e), disk)
           | Inr b \<Rightarrow>
               (case write b of
                  (Some e, disk') \<Rightarrow> (Inl (''persist '' @ pth @ '': '' @ e), disk')
                | (None, disk') \<Rightarrow> (Inr b, disk')))"

section \<open>Properties\<close>

lemma default_ws_levels: "default_ws_event_log s = ws_level_string (ws_level_from_string (default_ws_event_log s))"
proof -
  have "ws_level_string (ws_level_from_string t) = t" if "t \<in> set [''off'', ''interesting'', ''all'']" for t
  proof -
    have "list_all (\<lambda>t. ws_level_string (ws_level_from_string t) = t) [''off'', ''interesting'', ''all'']" by code_simp
    then show ?thesis using that by (simp only: list_all_iff)
  qed
  from this [of "default_ws_event_log s"] show ?thesis by (auto simp: default_ws_event_log_def)
qed

text \<open>
  C40: a configuration that loads is well formed, and is what the file says. Host, credentials and
  public URL are there and the consent password has at least eight bytes. Every option is as the file has it, but for
  four of the bridge's that have defaults: an empty listen address is \<open>0.0.0.0:8099\<close>, an empty agent user
  id \<open>unifi-protect-bridge\<close>, an empty log level \<open>info\<close>, and an event log that is not one of the three levels is
  \<open>interesting\<close>, which the reconciler reads back as the level it names.
\<close>

theorem loaded_config_well_formed:
  assumes "load parse read = Inr c"
  shows "uo_host (cf_unifi c) \<noteq> [] \<and> uo_username (cf_unifi c) \<noteq> [] \<and> uo_password (cf_unifi c) \<noteq> [] \<and>
    bo_public_base_url (cf_bridge c) \<noteq> [] \<and> 8 \<le> length (bo_consent_password (cf_bridge c)) \<and>
    bo_ws_event_log (cf_bridge c) = ws_level_string (ws_level_from_string (bo_ws_event_log (cf_bridge c))) \<and>
    (\<exists>b c0. read = Inr b \<and> parse b = Inr c0 \<and> cf_unifi c = cf_unifi c0 \<and> cf_google c = cf_google c0 \<and>
       (let g = cf_bridge c0; d = cf_bridge c in
        bo_listen_addr d = (if bo_listen_addr g = [] then ''0.0.0.0:8099'' else bo_listen_addr g) \<and>
        bo_agent_user_id d = (if bo_agent_user_id g = [] then ''unifi-protect-bridge'' else bo_agent_user_id g) \<and>
        bo_log_level d = (if bo_log_level g = [] then ''info'' else bo_log_level g) \<and>
        bo_ws_event_log d = (if bo_ws_event_log g \<in> {''off'', ''interesting'', ''all''} then bo_ws_event_log g else ''interesting'') \<and>
        bo_public_base_url d = bo_public_base_url g \<and> bo_consent_password d = bo_consent_password g \<and>
        bo_stream_token_secret d = bo_stream_token_secret g \<and> bo_exposed_cameras d = bo_exposed_cameras g))"
proof -
  obtain b c0 where c: "read = Inr b" "parse b = Inr c0" "c = c0\<lparr>cf_bridge := with_defaults (cf_bridge c0)\<rparr>"
    and v: "validate c = None"
    using assms by (auto simp: load_def load_partial_def split: sum.splits option.splits)
  have ws: "bo_ws_event_log (cf_bridge c) = default_ws_event_log (bo_ws_event_log (cf_bridge c0))"
    by (simp add: c(3) with_defaults_def)
  have "default_ws_event_log s = (if s \<in> {''off'', ''interesting'', ''all''} then s else ''interesting'')" for s
    by (simp add: default_ws_event_log_def)
  moreover have "uo_host (cf_unifi c) \<noteq> [] \<and> uo_username (cf_unifi c) \<noteq> [] \<and> uo_password (cf_unifi c) \<noteq> [] \<and>
      bo_public_base_url (cf_bridge c) \<noteq> [] \<and> 8 \<le> length (bo_consent_password (cf_bridge c))"
    using v by (auto simp: validate_def split: if_splits)
  ultimately show ?thesis
    using c(1,2) default_ws_levels [of "bo_ws_event_log (cf_bridge c0)", folded ws]
    by (intro conjI exI [of _ b] exI [of _ c0]) (simp_all add: c(3) with_defaults_def Let_def)
qed

definition ex_config :: config where
  "ex_config =
     \<lparr>cf_unifi = \<lparr>uo_host = ''nvr'', uo_username = ''u'', uo_password = ''p'', uo_verify_tls = False\<rparr>,
      cf_google = \<lparr>go_project_id = [], go_service_account = [], go_client_id = [], go_client_secret = [],
        go_enable_homegraph = None\<rparr>,
      cf_bridge = \<lparr>bo_public_base_url = ''https://b'', bo_listen_addr = [], bo_stream_token_secret = [],
        bo_consent_password = ''12345678'', bo_agent_user_id = [], bo_log_level = [], bo_exposed_cameras = [],
        bo_ws_event_log = ''loud''\<rparr>\<rparr>"

theorem loaded_config_well_formed_witness:
  "\<exists>c. load (\<lambda>_. Inr ex_config) (Inr []) = Inr c \<and> 8 \<le> length (bo_consent_password (cf_bridge c)) \<and>
     bo_listen_addr (cf_bridge c) = ''0.0.0.0:8099'' \<and> bo_ws_event_log (cf_bridge c) = ''interesting''"
proof -
  obtain c where c: "load (\<lambda>_. Inr ex_config) (Inr []) = Inr c"
    by (simp add: load_def load_partial_def validate_def ex_config_def with_defaults_def)
  with loaded_config_well_formed [OF c] show ?thesis by (auto simp: Let_def) (simp_all add: ex_config_def)
qed

text \<open>
  The signing secret is never weak, and a restart keeps it. Without a configured secret, the
  secret has at least 32 bytes (the random source gives 32), and when it was written, the next start
  reads the same one back, whatever its random source then says, so that tokens stay valid.
\<close>

theorem secret_strong_and_stable:
  assumes "load_or_create_secret [] pth disk rand write = (Inr s, disk')"
    and "\<And>b. rand = Inr b \<Longrightarrow> length b = 32" and "\<And>b d. write b = (None, d) \<Longrightarrow> d = Some b"
  shows "32 \<le> length s \<and> load_or_create_secret [] pth disk' rand' write' = (Inr s, disk')"
proof -
  have "32 \<le> length s \<and> disk' = Some s"
    using assms by (fastforce simp: load_or_create_secret_def split: option.splits if_splits sum.splits prod.splits)
  then show ?thesis by (simp add: load_or_create_secret_def)
qed

theorem secret_strong_and_stable_witness:
  "fst (load_or_create_secret [] ''s'' (Some (replicate 32 7)) (Inl ''broken'') (\<lambda>_. (Some ''full'', None))) = Inr (replicate 32 7)"
  using secret_strong_and_stable [of "''s''" None "Inr (replicate 32 7)" "\<lambda>b. (None, Some b)" "replicate 32 7" "Some (replicate 32 7)"
    "Inl ''broken''" "\<lambda>_. (Some ''full'', None)"]
  by (simp add: load_or_create_secret_def)

text \<open>
  The comment of \<open>wsLogLevelFromString\<close> says that its fallback matches the defaults of the
  configuration. It folds case and trims, the configuration does not: \<open>OFF\<close> is off for one of them
  and \<open>interesting\<close> for the other.
\<close>

theorem ws_level_parsers_disagree:
  "ws_level_from_string ''OFF'' = WsOff \<and> ws_level_from_string (default_ws_event_log ''OFF'') = WsInteresting"
proof -
  have "ws_level_from_string ''OFF'' = WsOff" by code_simp
  moreover have "ws_level_from_string (default_ws_event_log ''OFF'') = WsInteresting" by code_simp
  ultimately show ?thesis ..
qed

end
