(* ===== verification/HomeGraph.thy ===== *)
theory HomeGraph
  imports Config Http
begin

text \<open>
  The Home Graph client, \<open>internal/ghome/homegraph.go\<close>: the service account, the signed JWT
  assertion, the access token with its cache, and the authorized posts; and \<open>StartupRequestSync\<close> of
  \<open>internal/bridge/setupglue.go\<close>. Parameters are \<open>json.Marshal\<close>, the RSA signature, the PEM and
  key parsers, and what Google answers.
\<close>

section \<open>The client\<close>

record service_account =
  sa_project_id :: string
  sa_private_key_id :: string
  sa_private_key :: string
  sa_client_email :: string

record 'k home_graph =
  hg_project_id :: string
  hg_sa :: service_account
  hg_key :: 'k
  hg_token :: string
  hg_expiry :: instant

text \<open>\<open>x509.ParsePKCS8PrivateKey\<close> may hold another kind of key.\<close>

datatype 'k pkcs8 = RsaKey 'k | OtherKey

record 'k key_parsers =
  kp_pem :: "string \<Rightarrow> bytes option"
  kp_pkcs1 :: "bytes \<Rightarrow> 'k option"
  kp_pkcs8 :: "bytes \<Rightarrow> string + 'k pkcs8"

definition parse_rsa_key :: "'k key_parsers \<Rightarrow> string \<Rightarrow> string + 'k" where
  "parse_rsa_key kp pem =
     (case kp_pem kp pem of
        None \<Rightarrow> Inl ''no PEM block''
      | Some block \<Rightarrow>
          (case kp_pkcs1 kp block of
             Some k \<Rightarrow> Inr k
           | None \<Rightarrow>
               (case kp_pkcs8 kp block of
                  Inl e \<Rightarrow> Inl e
                | Inr (RsaKey k) \<Rightarrow> Inr k
                | Inr OtherKey \<Rightarrow> Inl ''not an RSA private key'')))"

text \<open>\<open>NewHomeGraph\<close>: no client and no error without a service account. The zero time is long past.\<close>

definition zero_time :: instant where "zero_time = - (62135596800 * second)"

definition new_home_graph ::
  "'k key_parsers \<Rightarrow> (string \<Rightarrow> string + service_account) \<Rightarrow> string \<Rightarrow> string \<Rightarrow> string + 'k home_graph option" where
  "new_home_graph kp parse project sa_json =
     (if length (trim_space sa_json) = 0 then Inr None
      else case parse sa_json of
        Inl e \<Rightarrow> Inl (''homegraph: parse service account: '' @ e)
      | Inr sa \<Rightarrow>
          if sa_client_email sa = [] \<or> sa_private_key sa = [] then
            Inl ''homegraph: service account missing client_email or private_key''
          else case parse_rsa_key kp (sa_private_key sa) of
            Inl e \<Rightarrow> Inl (''homegraph: parse private key: '' @ e)
          | Inr k \<Rightarrow>
              Inr (Some \<lparr>hg_project_id = project, hg_sa = sa, hg_key = k, hg_token = [], hg_expiry = zero_time\<rparr>))"

section \<open>The assertion\<close>

definition google_token_url :: string where
  "google_token_url = ''https://oauth2.googleapis.com/token''"

definition home_graph_scope :: string where
  "home_graph_scope = ''https://www.googleapis.com/auth/homegraph''"

definition jwt_header :: "service_account \<Rightarrow> jobject" where
  "jwt_header sa =
     [(''alg'', JStr ''RS256''), (''typ'', JStr ''JWT'')] @
     (if sa_private_key_id sa \<noteq> [] then [(''kid'', JStr (sa_private_key_id sa))] else [])"

definition jwt_claims :: "service_account \<Rightarrow> instant \<Rightarrow> jobject" where
  "jwt_claims sa now =
     [(''iss'', JStr (sa_client_email sa)), (''scope'', JStr home_graph_scope), (''aud'', JStr google_token_url),
      (''iat'', JNum (unix now)), (''exp'', JNum (unix (now + hour)))]"

definition signing_input :: "(jobject \<Rightarrow> bytes) \<Rightarrow> service_account \<Rightarrow> instant \<Rightarrow> string" where
  "signing_input marshal sa now =
     b64url (marshal (jwt_header sa)) @ ''.'' @ b64url (marshal (jwt_claims sa now))"

definition sign_assertion ::
  "(jobject \<Rightarrow> bytes) \<Rightarrow> ('k \<Rightarrow> bytes \<Rightarrow> string + bytes) \<Rightarrow> 'k home_graph \<Rightarrow> instant \<Rightarrow> string + string" where
  "sign_assertion marshal rsa_sign h now =
     (let inp = signing_input marshal (hg_sa h) now in
      case rsa_sign (hg_key h) (sha256 (to_bytes inp)) of
        Inl e \<Rightarrow> Inl e
      | Inr sig \<Rightarrow> Inr (inp @ ''.'' @ b64url sig))"

section \<open>The access token\<close>

text \<open>An answer of Google: a transport error, or a status and the body's text.\<close>

datatype google_answer = NoAnswer string | Answer nat string

text \<open>\<open>tokenResponse\<close>: the access token and \<open>expires_in\<close>, a 64-bit \<open>int\<close>.\<close>

type_synonym token_parser = "string \<Rightarrow> string + string \<times> int"

text \<open>\<open>time.Duration(n) * time.Second\<close> wraps at 64 bits.\<close>

definition seconds64 :: "int \<Rightarrow> duration" where
  "seconds64 n = sint (word_of_int (n * second) :: 64 word)"

definition cached_token :: "'k home_graph \<Rightarrow> instant \<Rightarrow> string option" where
  "cached_token h now =
     (if hg_token h \<noteq> [] \<and> hg_expiry h - now > minute then Some (hg_token h) else None)"

text \<open>The part of \<open>token\<close> behind the exchange; \<open>now\<close> is when its answer has been read.\<close>

definition store_token ::
  "token_parser \<Rightarrow> google_answer \<Rightarrow> instant \<Rightarrow> 'k home_graph \<Rightarrow> (string + string) \<times> 'k home_graph" where
  "store_token parse ans now h =
     (case ans of
        NoAnswer e \<Rightarrow> (Inl (''homegraph: token exchange: '' @ e), h)
      | Answer st body \<Rightarrow>
          if st \<noteq> 200 then
            (Inl (''homegraph: token exchange: '' @ format_int (int st) @ '' '' @ trim_space (take 8192 body)), h)
          else case parse (take 8192 body) of
            Inl e \<Rightarrow> (Inl (''homegraph: token decode: '' @ e), h)
          | Inr (tok, expires_in) \<Rightarrow>
              if tok = [] then (Inl ''homegraph: empty access_token'', h)
              else
                (Inr tok, h\<lparr>hg_token := tok,
                   hg_expiry := (if expires_in > 0 then now + seconds64 expires_in else now + 50 * minute)\<rparr>))"

text \<open>What is outside the client: the marshalling, the signature, Google's two endpoints.\<close>

record 'k google =
  gg_marshal :: "jobject \<Rightarrow> bytes"
  gg_sign :: "'k \<Rightarrow> bytes \<Rightarrow> string + bytes"
  gg_parse :: token_parser
  gg_exchange :: "string \<Rightarrow> google_answer"
  gg_post :: "string \<Rightarrow> string \<Rightarrow> jobject \<Rightarrow> google_answer"

text \<open>What the client sends: an assertion to the token endpoint, or a post with a bearer token.\<close>

datatype sent = Exchange string | Post string string jobject

definition get_token ::
  "'k google \<Rightarrow> instant \<Rightarrow> instant \<Rightarrow> 'k home_graph \<Rightarrow> (string + string) \<times> sent list \<times> 'k home_graph" where
  "get_token g now later h =
     (case cached_token h now of
        Some t \<Rightarrow> (Inr t, [], h)
      | None \<Rightarrow>
          (case sign_assertion (gg_marshal g) (gg_sign g) h now of
             Inl e \<Rightarrow> (Inl e, [], h)
           | Inr a \<Rightarrow>
               (case store_token (gg_parse g) (gg_exchange g a) later h of (r, h') \<Rightarrow> (r, [Exchange a], h'))))"

definition post_authed ::
  "'k google \<Rightarrow> instant \<Rightarrow> instant \<Rightarrow> string \<Rightarrow> jobject \<Rightarrow> 'k home_graph
   \<Rightarrow> string option \<times> sent list \<times> 'k home_graph" where
  "post_authed g now later url body h =
     (case get_token g now later h of
        (Inl e, out, h') \<Rightarrow> (Some e, out, h')
      | (Inr tok, out, h') \<Rightarrow>
          (let out' = out @ [Post url tok body] in
           case gg_post g url tok body of
             NoAnswer e \<Rightarrow> (Some e, out', h')
           | Answer st b \<Rightarrow>
               if st \<ge> 300 then
                 (Some (''homegraph: '' @ url @ '': '' @ format_int (int st) @ '' '' @ trim_space (take 2048 b)), out', h')
               else (None, out', h')))"

definition home_graph_sync_url :: string where
  "home_graph_sync_url = ''https://homegraph.googleapis.com/v1/devices:requestSync''"

definition home_graph_report_url :: string where
  "home_graph_report_url = ''https://homegraph.googleapis.com/v1/devices:reportStateAndNotification''"

definition new_request_id :: "bytes \<Rightarrow> string" where
  "new_request_id b = b64url b"

text \<open>The three calls; \<open>rnd\<close> are the 16 random bytes of the request id.\<close>

definition request_sync ::
  "'k google \<Rightarrow> instant \<Rightarrow> instant \<Rightarrow> string \<Rightarrow> 'k home_graph \<Rightarrow> string option \<times> sent list \<times> 'k home_graph" where
  "request_sync g now later agent h =
     post_authed g now later home_graph_sync_url [(''agentUserId'', JStr agent), (''async'', JBool False)] h"

definition report_state ::
  "'k google \<Rightarrow> instant \<Rightarrow> instant \<Rightarrow> bytes \<Rightarrow> string \<Rightarrow> (string \<times> bool) list \<Rightarrow> 'k home_graph
   \<Rightarrow> string option \<times> sent list \<times> 'k home_graph" where
  "report_state g now later rnd agent states h =
     (if length states = 0 then (None, [], h)
      else post_authed g now later home_graph_report_url
        [(''requestId'', JStr (new_request_id rnd)), (''agentUserId'', JStr agent),
         (''payload'', JObj [(''devices'', JObj [(''states'',
            JObj (map (\<lambda>(i, online). (i, JObj [(''online'', JBool online)])) states))])])] h)"

definition notify ::
  "'k google \<Rightarrow> instant \<Rightarrow> instant \<Rightarrow> bytes \<Rightarrow> string \<Rightarrow> string \<Rightarrow> jobject \<Rightarrow> 'k home_graph
   \<Rightarrow> string option \<times> sent list \<times> 'k home_graph" where
  "notify g now later rnd agent event_id notifications h =
     (if length notifications = 0 then (None, [], h)
      else post_authed g now later home_graph_report_url
        [(''requestId'', JStr (new_request_id rnd)), (''agentUserId'', JStr agent), (''eventId'', JStr event_id),
         (''payload'', JObj [(''devices'', JObj [(''notifications'', JObj notifications)])])] h)"

section \<open>The SYNC request at startup\<close>

text \<open>
  \<open>StartupRequestSync\<close>: \<open>stored\<close> is the fingerprint the state file gives (none: unreadable or not
  JSON); the result is whether it asked, and the fingerprint to be written, if any.
\<close>

definition startup_request_sync ::
  "'k google \<Rightarrow> instant \<Rightarrow> instant \<Rightarrow> string \<Rightarrow> string \<Rightarrow> string option \<Rightarrow> 'k home_graph
   \<Rightarrow> string option \<times> sent list \<times> 'k home_graph" where
  "startup_request_sync g now later agent current stored h =
     (let prev = (case stored of Some f \<Rightarrow> f | None \<Rightarrow> []) in
      if prev = current then (None, [], h)
      else case request_sync g now later agent h of
        (Some e, out, h') \<Rightarrow> (None, out, h')
      | (None, out, h') \<Rightarrow> (Some current, out, h'))"

section \<open>Lemmas\<close>

definition lifetime_of :: "int \<Rightarrow> duration" where
  "lifetime_of e = (if e > 0 then seconds64 e else 50 * minute)"

lemma seconds64_exact: "0 \<le> n \<Longrightarrow> n < 2 ^ 33 \<Longrightarrow> seconds64 n = n * second"
  unfolding seconds64_def
  by (simp only: signed_of_int) (simp add: second_def signed_take_bit_int_eq_self)

lemma store_token_ok:
  assumes "store_token parse ans now h = (Inr t, h')"
  shows "\<exists>b e. ans = Answer 200 b \<and> parse (take 8192 b) = Inr (t, e) \<and> t \<noteq> [] \<and> hg_token h' = t \<and>
    hg_expiry h' = now + lifetime_of e \<and> hg_key h' = hg_key h \<and> hg_sa h' = hg_sa h"
proof (cases ans)
  case (Answer st b)
  obtain e where "st = 200" "parse (take 8192 b) = Inr (t, e)" "t \<noteq> []"
      "h' = h\<lparr>hg_token := t, hg_expiry := now + lifetime_of e\<rparr>"
    using assms by (auto simp: store_token_def Answer lifetime_of_def split: if_splits sum.splits prod.splits)
  then show ?thesis by (intro exI [of _ b] exI [of _ e]) (simp add: Answer)
qed (use assms in \<open>simp add: store_token_def\<close>)

lemma store_token_error: "store_token parse ans now h = (Inl e, h') \<Longrightarrow> h' = h"
  by (auto simp: store_token_def split: google_answer.splits if_splits sum.splits prod.splits)

lemma get_token_cases:
  assumes "get_token g now later h = (r, out, h')"
  shows "(\<exists>t. cached_token h now = Some t \<and> r = Inr t \<and> out = [] \<and> h' = h) \<or>
    cached_token h now = None \<and>
      ((\<exists>e. r = Inl e \<and> h' = h \<and> length out \<le> 1) \<or>
       (\<exists>a t. sign_assertion (gg_marshal g) (gg_sign g) h now = Inr a \<and> out = [Exchange a] \<and> r = Inr t \<and>
          store_token (gg_parse g) (gg_exchange g a) later h = (Inr t, h')))"
proof (cases "cached_token h now")
  case None
  show ?thesis
  proof (cases "sign_assertion (gg_marshal g) (gg_sign g) h now")
    case (Inl e)
    then have "(r, out, h') = (Inl e, [], h)" using assms [symmetric] None by (simp add: get_token_def)
    then show ?thesis using None by simp
  next
    case (Inr a)
    obtain q h1 where q: "store_token (gg_parse g) (gg_exchange g a) later h = (q, h1)" by fastforce
    then have "r = q \<and> out = [Exchange a] \<and> h' = h1" using assms None Inr by (simp add: get_token_def)
    then show ?thesis using q None Inr store_token_error [of "gg_parse g" "gg_exchange g a" later h] by (cases q) simp_all
  qed
qed (use assms in \<open>simp add: get_token_def\<close>)

lemma request_sync_sends:
  "request_sync g now later agent h = (None, out, h') \<Longrightarrow> \<exists>tok. Post home_graph_sync_url tok
     [(''agentUserId'', JStr agent), (''async'', JBool False)] \<in> set out"
  by (auto simp: request_sync_def post_authed_def Let_def split: prod.splits sum.splits google_answer.splits if_splits)

section \<open>Properties\<close>

text \<open>
  The access token is reused while it is good and never used in its last minute. When a token
  has been fetched, one assertion was exchanged for it; and from then on it is handed out again,
  without another exchange, exactly until one minute before the lifetime Google gave it (fifty
  minutes when it gave none) is over.
\<close>

theorem token_reused_until_last_minute:
  assumes "get_token g now later h = (Inr t, out, h')" and "out \<noteq> []" and "later \<le> now'"
  shows "\<exists>a b e. out = [Exchange a] \<and> gg_exchange g a = Answer 200 b \<and> gg_parse g (take 8192 b) = Inr (t, e) \<and>
    (e < 2 ^ 33 \<longrightarrow> (get_token g now' later' h' = (Inr t, [], h') \<longleftrightarrow>
       now' + minute < later + (if e > 0 then e * second else 50 * minute)))"
proof -
  obtain a where a: "out = [Exchange a]" "store_token (gg_parse g) (gg_exchange g a) later h = (Inr t, h')"
    using get_token_cases [OF assms(1)] assms(2) by auto
  obtain b e where b: "gg_exchange g a = Answer 200 b" "gg_parse g (take 8192 b) = Inr (t, e)" "t \<noteq> []"
    "hg_token h' = t" "hg_expiry h' = later + lifetime_of e"
    using store_token_ok [OF a(2)] by blast
  have l: "lifetime_of e = (if e > 0 then e * second else 50 * minute)" if "e < 2 ^ 33"
    using that seconds64_exact [of e] by (simp add: lifetime_of_def)
  have c: "cached_token h' now' = (if now' + minute < later + lifetime_of e then Some t else None)"
    using b by (auto simp: cached_token_def)
  have "get_token g now' later' h' = (Inr t, [], h') \<longleftrightarrow> cached_token h' now' \<noteq> None"
    using c get_token_cases [of g now' later' h' "Inr t" "[]" h'] by (auto simp: get_token_def)
  with a b(1,2) c l show ?thesis by (intro exI [of _ a] exI [of _ b] exI [of _ e]) auto
qed

text \<open>
  C29: what is posted carries a good token, and nothing is sent twice. A call sends one of four things, in this order:
  nothing, or one assertion, when it fails before it can post; one post, its own body to its own URL, with the cached
  token, which has more than a minute left; or one assertion and then one post, with the token that assertion has just
  been given. An assertion is exchanged only when no cached token will do.
\<close>

theorem post_carries_good_token:
  assumes "post_authed g now later url body h = (r, out, h')"
  shows "\<exists>a tok ans e.
    out = [] \<and> r \<noteq> None \<and> cached_token h now = None \<or>
    out = [Exchange a] \<and> r \<noteq> None \<and> cached_token h now = None \<or>
    out = [Post url tok body] \<and> h' = h \<and> tok = hg_token h \<and> tok \<noteq> [] \<and> now + minute < hg_expiry h \<or>
    out = [Exchange a, Post url tok body] \<and> cached_token h now = None \<and> tok = hg_token h' \<and> tok \<noteq> [] \<and>
      gg_exchange g a = Answer 200 ans \<and> gg_parse g (take 8192 ans) = Inr (tok, e)"
proof -
  obtain q out1 h1 where t: "get_token g now later h = (q, out1, h1)" by (metis prod.collapse)
  have o: "out = out1 @ (case q of Inl e \<Rightarrow> [] | Inr tok \<Rightarrow> [Post url tok body])" "h' = h1" "(\<exists>e. q = Inl e) \<longrightarrow> r \<noteq> None"
    using assms t by (auto simp: post_authed_def Let_def split: sum.splits google_answer.splits if_splits)
  show ?thesis
  proof (cases "cached_token h now")
    case (Some tok)
    then show ?thesis using t o by (auto simp: get_token_def cached_token_def split: if_splits)
  next
    case None
    show ?thesis
    proof (cases "sign_assertion (gg_marshal g) (gg_sign g) h now")
      case (Inl e)
      then have "q = Inl e" "out1 = []" using None t by (simp_all add: get_token_def)
      then show ?thesis using None o by simp
    next
      case (Inr a)
      then have q: "store_token (gg_parse g) (gg_exchange g a) later h = (q, h1)" "out1 = [Exchange a]"
        using None t by (auto simp: get_token_def split: prod.splits)
      show ?thesis
      proof (cases q)
        case (Inl e)
        then show ?thesis using None o q(2) by simp
      next
        case tok: (Inr tok)
        from store_token_ok [OF q(1) [unfolded tok]] show ?thesis using None o q(2) tok by auto
      qed
    qed
  qed
qed

text \<open>
  The assertion is a JWT that says what it should. It has three parts between its dots; the
  last is the signature, with the account's key, of the SHA-256 digest of the first two and the dot
  between them; and the claims it signs expire one hour after they were issued.
\<close>

theorem assertion_signs_its_claims:
  assumes "sign_assertion marshal rsa_sign h now = Inr a"
  shows "\<exists>p q sig. split_on CHR ''.'' a = [p, q, b64url sig] \<and>
    rsa_sign (hg_key h) (sha256 (to_bytes (p @ ''.'' @ q))) = Inr sig \<and>
    q = b64url (marshal (jwt_claims (hg_sa h) now)) \<and>
    map_of (jwt_claims (hg_sa h) now) ''iat'' = Some (JNum (unix now)) \<and>
    map_of (jwt_claims (hg_sa h) now) ''exp'' = Some (JNum (unix now + 3600))"
proof -
  obtain sig where s: "rsa_sign (hg_key h) (sha256 (to_bytes (signing_input marshal (hg_sa h) now))) = Inr sig"
    "a = signing_input marshal (hg_sa h) now @ ''.'' @ b64url sig"
    using assms by (auto simp: sign_assertion_def Let_def split: sum.splits)
  have "split_on CHR ''.'' a = [b64url (marshal (jwt_header (hg_sa h))), b64url (marshal (jwt_claims (hg_sa h) now)), b64url sig]"
    by (simp add: s(2) signing_input_def split_on_append split_on_no_sep del: split_on.simps)
  moreover have "unix (now + hour) = unix now + 3600"
    using unix_add_seconds [of now 3600] by (simp add: duration_defs)
  ultimately show ?thesis
    using s(1) by (auto simp: signing_input_def jwt_claims_def)
qed

text \<open>
  Restarts cost no quota. When the SYNC request of a start was accepted, its fingerprint is
  written, and a start that reads it back and computes the same one sends nothing, whatever the time
  and Google's mood; a start whose request failed writes nothing, so the next one asks again.
\<close>

theorem startup_sync_once_per_fingerprint:
  assumes "startup_request_sync g now later agent fp stored h = (w, out, h')" and "out \<noteq> []"
  shows "(w = Some fp \<or> w = None) \<and>
    (w \<noteq> None \<longrightarrow> startup_request_sync g' now' later' agent fp w h'' = (None, [], h'') \<and>
      (\<exists>tok. Post home_graph_sync_url tok [(''agentUserId'', JStr agent), (''async'', JBool False)] \<in> set out)) \<and>
    (w = None \<longrightarrow> fst (request_sync g now later agent h) \<noteq> None)"
  using assms request_sync_sends [of g now later agent h]
  by (auto simp: startup_request_sync_def Let_def split: if_splits prod.splits option.splits)

section \<open>Witnesses\<close>

definition ex_google :: "unit google" where
  "ex_google =
     \<lparr>gg_marshal = (\<lambda>_. [1]), gg_sign = (\<lambda>_ _. Inr [2]), gg_parse = (\<lambda>_. Inr (''tok'', 3600)),
      gg_exchange = (\<lambda>_. Answer 200 ''x''), gg_post = (\<lambda>_ _ _. Answer 200 [])\<rparr>"

definition ex_hg :: "unit home_graph" where
  "ex_hg =
     \<lparr>hg_project_id = [],
      hg_sa = \<lparr>sa_project_id = [], sa_private_key_id = [], sa_private_key = ''k'', sa_client_email = ''e''\<rparr>,
      hg_key = (), hg_token = [], hg_expiry = zero_time\<rparr>"

definition ex_hg_fetched :: "unit home_graph" where
  "ex_hg_fetched = ex_hg\<lparr>hg_token := ''tok'', hg_expiry := 3600 * second\<rparr>"

lemma ex_get_token: "\<exists>a. get_token ex_google t 0 ex_hg = (Inr ''tok'', [Exchange a], ex_hg_fetched)"
  by (simp add: get_token_def cached_token_def ex_hg_def sign_assertion_def ex_google_def store_token_def Let_def
      ex_hg_fetched_def seconds64_exact)

theorem token_reused_until_last_minute_witness:
  "get_token ex_google (3000 * second) 0 ex_hg_fetched = (Inr ''tok'', [], ex_hg_fetched) \<and>
   get_token ex_google (3550 * second) 0 ex_hg_fetched \<noteq> (Inr ''tok'', [], ex_hg_fetched)"
proof -
  obtain a where a: "get_token ex_google 0 0 ex_hg = (Inr ''tok'', [Exchange a], ex_hg_fetched)"
    using ex_get_token by blast
  have p: "gg_parse ex_google b = Inr (''tok'', 3600)" for b by (simp add: ex_google_def)
  show ?thesis
    using token_reused_until_last_minute [OF a, of "3000 * second" 0] token_reused_until_last_minute [OF a, of "3550 * second" 0]
    by (simp add: p second_def minute_def)
qed

theorem post_carries_good_token_witness:
  "\<exists>a. fst (snd (post_authed ex_google 0 0 ''u'' [] ex_hg)) = [Exchange a, Post ''u'' ''tok'' []]"
proof -
  obtain a where a: "get_token ex_google 0 0 ex_hg = (Inr ''tok'', [Exchange a], ex_hg_fetched)"
    using ex_get_token by blast
  then have "post_authed ex_google 0 0 ''u'' [] ex_hg = (None, [Exchange a, Post ''u'' ''tok'' []], ex_hg_fetched)"
    by (simp add: post_authed_def ex_google_def)
  from post_carries_good_token [OF this] this show ?thesis by simp
qed

theorem assertion_signs_its_claims_witness:
  "\<exists>p q a. sign_assertion (\<lambda>_. [1]) (\<lambda>_ _. Inr [2]) ex_hg 0 = Inr a \<and> split_on CHR ''.'' a = [p, q, b64url [2]]"
proof -
  obtain a where a: "sign_assertion (\<lambda>_. [1]) (\<lambda>_ _. Inr [2]) ex_hg 0 = Inr a"
    by (simp add: sign_assertion_def Let_def)
  from assertion_signs_its_claims [OF a] a show ?thesis by fastforce
qed

theorem startup_sync_once_per_fingerprint_witness:
  "startup_request_sync ex_google 9 9 ''agent'' ''fp'' (Some ''fp'') ex_hg = (None, [], ex_hg)"
proof -
  obtain a where a: "get_token ex_google 0 0 ex_hg = (Inr ''tok'', [Exchange a], ex_hg_fetched)"
    using ex_get_token by blast
  have "\<exists>out. startup_request_sync ex_google 0 0 ''agent'' ''fp'' None ex_hg = (Some ''fp'', out, ex_hg_fetched) \<and> out \<noteq> []"
    using a by (simp add: startup_request_sync_def request_sync_def post_authed_def) (simp add: ex_google_def)
  then obtain out where "startup_request_sync ex_google 0 0 ''agent'' ''fp'' None ex_hg = (Some ''fp'', out, ex_hg_fetched)"
    "out \<noteq> []" by blast
  from startup_sync_once_per_fingerprint [OF this] show ?thesis by blast
qed

end
