(* ===== verification/Setup.thy ===== *)
theory Setup
  imports Config Bridge HomeGraph
begin

text \<open>
  The setup page behind Home Assistant's ingress, \<open>internal/setup\<close>: the gate on the peer address,
  the routes, the calls to the Supervisor, the read-merge-write of the add-on's options, and the
  handlers; and the status snapshot of \<open>internal/bridge/setupglue.go\<close>. The Supervisor's answers
  are a parameter, a function of the requests it has received, as are the JSON decoder and the
  parser of IPv6 addresses.
\<close>

section \<open>The ingress gate\<close>

text \<open>An address of \<open>net/netip\<close>: four bytes, or sixteen and a zone.\<close>

datatype addr = V4 "int list" | V6 "int list" string

definition octet_ok :: "string \<Rightarrow> bool" where
  "octet_ok f \<longleftrightarrow> f \<noteq> [] \<and> list_all is_digit f \<and> digits_value f \<le> 255 \<and> (length f = 1 \<or> hd f \<noteq> CHR ''0'')"

definition parse_v4 :: "string \<Rightarrow> addr option" where
  "parse_v4 s =
     (let fs = split_on CHR ''.'' s in
      if length fs = 4 \<and> list_all octet_ok fs then Some (V4 (map digits_value fs)) else None)"

text \<open>\<open>netip.ParseAddr\<close>: the first of the characters \<open>.\<close>, \<open>:\<close> and \<open>%\<close> decides.\<close>

definition parse_addr :: "(string \<Rightarrow> (int list \<times> string) option) \<Rightarrow> string \<Rightarrow> addr option" where
  "parse_addr v6 s =
     (case find (\<lambda>c. c = CHR ''.'' \<or> c = CHR '':'' \<or> c = CHR ''%'') s of
        None \<Rightarrow> None
      | Some c \<Rightarrow>
          if c = CHR ''.'' then parse_v4 s
          else if c = CHR '':'' then map_option (\<lambda>(bs, zone). V6 bs zone) (v6 s)
          else None)"

fun unmap :: "addr \<Rightarrow> addr" where
  "unmap (V4 bs) = V4 bs"
| "unmap (V6 bs zone) = (if take 12 bs = replicate 10 0 @ [255, 255] then V4 (drop 12 bs) else V6 bs zone)"

fun is_loopback :: "addr \<Rightarrow> bool" where
  "is_loopback (V4 bs) \<longleftrightarrow> bs ! 0 = 127"
| "is_loopback (V6 bs zone) \<longleftrightarrow> bs = replicate 15 0 @ [1]"

definition ingress_proxy_addr :: addr where
  "ingress_proxy_addr = V4 [172, 30, 32, 2]"

definition from_ingress :: "(string \<Rightarrow> (int list \<times> string) option) \<Rightarrow> string \<Rightarrow> bool" where
  "from_ingress v6 remote =
     (case split_host remote of
        None \<Rightarrow> False
      | Some host \<Rightarrow>
          (case parse_addr v6 host of
             None \<Rightarrow> False
           | Some ip \<Rightarrow> (let ip = unmap ip in ip = ingress_proxy_addr \<or> is_loopback ip)))"

datatype setup_route =
    IndexRoute | StatusRoute | DiscoverRoute | ValidateRoute | SaveRoute | CamerasRoute | LogSettingsRoute | NotFoundRoute

definition setup_route_of :: "string \<Rightarrow> setup_route" where
  "setup_route_of p =
     (if p = ''/api/status'' then StatusRoute
      else if p = ''/api/discover'' then DiscoverRoute
      else if p = ''/api/validate'' then ValidateRoute
      else if p = ''/api/save'' then SaveRoute
      else if p = ''/api/cameras'' then CamerasRoute
      else if p = ''/api/log-settings'' then LogSettingsRoute
      else if p = ''/'' then IndexRoute
      else NotFoundRoute)"

text \<open>\<open>IngressOnly\<close> around the routes: the route the request reaches, or the refusal.\<close>

definition ingress_only ::
  "(string \<Rightarrow> (int list \<times> string) option) \<Rightarrow> string \<Rightarrow> string \<Rightarrow> http_response + setup_route" where
  "ingress_only v6 remote p =
     (if \<not> from_ingress v6 remote then Inl (http_error ''forbidden'' 403) else Inr (setup_route_of p))"

section \<open>Calls to the Supervisor\<close>

record sup_req =
  sr_method :: string
  sr_path :: string
  sr_body :: "jobject option"

datatype sup_reply = SupError string | SupReply nat string

type_synonym supervisor = "sup_req list \<Rightarrow> sup_reply"

text \<open>The decoder gives a map, or an error; the body is read up to 64 KiB.\<close>

type_synonym json_decoder = "string \<Rightarrow> string + jobject"

definition supervisor_json ::
  "supervisor \<Rightarrow> json_decoder \<Rightarrow> string \<Rightarrow> string \<Rightarrow> jobject option \<Rightarrow> sup_req list
   \<Rightarrow> (string + jobject) \<times> sup_req list" where
  "supervisor_json sv dec m p b h =
     (let h1 = h @ [\<lparr>sr_method = m, sr_path = p, sr_body = b\<rparr>] in
      case sv h1 of
        SupError e \<Rightarrow> (Inl e, h1)
      | SupReply st raw \<Rightarrow>
          let raw = take 65536 raw in
          if st \<ge> 400 then (Inl (''status '' @ format_int (int st) @ '': '' @ trim_space raw), h1)
          else if length raw = 0 then (Inr [], h1)
          else case dec raw of Inl e \<Rightarrow> (Inl (''decode: '' @ e), h1) | Inr out \<Rightarrow> (Inr out, h1))"

text \<open>\<open>x, _ := m[k].(map[string]any)\<close>, a nil map read or replaced as an empty one.\<close>

definition sub_obj :: "jobject \<Rightarrow> string \<Rightarrow> jobject" where
  "sub_obj m k = (case get_obj m k of Some x \<Rightarrow> x | None \<Rightarrow> [])"

definition info_options :: "jobject \<Rightarrow> jobject" where
  "info_options info = sub_obj (sub_obj info ''data'') ''options''"

definition strip_blank_url :: "jobject \<Rightarrow> jobject" where
  "strip_blank_url b = (if get_str b ''public_base_url'' = Some [] then AList.delete ''public_base_url'' b else b)"

text \<open>
  The shape the three writers share: read the options, change the copy, post all of them.
\<close>

definition save_options ::
  "(jobject \<Rightarrow> jobject) \<Rightarrow> supervisor \<Rightarrow> json_decoder \<Rightarrow> sup_req list \<Rightarrow> string option \<times> sup_req list" where
  "save_options edit sv dec h =
     (case supervisor_json sv dec ''GET'' ''/addons/self/info'' None h of
        (Inl e, h1) \<Rightarrow> (Some (''supervisor info: '' @ e), h1)
      | (Inr info, h1) \<Rightarrow>
          (case supervisor_json sv dec ''POST'' ''/addons/self/options''
                  (Some [(''options'', JObj (edit (info_options info)))]) h1 of
             (Inl e, h2) \<Rightarrow> (Some (''save options: '' @ e), h2)
           | (Inr _, h2) \<Rightarrow> (None, h2)))"

record validate_request =
  vq_host :: string
  vq_username :: string
  vq_password :: string
  vq_verify_tls :: bool

definition edit_unifi :: "validate_request \<Rightarrow> jobject \<Rightarrow> jobject" where
  "edit_unifi req opts =
     (let u = sub_obj opts ''unifi'';
          u = AList.update ''host'' (JStr (vq_host req)) u;
          u = AList.update ''username'' (JStr (vq_username req)) u;
          u = AList.update ''password'' (JStr (vq_password req)) u;
          u = AList.update ''verify_tls'' (JBool (vq_verify_tls req)) u;
          opts = AList.update ''unifi'' (JObj u) opts
      in case get_obj opts ''bridge'' of
           Some b \<Rightarrow> if get_str b ''public_base_url'' = Some []
                     then AList.update ''bridge'' (JObj (AList.delete ''public_base_url'' b)) opts else opts
         | None \<Rightarrow> opts)"

definition edit_bridge :: "string \<Rightarrow> json \<Rightarrow> jobject \<Rightarrow> jobject" where
  "edit_bridge k v opts =
     AList.update ''bridge'' (JObj (strip_blank_url (AList.update k v (sub_obj opts ''bridge'')))) opts"

definition write_options ::
  "validate_request \<Rightarrow> supervisor \<Rightarrow> json_decoder \<Rightarrow> sup_req list \<Rightarrow> string option \<times> sup_req list" where
  "write_options req = save_options (edit_unifi req)"

definition write_exposed_cameras ::
  "string list \<Rightarrow> supervisor \<Rightarrow> json_decoder \<Rightarrow> sup_req list \<Rightarrow> string option \<times> sup_req list" where
  "write_exposed_cameras ids = save_options (edit_bridge ''exposed_cameras'' (JList (map JStr ids)))"

definition write_ws_event_log ::
  "string \<Rightarrow> supervisor \<Rightarrow> json_decoder \<Rightarrow> sup_req list \<Rightarrow> string option \<times> sup_req list" where
  "write_ws_event_log level = save_options (edit_bridge ''ws_event_log'' (JStr level))"

definition restart_addon :: "supervisor \<Rightarrow> json_decoder \<Rightarrow> sup_req list \<Rightarrow> string option \<times> sup_req list" where
  "restart_addon sv dec h =
     (case supervisor_json sv dec ''POST'' ''/addons/self/restart'' None h of
        (Inl e, h1) \<Rightarrow> (Some e, h1) | (Inr _, h1) \<Rightarrow> (None, h1))"

section \<open>Validation and saving\<close>

record validate_response =
  vr_ok :: bool
  vr_error :: string
  vr_nvr_version :: string
  vr_nvr_mac :: string
  vr_cameras :: nat
  vr_cloud_user :: bool

definition failed :: "string \<Rightarrow> validate_response" where
  "failed e = \<lparr>vr_ok = False, vr_error = e, vr_nvr_version = [], vr_nvr_mac = [], vr_cameras = 0, vr_cloud_user = False\<rparr>"

text \<open>\<open>probe\<close>, over the controller that these credentials reach; with the requests it has received.\<close>

definition probe ::
  "(validate_request \<Rightarrow> bootstrap_json option controller) \<Rightarrow> validate_request \<Rightarrow> validate_response \<times> unifi_req list" where
  "probe ctl req =
     (if vq_host req = [] \<or> vq_username req = [] \<or> vq_password req = []
      then (failed ''host, username and password are required'', [])
      else case unifi_login (ctl req) (new_session, []) of
        (Some e, c, h) \<Rightarrow> (failed (''login: '' @ e), h)
      | (None, s) \<Rightarrow>
          (case bootstrap (ctl req) s of
             (Inl e, c, h) \<Rightarrow> (failed (''bootstrap: '' @ e), h)
           | (Inr (cams, _), c, h) \<Rightarrow>
               let resp = \<lparr>vr_ok = True, vr_error = [], vr_nvr_version = us_nvr_version c, vr_nvr_mac = us_nvr_mac c,
                           vr_cameras = length cams, vr_cloud_user = us_cloud_only c\<rparr>
               in (if vr_cloud_user resp then
                     resp\<lparr>vr_ok := False,
                          vr_error := ''this is a Ubiquiti cloud (SSO) account; create a local UniFi OS admin user '' @
                            ''with at least Viewer access to Protect''\<rparr>
                   else resp, h)))"

text \<open>A field of \<open>omitempty\<close> is left out when it is empty.\<close>

definition opt_str :: "string \<Rightarrow> string \<Rightarrow> jobject" where
  "opt_str k v = (if v = [] then [] else [(k, JStr v)])"

definition validate_json :: "validate_response \<Rightarrow> jobject" where
  "validate_json v =
     [(''ok'', JBool (vr_ok v))] @ opt_str ''error'' (vr_error v) @ opt_str ''nvr_version'' (vr_nvr_version v) @
     opt_str ''nvr_mac'' (vr_nvr_mac v) @
     [(''cameras'', JNum (int (vr_cameras v))), (''cloud_user'', JBool (vr_cloud_user v))]"

definition ok_json :: "bool \<Rightarrow> string \<Rightarrow> jobject" where
  "ok_json ok e = [(''ok'', JBool ok)] @ opt_str ''error'' e"

definition method_not_allowed :: http_response where
  "method_not_allowed = http_error ''method not allowed'' 405"

text \<open>Handlers take the method and the decoded body, or the decoder's error.\<close>

definition validate_handler ::
  "(validate_request \<Rightarrow> bootstrap_json option controller) \<Rightarrow> string \<Rightarrow> string + validate_request
   \<Rightarrow> http_response \<times> unifi_req list" where
  "validate_handler ctl meth body =
     (if meth \<noteq> ''POST'' then (method_not_allowed, [])
      else case body of
        Inl e \<Rightarrow> (json_response 400 (validate_json (failed (''bad request: '' @ e))), [])
      | Inr req \<Rightarrow> (case probe ctl req of (resp, h) \<Rightarrow> (json_response 200 (validate_json resp), h)))"

definition save_handler ::
  "(validate_request \<Rightarrow> bootstrap_json option controller) \<Rightarrow> supervisor \<Rightarrow> json_decoder \<Rightarrow> string
   \<Rightarrow> string + validate_request \<times> bool \<Rightarrow> sup_req list \<Rightarrow> http_response \<times> sup_req list" where
  "save_handler ctl sv dec meth body h =
     (if meth \<noteq> ''POST'' then (method_not_allowed, h)
      else case body of
        Inl e \<Rightarrow> (json_response 400 (ok_json False (''bad request: '' @ e)), h)
      | Inr (req, restart) \<Rightarrow>
          let pr = fst (probe ctl req) in
          if \<not> vr_ok pr then (json_response 200 (ok_json False (vr_error pr)), h)
          else case write_options req sv dec h of
            (Some e, h1) \<Rightarrow> (json_response 500 (ok_json False e), h1)
          | (None, h1) \<Rightarrow>
              if restart then
                (case restart_addon sv dec h1 of
                   (Some e, h2) \<Rightarrow> (json_response 500 (ok_json False (''restart: '' @ e)), h2)
                 | (None, h2) \<Rightarrow> (json_response 200 (ok_json True []), h2))
              else (json_response 200 (ok_json True []), h1))"

section \<open>Camera exposure and log settings\<close>

text \<open>The loop that drops empty and repeated ids.\<close>

fun normalise :: "string list \<Rightarrow> string list \<Rightarrow> string list \<Rightarrow> string list" where
  "normalise seen ids [] = ids"
| "normalise seen ids (i # is) =
     (if i = [] \<or> i \<in> set seen then normalise seen ids is else normalise (i # seen) (ids @ [i]) is)"

text \<open>
  The third result is what the live bridge is told, when an applier is registered (\<open>live\<close>).
\<close>

definition cameras_handler ::
  "supervisor \<Rightarrow> json_decoder \<Rightarrow> bool \<Rightarrow> string \<Rightarrow> string + string list \<Rightarrow> sup_req list
   \<Rightarrow> http_response \<times> sup_req list \<times> string list option" where
  "cameras_handler sv dec live meth body h =
     (if meth \<noteq> ''POST'' then (method_not_allowed, h, None)
      else case body of
        Inl e \<Rightarrow> (json_response 400 (ok_json False (''bad request: '' @ e)), h, None)
      | Inr given \<Rightarrow>
          let ids = normalise [] [] given in
          (case write_exposed_cameras ids sv dec h of
             (Some e, h1) \<Rightarrow> (json_response 500 (ok_json False e), h1, None)
           | (None, h1) \<Rightarrow> (json_response 200 (ok_json True []), h1, if live then Some ids else None)))"

definition normalize_ws_event_log :: "string \<Rightarrow> string" where
  "normalize_ws_event_log s = (if s = ''off'' \<or> s = ''all'' then s else ''interesting'')"

definition log_settings_handler ::
  "supervisor \<Rightarrow> json_decoder \<Rightarrow> bool \<Rightarrow> string \<Rightarrow> string + string \<Rightarrow> sup_req list
   \<Rightarrow> http_response \<times> sup_req list \<times> string option" where
  "log_settings_handler sv dec live meth body h =
     (if meth \<noteq> ''POST'' then (method_not_allowed, h, None)
      else case body of
        Inl e \<Rightarrow> (json_response 400 (ok_json False (''bad request: '' @ e)), h, None)
      | Inr given \<Rightarrow>
          let level = normalize_ws_event_log given in
          (case write_ws_event_log level sv dec h of
             (Some e, h1) \<Rightarrow> (json_response 500 (ok_json False e), h1, None)
           | (None, h1) \<Rightarrow>
               (json_response 200 ([(''ok'', JBool True)] @ opt_str ''ws_event_log'' level), h1,
                if live then Some level else None)))"

text \<open>\<open>ApplyWSEventLog\<close>: the level the reconciler logs at from then on.\<close>

definition apply_ws_event_log :: "string \<Rightarrow> ws_level" where
  "apply_ws_event_log level = ws_level_from_string level"

section \<open>Status\<close>

record camera_info =
  ci_id :: string
  ci_name :: string
  ci_model :: string
  ci_online :: bool
  ci_doorbell :: bool
  ci_exposed :: bool

record status_snapshot =
  ss_version :: string
  ss_setup_mode :: bool
  ss_host :: string
  ss_connected :: bool
  ss_nvr_mac :: string
  ss_nvr_version :: string
  ss_cameras :: "camera_info list"
  ss_homegraph_enabled :: bool
  ss_homegraph_configured :: bool
  ss_project_id :: string
  ss_account_email :: string
  ss_project_mismatch :: bool
  ss_oauth_configured :: bool
  ss_public_base_url :: string
  ss_public_url_set :: bool
  ss_agent_user_id :: string
  ss_listen_addr :: string
  ss_ws_event_log :: string
  ss_fingerprint :: "string option"

text \<open>\<open>Status.Status\<close>; \<open>fp\<close> is the fingerprint of the state file, if it can be read.\<close>

definition bridge_status ::
  "config \<Rightarrow> unifi_session \<Rightarrow> camera_source \<Rightarrow> 'k home_graph option \<Rightarrow> ws_level \<Rightarrow> string option \<Rightarrow> status_snapshot" where
  "bridge_status cfg uc src hg lvl fp =
     \<lparr>ss_version = [], ss_setup_mode = False, ss_host = uo_host (cf_unifi cfg), ss_connected = (us_nvr_mac uc \<noteq> []),
      ss_nvr_mac = us_nvr_mac uc, ss_nvr_version = us_nvr_version uc,
      ss_cameras = map (\<lambda>c. \<lparr>ci_id = cam_id c, ci_name = cam_name c, ci_model = cam_model c, ci_online = cam_online c,
                              ci_doorbell = is_doorbell c, ci_exposed = is_allowed src (cam_id c)\<rparr>) (snapshot src),
      ss_homegraph_enabled = homegraph_enabled (cf_google cfg), ss_homegraph_configured = (hg \<noteq> None),
      ss_project_id = go_project_id (cf_google cfg),
      ss_account_email = (case hg of Some g \<Rightarrow> sa_client_email (hg_sa g) | None \<Rightarrow> []),
      ss_project_mismatch = (case hg of
          Some g \<Rightarrow> go_project_id (cf_google cfg) \<noteq> [] \<and> sa_project_id (hg_sa g) \<noteq> [] \<and>
            go_project_id (cf_google cfg) \<noteq> sa_project_id (hg_sa g)
        | None \<Rightarrow> False),
      ss_oauth_configured = (go_client_id (cf_google cfg) \<noteq> [] \<and> go_client_secret (cf_google cfg) \<noteq> []),
      ss_public_base_url = bo_public_base_url (cf_bridge cfg),
      ss_public_url_set = (bo_public_base_url (cf_bridge cfg) \<noteq> []),
      ss_agent_user_id = bo_agent_user_id (cf_bridge cfg), ss_listen_addr = bo_listen_addr (cf_bridge cfg),
      ss_ws_event_log = ws_level_string lvl,
      ss_fingerprint = (case fp of Some f \<Rightarrow> if f \<noteq> [] then Some f else None | None \<Rightarrow> None)\<rparr>"

definition setup_only :: status_snapshot where
  "setup_only =
     \<lparr>ss_version = [], ss_setup_mode = True, ss_host = [], ss_connected = False, ss_nvr_mac = [], ss_nvr_version = [],
      ss_cameras = [], ss_homegraph_enabled = False, ss_homegraph_configured = False, ss_project_id = [],
      ss_account_email = [], ss_project_mismatch = False, ss_oauth_configured = False, ss_public_base_url = [],
      ss_public_url_set = False, ss_agent_user_id = [], ss_listen_addr = [], ss_ws_event_log = [],
      ss_fingerprint = None\<rparr>"

definition status_handler ::
  "supervisor \<Rightarrow> json_decoder \<Rightarrow> string \<Rightarrow> status_snapshot option \<Rightarrow> sup_req list \<Rightarrow> status_snapshot \<times> sup_req list" where
  "status_handler sv dec token provider h =
     (let snap = (case provider of Some st \<Rightarrow> st | None \<Rightarrow> setup_only) in
      if token = [] then (snap, h)
      else case supervisor_json sv dec ''GET'' ''/addons/self/info'' None h of
        (Inl e, h1) \<Rightarrow> (snap, h1)
      | (Inr info, h1) \<Rightarrow>
          (case get_obj info ''data'' of
             None \<Rightarrow> (snap, h1)
           | Some data \<Rightarrow>
               (case get_str data ''version'' of
                  Some v \<Rightarrow> (if v \<noteq> [] then snap\<lparr>ss_version := v\<rparr> else snap, h1)
                | None \<Rightarrow> (snap, h1))))"

section \<open>Lemmas\<close>

definition get_info :: sup_req where
  "get_info = \<lparr>sr_method = ''GET'', sr_path = ''/addons/self/info'', sr_body = None\<rparr>"

definition post_options :: "jobject \<Rightarrow> sup_req" where
  "post_options opts =
     \<lparr>sr_method = ''POST'', sr_path = ''/addons/self/options'', sr_body = Some [(''options'', JObj opts)]\<rparr>"

lemma supervisor_json_sends: "snd (supervisor_json sv dec m p b h) = h @ [\<lparr>sr_method = m, sr_path = p, sr_body = b\<rparr>]"
  by (auto simp: supervisor_json_def Let_def split: sup_reply.splits sum.splits)

lemma restart_addon_sends:
  "snd (restart_addon sv dec h) = h @ [\<lparr>sr_method = ''POST'', sr_path = ''/addons/self/restart'', sr_body = None\<rparr>]"
  using supervisor_json_sends [of sv dec "''POST''" "''/addons/self/restart''" None h]
  by (auto simp: restart_addon_def split: prod.splits sum.splits)

text \<open>The options the Supervisor's answer carries.\<close>

definition read_options :: "supervisor \<Rightarrow> json_decoder \<Rightarrow> sup_req list \<Rightarrow> jobject option" where
  "read_options sv dec h =
     (case fst (supervisor_json sv dec ''GET'' ''/addons/self/info'' None h) of
        Inl e \<Rightarrow> None | Inr info \<Rightarrow> Some (info_options info))"

lemma save_options_cases:
  assumes "save_options edit sv dec h = (r, h')"
  shows "read_options sv dec h = None \<and> r \<noteq> None \<and> h' = h @ [get_info] \<or>
    (\<exists>opts. read_options sv dec h = Some opts \<and> h' = h @ [get_info, post_options (edit opts)])"
proof (cases "supervisor_json sv dec ''GET'' ''/addons/self/info'' None h")
  case (Pair a h1)
  have h1: "h1 = h @ [get_info]"
    using supervisor_json_sends [of sv dec "''GET''" "''/addons/self/info''" None h] Pair by (simp add: get_info_def)
  show ?thesis
  proof (cases a)
    case (Inr info)
    obtain b h2 where b: "supervisor_json sv dec ''POST'' ''/addons/self/options''
        (Some [(''options'', JObj (edit (info_options info)))]) h1 = (b, h2)" by fastforce
    have h2: "h2 = h1 @ [post_options (edit (info_options info))]"
      using supervisor_json_sends [of sv dec "''POST''" "''/addons/self/options''"
        "Some [(''options'', JObj (edit (info_options info)))]" h1] b
      by (simp add: post_options_def)
    have "h' = h2" using assms Pair Inr b by (auto simp: save_options_def split: sum.splits)
    then show ?thesis using Pair Inr h1 h2 by (simp add: read_options_def)
  qed (use assms [symmetric] Pair h1 in \<open>simp add: save_options_def read_options_def\<close>)
qed

lemma sub_obj_update: "sub_obj (AList.update g (JObj o') m) g' = (if g' = g then o' else sub_obj m g')"
  by (simp add: sub_obj_def get_obj_def update_conv')

lemma get_str_update: "k' \<noteq> k \<Longrightarrow> get_str (AList.update k v m) k' = get_str m k'"
  by (simp add: get_str_def update_conv')

lemma map_of_strip:
  "map_of (strip_blank_url b) k = (if k = ''public_base_url'' \<and> get_str b k = Some [] then None else map_of b k)"
  by (auto simp: strip_blank_url_def delete_conv')

lemma edit_bridge_other: "g \<noteq> ''bridge'' \<Longrightarrow> map_of (edit_bridge k v opts) g = map_of opts g"
  by (simp add: edit_bridge_def update_conv')

lemma edit_bridge_inner:
  "k \<noteq> ''public_base_url'' \<Longrightarrow> map_of (sub_obj (edit_bridge k v opts) ''bridge'') k' =
   (if k' = k then Some v
    else if k' = ''public_base_url'' \<and> get_str (sub_obj opts ''bridge'') k' = Some [] then None
    else map_of (sub_obj opts ''bridge'') k')"
  by (auto simp: edit_bridge_def sub_obj_update map_of_strip get_str_update update_conv')

lemma edit_unifi_other: "g \<noteq> ''unifi'' \<Longrightarrow> g \<noteq> ''bridge'' \<Longrightarrow> map_of (edit_unifi req opts) g = map_of opts g"
  by (auto simp: edit_unifi_def Let_def update_conv' split: option.splits)

lemma edit_unifi_inner:
  "map_of (sub_obj (edit_unifi req opts) ''unifi'') k =
   (if k = ''verify_tls'' then Some (JBool (vq_verify_tls req))
    else if k = ''password'' then Some (JStr (vq_password req))
    else if k = ''username'' then Some (JStr (vq_username req))
    else if k = ''host'' then Some (JStr (vq_host req))
    else map_of (sub_obj opts ''unifi'') k)"
  by (simp add: edit_unifi_def Let_def sub_obj_update update_conv' split: option.split)

lemma edit_unifi_bridge:
  "map_of (sub_obj (edit_unifi req opts) ''bridge'') k =
   (if k = ''public_base_url'' \<and> get_str (sub_obj opts ''bridge'') k = Some [] then None
    else map_of (sub_obj opts ''bridge'') k)"
proof -
  have g: "get_obj (AList.update ''unifi'' x opts) ''bridge'' = get_obj opts ''bridge''" for x
    by (simp add: get_obj_def update_conv')
  show ?thesis
    by (cases "get_obj opts ''bridge''")
      (auto simp: edit_unifi_def Let_def g sub_obj_update sub_obj_def [of opts] delete_conv' get_str_def)
qed

lemma normalise_spec:
  "set seen = set ids \<Longrightarrow> distinct ids \<Longrightarrow> [] \<notin> set ids \<Longrightarrow>
   set (normalise seen ids xs) = set ids \<union> (set xs - {[]}) \<and> distinct (normalise seen ids xs)"
  by (induction seen ids xs rule: normalise.induct) auto

text \<open>The text of an IPv4 address, and that it parses back.\<close>

definition v4_text :: "int list \<Rightarrow> string" where
  "v4_text bs = join CHR ''.'' (map format_int bs)"

definition octet :: "int \<Rightarrow> bool" where
  "octet n \<longleftrightarrow> 0 \<le> n \<and> n \<le> 255"

lemma hd_nat_digits: "0 < n \<Longrightarrow> hd (nat_digits n) \<noteq> CHR ''0''"
proof (induction n rule: nat_digits.induct)
  case (1 n)
  show ?case
  proof (cases "n < 10")
    case True
    then have "(of_char (hd (nat_digits n)) :: nat) = 48 + n" by (simp add: nat_digits.simps [of n])
    then show ?thesis using 1(2) by auto
  next
    case False
    then show ?thesis using 1 by (simp add: nat_digits.simps [of n])
  qed
qed

lemma octet_format: "octet n \<Longrightarrow> octet_ok (format_int n) \<and> digits_value (format_int n) = n"
proof -
  have "digits_value [digit_char 0] = 0" by (simp add: digits_value_def)
  then show "octet n \<Longrightarrow> ?thesis"
    using nat_digits_digits [of "nat n"] hd_nat_digits [of "nat n"]
    by (cases "n = 0")
      (auto simp: octet_def octet_ok_def format_int_def digits_value_nat_digits nat_digits.simps [of 0])
qed

lemma format_octet_chars: "octet n \<Longrightarrow> c \<in> set (format_int n) \<Longrightarrow> is_digit c"
  using octet_format by (auto simp: octet_ok_def list_all_iff)

lemma not_digits: "\<not> is_digit CHR ''.''" "\<not> is_digit CHR '':''" "\<not> is_digit CHR ''%''" "\<not> is_digit CHR ''[''" "\<not> is_digit CHR '']''"
  by (simp_all add: is_digit_def)

lemma v4_text_4: "v4_text [a, b, c, d] = format_int a @ CHR ''.'' # format_int b @ CHR ''.'' # format_int c @ CHR ''.'' # format_int d"
  by (simp add: v4_text_def)

lemma parse_v4_text: "octet a \<Longrightarrow> octet b \<Longrightarrow> octet c \<Longrightarrow> octet d \<Longrightarrow> parse_v4 (v4_text [a, b, c, d]) = Some (V4 [a, b, c, d])"
  by (simp add: parse_v4_def v4_text_4 split_on_append split_on_no_sep octet_format Let_def del: split_on.simps)

lemma find_after: "\<forall>x \<in> set xs. \<not> P x \<Longrightarrow> P c \<Longrightarrow> find P (xs @ c # ys) = Some c"
  by (induction xs) auto

lemma parse_addr_v4:
  assumes "octet a" "octet b" "octet c" "octet d"
  shows "parse_addr v6 (v4_text [a, b, c, d]) = Some (V4 [a, b, c, d])"
proof -
  have "find (\<lambda>c. c = CHR ''.'' \<or> c = CHR '':'' \<or> c = CHR ''%'') (v4_text [a, b, c, d]) = Some CHR ''.''"
    unfolding v4_text_4 by (rule find_after) (use format_octet_chars [OF assms(1)] not_digits in blast)+
  then show ?thesis using parse_v4_text [OF assms] by (simp add: parse_addr_def)
qed

lemma split_host_port:
  assumes "set host \<inter> {CHR '':'', CHR ''['', CHR '']''} = {}" and "host \<noteq> []"
    and "set port \<inter> {CHR '':'', CHR ''['', CHR '']''} = {}"
  shows "split_host (host @ CHR '':'' # port) = Some host"
proof -
  have "index_byte (rev (host @ CHR '':'' # port)) CHR '':'' = int (length port)"
    using index_byte_append [of "CHR '':''" "rev port" "rev host"] assms(3) by simp
  moreover have "hd (host @ CHR '':'' # port) \<noteq> CHR ''[''" using assms(1,2) by (cases host) auto
  ultimately show ?thesis using assms by (auto simp: split_host_def Let_def)
qed

section \<open>Properties\<close>

text \<open>
  Only Home Assistant's ingress reaches the setup page. For every IPv4 peer address and port, a
  request is routed exactly when the address is the Supervisor's proxy or a loopback address; any
  other peer gets a 403, whatever it asks for.
\<close>

theorem ingress_gate:
  assumes "octet a" "octet b" "octet c" "octet d" "0 \<le> port" "port < 65536"
  shows "ingress_only v6 (v4_text [a, b, c, d] @ '':'' @ format_int port) p =
    (if [a, b, c, d] = [172, 30, 32, 2] \<or> a = 127 then Inr (setup_route_of p)
     else Inl (http_error ''forbidden'' 403))"
proof -
  have "set (v4_text [a, b, c, d]) \<subseteq> insert CHR ''.'' (Collect is_digit)"
    unfolding v4_text_4 using format_octet_chars assms by auto
  then have "set (v4_text [a, b, c, d]) \<inter> {CHR '':'', CHR ''['', CHR '']''} = {}"
    using not_digits by auto
  moreover have "v4_text [a, b, c, d] \<noteq> []" by (simp add: v4_text_4)
  moreover have "set (format_int port) \<inter> {CHR '':'', CHR ''['', CHR '']''} = {}"
    using digit_neq [of _ port] not_digits by auto
  ultimately have "split_host (v4_text [a, b, c, d] @ CHR '':'' # format_int port) = Some (v4_text [a, b, c, d])"
    by (rule split_host_port)
  then show ?thesis
    by (simp add: ingress_only_def from_ingress_def parse_addr_v4 assms ingress_proxy_addr_def Let_def)
qed

theorem ingress_gate_witness:
  "ingress_only (\<lambda>_. None) (v4_text [172, 30, 32, 3] @ '':'' @ format_int 4000) ''/api/save'' = Inl (http_error ''forbidden'' 403) \<and>
   ingress_only (\<lambda>_. None) (v4_text [172, 30, 32, 2] @ '':'' @ format_int 4000) ''/api/save'' = Inr SaveRoute"
  using ingress_gate [of 172 30 32 3 4000 "\<lambda>_. None" "''/api/save''"]
    ingress_gate [of 172 30 32 2 4000 "\<lambda>_. None" "''/api/save''"]
  by (simp add: octet_def setup_route_of_def)

text \<open>
  C27: the setup page never stores credentials that do not work, and changes nothing else but a blank public URL. If the
  save handler has sent the Supervisor anything, the probe logged in, read the bootstrap and found a
  local account. Its post then has exactly these four credential options, and otherwise what the
  Supervisor had: every other group, every other option of the UniFi group and of the bridge group; only
  a public URL that is blank is taken out of the latter.
\<close>

theorem save_only_working_credentials:
  assumes "save_handler ctl sv dec meth (Inr (req, restart)) h = (resp, h')" and "h' \<noteq> h"
  shows "vr_ok (fst (probe ctl req)) \<and> \<not> vr_cloud_user (fst (probe ctl req)) \<and> h' ! length h = get_info \<and>
    (length h' \<ge> length h + 2 \<longrightarrow> (\<exists>opts new. read_options sv dec h = Some opts \<and> h' ! (length h + 1) = post_options new \<and>
      (\<forall>g. g \<noteq> ''unifi'' \<and> g \<noteq> ''bridge'' \<longrightarrow> map_of new g = map_of opts g) \<and>
      map_of (sub_obj new ''unifi'') = (map_of (sub_obj opts ''unifi''))(''host'' \<mapsto> JStr (vq_host req),
        ''username'' \<mapsto> JStr (vq_username req), ''password'' \<mapsto> JStr (vq_password req),
        ''verify_tls'' \<mapsto> JBool (vq_verify_tls req)) \<and>
      (\<forall>k. k \<noteq> ''public_base_url'' \<or> get_str (sub_obj opts ''bridge'') k \<noteq> Some [] \<longrightarrow>
        map_of (sub_obj new ''bridge'') k = map_of (sub_obj opts ''bridge'') k) \<and>
      (get_str (sub_obj opts ''bridge'') ''public_base_url'' = Some [] \<longrightarrow>
        map_of (sub_obj new ''bridge'') ''public_base_url'' = None)))"
proof -
  obtain r h1 where w: "write_options req sv dec h = (r, h1)" by fastforce
  have ok: "vr_ok (fst (probe ctl req))"
    using assms by (auto simp: save_handler_def Let_def split: if_splits)
  have h': "h' = (if r = None \<and> restart then snd (restart_addon sv dec h1) else h1)"
    using assms ok w by (auto simp: save_handler_def Let_def split: if_splits option.splits prod.splits)
  have c: "\<not> vr_cloud_user (fst (probe ctl req))"
    using ok by (auto simp: probe_def failed_def Let_def split: if_splits option.splits prod.splits sum.splits)
  from save_options_cases [OF w [unfolded write_options_def]] show ?thesis
  proof (elim disjE conjE exE)
    assume "r \<noteq> None" "h1 = h @ [get_info]"
    then have "h' = h @ [get_info]" using h' by auto
    then show ?thesis using ok c by simp
  next
    fix opts assume o: "read_options sv dec h = Some opts" and h1: "h1 = h @ [get_info, post_options (edit_unifi req opts)]"
    have n: "h' ! length h = get_info" "h' ! (length h + 1) = post_options (edit_unifi req opts)"
      by (simp_all add: h' h1 restart_addon_sends nth_append)
    have u: "map_of (sub_obj (edit_unifi req opts) ''unifi'') = (map_of (sub_obj opts ''unifi''))(''host'' \<mapsto> JStr (vq_host req),
        ''username'' \<mapsto> JStr (vq_username req), ''password'' \<mapsto> JStr (vq_password req),
        ''verify_tls'' \<mapsto> JBool (vq_verify_tls req))"
      by (simp add: fun_eq_iff edit_unifi_inner)
    have b: "\<forall>k. k \<noteq> ''public_base_url'' \<or> get_str (sub_obj opts ''bridge'') k \<noteq> Some [] \<longrightarrow>
        map_of (sub_obj (edit_unifi req opts) ''bridge'') k = map_of (sub_obj opts ''bridge'') k"
      by (simp add: edit_unifi_bridge)
    have d: "get_str (sub_obj opts ''bridge'') ''public_base_url'' = Some [] \<longrightarrow>
        map_of (sub_obj (edit_unifi req opts) ''bridge'') ''public_base_url'' = None"
      by (simp add: edit_unifi_bridge)
    have g: "\<forall>g. g \<noteq> ''unifi'' \<and> g \<noteq> ''bridge'' \<longrightarrow> map_of (edit_unifi req opts) g = map_of opts g"
      by (simp add: edit_unifi_other)
    show ?thesis
      by (rule conjI [OF ok conjI [OF c conjI [OF n(1) impI]]], rule exI [of _ opts],
          rule exI [of _ "edit_unifi req opts"], intro conjI) (rule o n(2) g u b d)+
  qed
qed

text \<open>
  C28: the exposure list means the same now and after a restart. When the cameras handler tells the
  live bridge a list, it has answered 200 and posted exactly that list to the options, without empty or
  repeated ids; and the live allow-list, and the one a bridge started with the posted options makes,
  both allow exactly what the user asked for: the ids given, or every camera when none was.
\<close>

theorem exposure_same_after_restart:
  assumes "cameras_handler sv dec live meth (Inr given) h = (resp, h', Some ids)"
  shows "status resp = 200 \<and> distinct ids \<and> [] \<notin> set ids \<and>
    (\<exists>new. last h' = post_options new \<and> get_list (sub_obj new ''bridge'') ''exposed_cameras'' = Some (map JStr ids)) \<and>
    is_allowed (set_allowed ids src) = (\<lambda>i. (\<forall>k \<in> set given. k = []) \<or> i \<noteq> [] \<and> i \<in> set given) \<and>
    is_allowed (new_camera_source (json_strings (map JStr ids))) = is_allowed (set_allowed ids src)"
proof -
  have m: "meth = ''POST''" and i: "ids = normalise [] [] given" and st: "status resp = 200"
    and w: "write_exposed_cameras ids sv dec h = (None, h')"
    using assms by (auto simp: cameras_handler_def Let_def split: if_splits option.splits prod.splits)
  have n: "set ids = set given - {[]} \<and> distinct ids"
    using normalise_spec [of "[]" "[]" given] by (simp add: i)
  obtain opts where h': "h' = h @ [get_info, post_options (edit_bridge ''exposed_cameras'' (JList (map JStr ids)) opts)]"
    using save_options_cases [OF w [unfolded write_exposed_cameras_def]] by auto
  let ?new = "edit_bridge ''exposed_cameras'' (JList (map JStr ids)) opts"
  have "last h' = post_options ?new" by (simp add: h')
  moreover have "get_list (sub_obj ?new ''bridge'') ''exposed_cameras'' = Some (map JStr ids)"
    by (simp add: get_list_def edit_bridge_inner)
  moreover have "json_strings (map JStr xs) = xs" for xs by (induction xs) simp_all
  ultimately show ?thesis
    using n st by (auto simp: fun_eq_iff new_camera_source_def)
qed

text \<open>
  The event log's level, likewise. When the handler tells the live bridge a level, that level
  has been posted, it is one of the three, and the reconciler takes it for what a bridge started with
  the posted options would.
\<close>

theorem log_level_same_after_restart:
  assumes "log_settings_handler sv dec live meth (Inr given) h = (resp, h', Some level)"
  shows "status resp = 200 \<and>
    (\<exists>new. last h' = post_options new \<and> get_str (sub_obj new ''bridge'') ''ws_event_log'' = Some level) \<and>
    apply_ws_event_log level = ws_level_from_string (default_ws_event_log level) \<and>
    ws_level_string (apply_ws_event_log level) = level"
proof -
  have l: "level = normalize_ws_event_log given" and st: "status resp = 200"
    and w: "write_ws_event_log level sv dec h = (None, h')"
    using assms by (auto simp: log_settings_handler_def Let_def split: if_splits option.splits prod.splits)
  obtain opts where h': "h' = h @ [get_info, post_options (edit_bridge ''ws_event_log'' (JStr level) opts)]"
    using save_options_cases [OF w [unfolded write_ws_event_log_def]] by auto
  have "default_ws_event_log level = level"
    by (auto simp: l normalize_ws_event_log_def default_ws_event_log_def)
  then show ?thesis
    using st default_ws_levels [of level]
    by (auto simp: h' get_str_def edit_bridge_inner apply_ws_event_log_def
        intro!: exI [of _ "edit_bridge ''ws_event_log'' (JStr level) opts"])
qed

text \<open>
  Two savers that overlap lose one change. The Supervisor keeps the options of the last post; the
  cameras handler and the log handler both read before either posts. Both posts are accepted, and what
  is stored in the end has the old exposure list again, while the live bridge has the new one.
\<close>

fun stored_options :: "jobject \<Rightarrow> sup_req list \<Rightarrow> jobject" where
  "stored_options opts [] = opts"
| "stored_options opts (r # rs) =
     stored_options (if sr_path r = ''/addons/self/options'' then sub_obj (case sr_body r of Some b \<Rightarrow> b | None \<Rightarrow> []) ''options''
                     else opts) rs"

theorem overlapping_saves_lose_one:
  assumes "a = edit_bridge ''exposed_cameras'' (JList (map JStr ids)) (stored_options opts [get_info])"
    and "b = edit_bridge ''ws_event_log'' (JStr level) (stored_options opts [get_info, get_info])"
  shows "get_list (sub_obj (stored_options opts [get_info, get_info, post_options a, post_options b]) ''bridge'')
      ''exposed_cameras'' = get_list (sub_obj opts ''bridge'') ''exposed_cameras''"
  by (simp add: get_info_def post_options_def sub_obj_def [of "[(_, _)]"] get_obj_def assms)
    (simp add: get_list_def edit_bridge_inner)

section \<open>Witnesses\<close>

definition ex_decode :: json_decoder where
  "ex_decode s = Inr [(''data'', JObj [(''options'', JObj [(''google'', JObj []), (''bridge'', JObj [(''log_level'', JStr ''info'')])])])]"

definition ex_supervisor :: supervisor where
  "ex_supervisor h = SupReply 200 ''{}''"

definition ex_good_controller :: "validate_request \<Rightarrow> bootstrap_json option controller" where
  "ex_good_controller req h =
     Reply 200 [] (Some \<lparr>bs_last_update = [], bs_auth_user = [], bs_cameras = [], bs_users = [], bs_nvr_version = ''v'',
       bs_nvr_mac = ''m''\<rparr>)"

definition ex_credentials :: validate_request where
  "ex_credentials = \<lparr>vq_host = ''nvr'', vq_username = ''u'', vq_password = ''p'', vq_verify_tls = False\<rparr>"

lemma ex_supervisor_json: "\<exists>info. supervisor_json ex_supervisor ex_decode m p b h = (Inr info, h @ [\<lparr>sr_method = m, sr_path = p, sr_body = b\<rparr>])"
  by (simp add: supervisor_json_def ex_supervisor_def ex_decode_def)

lemma ex_save: "\<exists>h'. save_options edit ex_supervisor ex_decode h = (None, h') \<and> h' \<noteq> h"
proof -
  obtain info where i: "supervisor_json ex_supervisor ex_decode ''GET'' ''/addons/self/info'' None h = (Inr info, h @ [get_info])"
    using ex_supervisor_json [of "''GET''" "''/addons/self/info''" None h] by (auto simp: get_info_def)
  obtain x where "supervisor_json ex_supervisor ex_decode ''POST'' ''/addons/self/options''
      (Some [(''options'', JObj (edit (info_options info)))]) (h @ [get_info]) = (Inr x, h @ [get_info, post_options (edit (info_options info))])"
    using ex_supervisor_json [of "''POST''" "''/addons/self/options''" "Some [(''options'', JObj (edit (info_options info)))]" "h @ [get_info]"]
    by (auto simp: post_options_def)
  with i show ?thesis by (simp add: save_options_def)
qed

lemma ex_probe: "vr_ok (fst (probe ex_good_controller ex_credentials))"
  by (simp add: probe_def ex_credentials_def unifi_login_def ex_good_controller_def bootstrap_def unifi_do_def ensure_auth_def
      numeral_2_eq_2)

theorem save_only_working_credentials_witness:
  "\<exists>h'. save_handler ex_good_controller ex_supervisor ex_decode ''POST'' (Inr (ex_credentials, False)) [] =
      (json_response 200 (ok_json True []), h') \<and> h' ! 0 = get_info"
proof -
  obtain h' where h: "write_options ex_credentials ex_supervisor ex_decode [] = (None, h')" "h' \<noteq> []"
    using ex_save by (metis write_options_def)
  have r: "save_handler ex_good_controller ex_supervisor ex_decode ''POST'' (Inr (ex_credentials, False)) [] =
      (json_response 200 (ok_json True []), h')"
    using ex_probe h by (simp add: save_handler_def)
  from save_only_working_credentials [OF r h(2)] r show ?thesis by simp
qed

theorem exposure_same_after_restart_witness:
  "\<exists>r h'. cameras_handler ex_supervisor ex_decode True ''POST'' (Inr [''a'', [], ''a'']) [] = (r, h', Some [''a'']) \<and>
     status r = 200 \<and> is_allowed (set_allowed [''a''] ex_watched) = (\<lambda>i. i = ''a'')"
proof -
  obtain h' where "write_exposed_cameras [''a''] ex_supervisor ex_decode [] = (None, h')"
    using ex_save by (metis write_exposed_cameras_def)
  then have r: "cameras_handler ex_supervisor ex_decode True ''POST'' (Inr [''a'', [], ''a'']) [] =
      (json_response 200 (ok_json True []), h', Some [''a''])"
    by (simp add: cameras_handler_def)
  from exposure_same_after_restart [OF r, of ex_watched] r show ?thesis by (auto simp: fun_eq_iff)
qed

theorem log_level_same_after_restart_witness:
  "\<exists>r h'. log_settings_handler ex_supervisor ex_decode True ''POST'' (Inr ''all'') [] = (r, h', Some ''all'') \<and>
     ws_level_string (apply_ws_event_log ''all'') = ''all''"
proof -
  obtain h' where "write_ws_event_log ''all'' ex_supervisor ex_decode [] = (None, h')"
    using ex_save by (metis write_ws_event_log_def)
  then have r: "log_settings_handler ex_supervisor ex_decode True ''POST'' (Inr ''all'') [] =
      (json_response 200 ([(''ok'', JBool True)] @ opt_str ''ws_event_log'' ''all''), h', Some ''all'')"
    by (simp add: log_settings_handler_def normalize_ws_event_log_def Let_def)
  from log_level_same_after_restart [OF r] r show ?thesis by blast
qed

theorem overlapping_saves_lose_one_witness:
  "get_list (sub_obj (stored_options [] [get_info, get_info,
      post_options (edit_bridge ''exposed_cameras'' (JList (map JStr [''a''])) (stored_options [] [get_info])),
      post_options (edit_bridge ''ws_event_log'' (JStr ''all'') (stored_options [] [get_info, get_info]))]) ''bridge'')
    ''exposed_cameras'' = None"
  by (subst overlapping_saves_lose_one [OF refl refl]) (simp add: get_list_def sub_obj_def get_obj_def)

end
