(* ===== verification/Startup.thy ===== *)
theory Startup
  imports Api Setup
begin

text \<open>
  The start of the bridge, \<open>run\<close> of \<open>cmd/bridge/main.go\<close>: which failures end it, which leave the
  setup page alone, and what the parts are built from when the public server comes up. Flags,
  signals and the HTTP listeners are left out.
\<close>

section \<open>The environment\<close>

text \<open>
  What \<open>run\<close> reads: whether the Supervisor's token is set, the options file, the controller that a
  host and credentials reach, Google's parsers, the secret file and the random source.
\<close>

record 'k startup_env =
  se_token :: bool
  se_parse :: "bytes \<Rightarrow> string + config"
  se_options :: "string + bytes"
  se_controller :: "unifi_options \<Rightarrow> bootstrap_json option controller"
  se_keys :: "'k key_parsers"
  se_account :: "string \<Rightarrow> string + service_account"
  se_secret_path :: string
  se_secret :: "bytes option"
  se_random :: "string + bytes"
  se_write :: "bytes \<Rightarrow> string option \<times> bytes option"

text \<open>The running bridge, and the goroutines and servers started, in order.\<close>

record 'k running =
  ru_config :: config
  ru_session :: unifi_session
  ru_bridge :: bridge_state
  ru_rc :: reconciler_config
  ru_ws_level :: ws_level
  ru_homegraph :: "'k home_graph option"
  ru_oauth :: oauth_server
  ru_stream_key :: bytes
  ru_sys :: bridge_sys

datatype started = SetupPage | StartupSync | LiveStatus | PollLoop | PublicServer

datatype 'k outcome = SetupOnly | ExitWith nat | Running "'k running"

section \<open>The start\<close>

definition start_homegraph :: "'k startup_env \<Rightarrow> google_options \<Rightarrow> string + 'k home_graph option" where
  "start_homegraph env g =
     (if homegraph_enabled g
      then new_home_graph (se_keys env) (se_account env) (go_project_id g) (go_service_account g)
      else Inr None)"

definition start_config :: "config \<Rightarrow> 'k home_graph option \<Rightarrow> reconciler_config" where
  "start_config cfg hg =
     \<lparr>rc_host = uo_host (cf_unifi cfg), rc_verify = uo_verify_tls (cf_unifi cfg), rc_homegraph = (hg \<noteq> None)\<rparr>"

text \<open>The parts after the secret is there: OAuth, the stream key, and the two stream servers.\<close>

definition start_servers ::
  "config \<Rightarrow> unifi_session \<Rightarrow> bridge_state \<Rightarrow> 'k home_graph option \<Rightarrow> bytes \<Rightarrow> 'k running" where
  "start_servers cfg c br hg master =
     \<lparr>ru_config = cfg, ru_session = c, ru_bridge = br, ru_rc = start_config cfg hg,
      ru_ws_level = ws_level_from_string (bo_ws_event_log (cf_bridge cfg)), ru_homegraph = hg,
      ru_oauth = new_oauth (go_client_id (cf_google cfg)) (go_client_secret (cf_google cfg))
        (bo_consent_password (cf_bridge cfg)) (derive_key master ''oauth-tokens-v1''),
      ru_stream_key = derive_key master ''stream-urls-v1'',
      ru_sys = \<lparr>sys_bridge = br, sys_hls = new_mux_server, sys_mp4 = new_mux_server\<rparr>\<rparr>"

text \<open>
  \<open>run\<close> up to the wait for its end: the outcome, what has been started, and the actions of the first
  refresh, which is sampled at generation 0 of a new source.
\<close>

definition run_bridge :: "'k startup_env \<Rightarrow> 'k outcome \<times> started list \<times> bridge_action list" where
  "run_bridge env =
     (let page = (if se_token env then [SetupPage] else []) in
      case load (se_parse env) (se_options env) of
        Inl e \<Rightarrow> (if \<not> se_token env then ExitWith 1 else SetupOnly, page, [])
      | Inr cfg \<Rightarrow>
      case unifi_login (se_controller env (cf_unifi cfg)) (new_session, []) of
        (Some e, s) \<Rightarrow> (ExitWith 1, page, [])
      | (None, s) \<Rightarrow>
      case start_homegraph env (cf_google cfg) of
        Inl e \<Rightarrow> (ExitWith 1, page, [])
      | Inr hg \<Rightarrow>
      case bootstrap (se_controller env (cf_unifi cfg)) s of
        (Inl e, s2) \<Rightarrow> (ExitWith 1, page, [])
      | (Inr (cams, upd), c, h) \<Rightarrow>
          let src = new_camera_source (bo_exposed_cameras (cf_bridge cfg));
              (acts, br) = refresh_apply (start_config cfg hg) (online_generation src) cams upd
                             (new_bridge (bo_exposed_cameras (cf_bridge cfg)))
          in if us_cloud_only c then (ExitWith 1, page, acts)
             else
               let running = page @ (if hg \<noteq> None then [StartupSync] else []) @
                     (if se_token env then [LiveStatus] else []) @ [PollLoop]
               in case fst (load_or_create_secret (bo_stream_token_secret (cf_bridge cfg)) (se_secret_path env)
                              (se_secret env) (se_random env) (se_write env)) of
                    Inl e \<Rightarrow> (ExitWith 1, running, acts)
                  | Inr master \<Rightarrow> (Running (start_servers cfg c br hg master), running @ [PublicServer], acts))"

section \<open>Lemmas\<close>

lemma run_bridge_running:
  assumes "run_bridge env = (Running ru, st, acts)"
  obtains cfg s hg cams upd c h br master where
    "load (se_parse env) (se_options env) = Inr cfg"
    and "unifi_login (se_controller env (cf_unifi cfg)) (new_session, []) = (None, s)"
    and "start_homegraph env (cf_google cfg) = Inr hg"
    and "bootstrap (se_controller env (cf_unifi cfg)) s = (Inr (cams, upd), c, h)"
    and "refresh_apply (start_config cfg hg) 0 cams upd (new_bridge (bo_exposed_cameras (cf_bridge cfg))) = (acts, br)"
    and "\<not> us_cloud_only c"
    and "fst (load_or_create_secret (bo_stream_token_secret (cf_bridge cfg)) (se_secret_path env)
           (se_secret env) (se_random env) (se_write env)) = Inr master"
    and "ru = start_servers cfg c br hg master" and "PublicServer \<in> set st"
  using assms
  by (auto simp: run_bridge_def Let_def online_generation_def new_camera_source_def set_allowed_def
      split: sum.splits prod.splits option.splits if_splits)

lemma run_bridge_not_running: "run_bridge env = (out, st, acts) \<Longrightarrow> PublicServer \<in> set st \<Longrightarrow> \<exists>ru. out = Running ru"
  by (auto simp: run_bridge_def Let_def split: sum.splits prod.splits option.splits if_splits)

lemma refresh_new_allowed:
  assumes "refresh_apply rc gen cams upd (new_bridge ids) = (acts, br)"
  shows "is_allowed (br_src br) i \<longleftrightarrow> (\<forall>k \<in> set ids. k = []) \<or> i \<noteq> [] \<and> i \<in> set ids"
proof -
  have "is_allowed (br_src br) = is_allowed (br_src (new_bridge ids))"
    by (rule allowed_cong) (rule refresh_apply_spec(4) [OF reg_ok_new assms])
  moreover have "is_allowed (br_src (new_bridge ids)) i = is_allowed (set_allowed ids (new_camera_source ids)) i"
    by (simp add: new_bridge_def new_camera_source_def is_allowed_def set_allowed_def)
  ultimately show ?thesis by simp
qed

section \<open>The end\<close>

text \<open>
  At the end of \<open>run\<close> the two parts of a request to a stream server matter: \<open>ServeHTTP\<close> tests
  \<open>closing\<close> and finds the camera in the path, then \<open>muxerFor\<close> takes the lock of the table. \<open>en_held\<close> are the
  requests in between, with the camera each asks for.
\<close>

datatype stream_server = OnHls | OnMp4

fun table_of :: "stream_server \<Rightarrow> bridge_sys \<Rightarrow> mux_server" where
  "table_of OnHls y = sys_hls y"
| "table_of OnMp4 y = sys_mp4 y"

fun with_table :: "stream_server \<Rightarrow> mux_server \<Rightarrow> bridge_sys \<Rightarrow> bridge_sys" where
  "with_table OnHls m y = y\<lparr>sys_hls := m\<rparr>"
| "with_table OnMp4 m y = y\<lparr>sys_mp4 := m\<rparr>"

fun request_camera :: "stream_server \<Rightarrow> http_request \<Rightarrow> string option" where
  "request_camera OnHls r =
     (if req_method r = ''OPTIONS'' then None
      else case cut (trim_prefix (path r) ''/'') CHR ''/'' of (cam, rest, _) \<Rightarrow> if cam = [] then None else Some cam)"
| "request_camera OnMp4 r =
     (let p = (if length (path r) > 0 \<and> path r ! 0 = CHR ''/'' then drop 1 (path r) else path r);
          i = index_byte p CHR ''/''
      in if i \<le> 0 \<or> drop (nat i + 1) p \<noteq> ''stream.mp4'' then None else Some (take (nat i) p))"

record ending =
  en_sys :: bridge_sys
  en_held :: "(stream_server \<times> string) list"

text \<open>Something else happens at the bridge; a request passes the test; a request gets the lock.\<close>

datatype end_event = Happens sys_event | PassesTest stream_server http_request | TakesLock nat

fun end_step :: "reconciler_config \<Rightarrow> end_event \<Rightarrow> ending \<Rightarrow> ending" where
  "end_step rc (Happens e) y = y\<lparr>en_sys := snd (sys_step rc e (en_sys y))\<rparr>"
| "end_step rc (PassesTest sv r) y =
     (if ms_closing (table_of sv (en_sys y)) then y
      else case request_camera sv r of None \<Rightarrow> y | Some cam \<Rightarrow> y\<lparr>en_held := en_held y @ [(sv, cam)]\<rparr>)"
| "end_step rc (TakesLock k) y =
     (if k < length (en_held y)
      then case en_held y ! k of (sv, cam) \<Rightarrow>
        y\<lparr>en_held := take k (en_held y) @ drop (Suc k) (en_held y),
          en_sys := with_table sv (snd (muxer_for (rtsp_url_of (br_src (sys_bridge (en_sys y)))) cam (table_of sv (en_sys y)))) (en_sys y)\<rparr>
      else y)"

fun end_run :: "reconciler_config \<Rightarrow> end_event list \<Rightarrow> ending \<Rightarrow> ending" where
  "end_run rc [] y = y"
| "end_run rc (e # es) y = end_run rc es (end_step rc e y)"

text \<open>
  What ends \<open>run\<close>: a signal, or the public listener failing. Either way the public server gets five
  seconds for the requests in flight, then the deferred calls run, the last one first: the MP4
  server's \<open>Shutdown\<close>, then the HLS server's, and the process exits. \<open>es\<close>, \<open>es'\<close> and \<open>es''\<close> are what else happens
  meanwhile; besides the end, the states in which the two \<open>Shutdown\<close>s find the bridge are returned.
\<close>

datatype run_end = SignalReceived | ListenFailed string

definition exit_code :: "run_end \<Rightarrow> nat" where
  "exit_code e = (case e of SignalReceived \<Rightarrow> 0 | ListenFailed _ \<Rightarrow> 1)"

definition finish_run ::
  "reconciler_config \<Rightarrow> run_end \<Rightarrow> end_event list \<Rightarrow> end_event list \<Rightarrow> end_event list \<Rightarrow> ending
   \<Rightarrow> nat \<times> ending \<times> ending \<times> ending" where
  "finish_run rc e es es' es'' y =
     (let y1 = end_run rc es y;
          y2 = end_run rc es' (end_step rc (Happens ShutdownMp4) y1);
          y3 = end_run rc es'' (end_step rc (Happens ShutdownHls) y2)
      in (exit_code e, y1, y2, y3))"

lemma end_run_append: "end_run rc (es @ es') y = end_run rc es' (end_run rc es y)"
  by (induction es arbitrary: y) simp_all

text \<open>A request that nothing comes between leaves the table as \<open>ServeHTTP\<close> in one piece does.\<close>

lemma request_in_one:
  "end_run rc [PassesTest OnHls r, TakesLock (length (en_held y))] y = end_step rc (Happens (HlsRequest r)) y"
  "end_run rc [PassesTest OnMp4 r, TakesLock (length (en_held y))] y = end_step rc (Happens (Mp4Request r)) y"
  by (simp_all add: hls_serve_def mp4_serve_def Let_def split: prod.split option.split)

section \<open>Tables after a shutdown\<close>

text \<open>From one state of a table to a later one with at most \<open>n\<close> more muxers.\<close>

definition leads_to :: "mux_server \<Rightarrow> nat \<Rightarrow> mux_server \<Rightarrow> bool" where
  "leads_to m n m' \<longleftrightarrow> ms_closing m' \<and> set (ms_closed m) \<subseteq> set (ms_closed m') \<and> ms_next m' \<le> ms_next m + n"

lemma leads_to_same: "ms_closing m \<Longrightarrow> leads_to m n m"
  by (simp add: leads_to_def)

lemma leads_to_muxer_for: "ms_closing m \<Longrightarrow> leads_to m 1 (snd (muxer_for lookup cam m))"
  by (auto simp: leads_to_def muxer_for_def drop_muxer_def Let_def split: option.split)

lemma leads_to_prune: "ms_closing m \<Longrightarrow> mux_ok m \<Longrightarrow> leads_to m n (prune lookup m)"
proof -
  assume "ms_closing m" "mux_ok m"
  moreover have "ms_next (prune_loop lookup xs u) = ms_next u" for xs u
    by (induction lookup xs u rule: prune_loop.induct) (auto simp: drop_muxer_def)
  ultimately show ?thesis using closed_prune prune_spec by (simp add: leads_to_def) (simp add: prune_def)
qed

lemma leads_to_shutdown: "leads_to m n (shutdown m)" "leads_to m n (mp4_shutdown m)"
  by (auto simp: leads_to_def mp4_shutdown_eq) (simp_all add: shutdown_def)

lemma leads_event:
  assumes "sys_ok rc y" and "ms_closing (table_of sv y)"
  shows "leads_to (table_of sv y) 0 (table_of sv (snd (sys_step rc e y)))"
  using assms leads_to_same [of "table_of sv y" 0]
  by (cases sv; cases e)
    (auto simp: sys_ok_def hls_serve_def mp4_serve_def intro: leads_to_prune leads_to_shutdown split: prod.split)

lemma sys_ok_end_step: "sys_ok rc (en_sys y) \<Longrightarrow> sys_ok rc (en_sys (end_step rc e y))"
proof (cases e)
  case (TakesLock k)
  assume ok: "sys_ok rc (en_sys y)"
  have "sys_ok rc (with_table sv (snd (muxer_for l cam (table_of sv (en_sys y)))) (en_sys y))" for sv cam l
    using ok mux_ok_muxer_for [OF _ prod.collapse [symmetric]] by (cases sv) (simp_all add: sys_ok_def)
  then show ?thesis using ok by (simp add: TakesLock split: prod.split)
qed (auto simp: sys_ok_step simp del: sys_step.simps split: option.split)

lemma sys_ok_end_run: "sys_ok rc (en_sys y) \<Longrightarrow> sys_ok rc (en_sys (end_run rc es y))"
  by (induction es arbitrary: y) (simp_all add: sys_ok_end_step del: end_step.simps)

text \<open>The requests of a server between its test and its lock.\<close>

definition held_by :: "stream_server \<Rightarrow> ending \<Rightarrow> nat" where
  "held_by sv y = length (filter (\<lambda>h. fst h = sv) (en_held y))"

lemma filter_without:
  assumes "k < length xs"
  shows "length (filter P (take k xs @ drop (Suc k) xs)) + (if P (xs ! k) then 1 else 0) = length (filter P xs)"
proof -
  have "filter P xs = filter P (take k xs @ xs ! k # drop (Suc k) xs)" using id_take_nth_drop [OF assms] by simp
  then show ?thesis by simp
qed

lemma leads_end_step:
  assumes "sys_ok rc (en_sys y)" and "ms_closing (table_of sv (en_sys y))"
  shows "\<exists>n. leads_to (table_of sv (en_sys y)) n (table_of sv (en_sys (end_step rc e y))) \<and>
    held_by sv (end_step rc e y) + n \<le> held_by sv y"
proof (cases e)
  case (Happens f)
  then show ?thesis using leads_event [OF assms, of f] by (intro exI [of _ 0]) (simp add: held_by_def)
next
  case (PassesTest sv' r)
  then show ?thesis
    using leads_to_same [OF assms(2), of 0] assms(2) by (intro exI [of _ 0]) (auto simp: held_by_def split: option.split)
next
  case (TakesLock k)
  show ?thesis
  proof (cases "k < length (en_held y)")
    case True
    obtain sv' cam where h: "en_held y ! k = (sv', cam)" by fastforce
    let ?m = "snd (muxer_for (rtsp_url_of (br_src (sys_bridge (en_sys y)))) cam (table_of sv' (en_sys y)))"
    have t: "table_of sv (with_table sv' ?m (en_sys y)) = (if sv' = sv then ?m else table_of sv (en_sys y))"
      by (cases sv; cases sv') simp_all
    show ?thesis
      using filter_without [OF True, of "\<lambda>h. fst h = sv"] leads_to_muxer_for [OF assms(2)] leads_to_same [OF assms(2), of 0]
      by (intro exI [of _ "if sv' = sv then 1 else 0"]) (auto simp: TakesLock True h t held_by_def simp del: with_table.simps table_of.simps)
  qed (use leads_to_same [OF assms(2), of 0] in \<open>auto simp: TakesLock intro!: exI [of _ 0]\<close>)
qed

lemma leads_to_trans: "leads_to a n b \<Longrightarrow> leads_to b k c \<Longrightarrow> leads_to a (n + k) c"
  by (auto simp: leads_to_def)

lemma leads_end_run:
  "sys_ok rc (en_sys y) \<Longrightarrow> ms_closing (table_of sv (en_sys y)) \<Longrightarrow>
   \<exists>n. leads_to (table_of sv (en_sys y)) n (table_of sv (en_sys (end_run rc es y))) \<and> held_by sv (end_run rc es y) + n \<le> held_by sv y"
proof (induction es arbitrary: y)
  case (Cons e es)
  obtain n where n: "leads_to (table_of sv (en_sys y)) n (table_of sv (en_sys (end_step rc e y)))"
    "held_by sv (end_step rc e y) + n \<le> held_by sv y" using leads_end_step [OF Cons.prems] by blast
  then have "ms_closing (table_of sv (en_sys (end_step rc e y)))" by (simp add: leads_to_def)
  from Cons.IH [OF sys_ok_end_step [OF Cons.prems(1)] this] obtain k where
    "leads_to (table_of sv (en_sys (end_step rc e y))) k (table_of sv (en_sys (end_run rc (e # es) y)))"
    "held_by sv (end_run rc (e # es) y) + k \<le> held_by sv (end_step rc e y)" by auto
  with n leads_to_trans [OF n(1)] show ?case by (intro exI [of _ "n + k"]) auto
qed (use leads_to_same [where n = 0] in fastforce)

lemma shut_by_event:
  assumes "sys_ok rc (en_sys y)" and "e = (case sv of OnHls \<Rightarrow> ShutdownHls | OnMp4 \<Rightarrow> ShutdownMp4)"
  shows "ms_closing (table_of sv (en_sys (end_step rc (Happens e) y))) \<and>
    set (ms_closed (table_of sv (en_sys (end_step rc (Happens e) y)))) = {..< ms_next (table_of sv (en_sys y))} \<and>
    ms_next (table_of sv (en_sys (end_step rc (Happens e) y))) = ms_next (table_of sv (en_sys y)) \<and>
    held_by sv (end_step rc (Happens e) y) = held_by sv y"
proof -
  have "set (objs m) \<union> set (ms_closed m) = {..< ms_next m}" if "mux_ok m" for m using that by (simp add: mux_ok_def)
  then show ?thesis
    using assms by (cases sv) (auto simp: sys_ok_def shutdown_def mp4_shutdown_eq objs_def held_by_def)
qed

text \<open>What a table is at the end, from what its \<open>Shutdown\<close> found.\<close>

lemma shut_to_end:
  assumes ok: "sys_ok rc (en_sys y)" and e: "e = (case sv of OnHls \<Rightarrow> ShutdownHls | OnMp4 \<Rightarrow> ShutdownMp4)"
    and z: "z = end_run rc es (end_step rc (Happens e) y)"
  shows "ms_closing (table_of sv (en_sys z)) \<and> distinct (ms_closed (table_of sv (en_sys z))) \<and>
    {..< ms_next (table_of sv (en_sys y))} \<subseteq> set (ms_closed (table_of sv (en_sys z))) \<and>
    ms_next (table_of sv (en_sys z)) + held_by sv z \<le> ms_next (table_of sv (en_sys y)) + held_by sv y \<and>
    (held_by sv y = 0 \<longrightarrow> ms_muxers (table_of sv (en_sys z)) = [])"
proof -
  let ?t = "table_of sv (en_sys z)"
  note sh = shut_by_event [OF ok e]
  from leads_end_run [OF sys_ok_end_step [OF ok], of sv "Happens e" es] sh obtain n where
    n: "leads_to (table_of sv (en_sys (end_step rc (Happens e) y))) n ?t" "held_by sv z + n \<le> held_by sv y"
    unfolding z by auto
  have m: "mux_ok ?t"
    using sys_ok_end_run [OF sys_ok_end_step [OF ok], of es "Happens e"] unfolding z by (cases sv) (simp_all add: sys_ok_def)
  have c: "ms_closing ?t" "{..< ms_next (table_of sv (en_sys y))} \<subseteq> set (ms_closed ?t)"
    "ms_next ?t \<le> ms_next (table_of sv (en_sys y)) + n"
    using n(1) sh by (auto simp: leads_to_def)
  have "objs ?t = []" if "held_by sv y = 0"
  proof -
    have "{..< ms_next ?t} \<subseteq> set (ms_closed ?t)" using c(2,3) n(2) that by auto
    moreover have "set (objs ?t) \<subseteq> {..< ms_next ?t}" using m by (auto simp: mux_ok_def)
    ultimately have "set (objs ?t) \<subseteq> set (ms_closed ?t)" by blast
    then show ?thesis using m by (cases "objs ?t") (auto simp: mux_ok_def)
  qed
  with c n(2) m show ?thesis by (auto simp: mux_ok_def objs_def)
qed

section \<open>Properties\<close>

text \<open>
  C15: nothing is public before everything is in order. The public server is started only when the
  configuration has loaded, the controller has taken the login and given the cameras, the account is
  a local one and the secret is there. Then the consent password has at least eight bytes; the
  allow-list is the configured one; the streams mirror the controller; the first refresh has asked
  for no SYNC; and OAuth tokens and stream URLs are signed with different keys of one secret, a
  generated one being at least 32 bytes.
\<close>

theorem public_only_when_ready:
  assumes "run_bridge env = (out, st, acts)" and "\<And>b. se_random env = Inr b \<Longrightarrow> length b = 32"
  shows "(PublicServer \<in> set st \<longleftrightarrow> (\<exists>ru. out = Running ru)) \<and>
    (case out of
       Running ru \<Rightarrow>
         (let cfg = ru_config ru; ids = bo_exposed_cameras (cf_bridge cfg) in
          load (se_parse env) (se_options env) = Inr cfg \<and> 8 \<le> length (user_password (ru_oauth ru)) \<and>
          us_logged_in (ru_session ru) \<and> \<not> us_cloud_only (ru_session ru) \<and>
          (\<exists>s cams upd h. bootstrap (se_controller env (cf_unifi cfg)) s = (Inr (cams, upd), ru_session ru, h) \<and>
             cs_rtsp_urls (br_src (ru_bridge ru)) = (\<lambda>i. Option.bind (camera_of cams i) (stream_entry (ru_rc ru)))) \<and>
          sys_ok (ru_rc ru) (ru_sys ru) \<and>
          (\<forall>i. is_allowed (br_src (ru_bridge ru)) i \<longleftrightarrow> (\<forall>k \<in> set ids. k = []) \<or> i \<noteq> [] \<and> i \<in> set ids) \<and>
          RequestSync \<notin> set acts \<and>
          (\<exists>master. token_secret (ru_oauth ru) = oauth_key master \<and> ru_stream_key ru = stream_key master \<and>
             (if bo_stream_token_secret (cf_bridge cfg) = [] then 32 \<le> length master
              else master = to_bytes (bo_stream_token_secret (cf_bridge cfg)))))
     | _ \<Rightarrow> PublicServer \<notin> set st)"
proof (cases "\<exists>ru. out = Running ru")
  case True
  then obtain ru where ru: "out = Running ru" ..
  obtain cfg s hg cams upd c h br master where
    l: "load (se_parse env) (se_options env) = Inr cfg"
    and b: "bootstrap (se_controller env (cf_unifi cfg)) s = (Inr (cams, upd), c, h)"
    and f: "refresh_apply (start_config cfg hg) 0 cams upd (new_bridge (bo_exposed_cameras (cf_bridge cfg))) = (acts, br)"
    and c: "\<not> us_cloud_only c"
    and m: "fst (load_or_create_secret (bo_stream_token_secret (cf_bridge cfg)) (se_secret_path env)
           (se_secret env) (se_random env) (se_write env)) = Inr master"
    and r: "ru = start_servers cfg c br hg master" and st: "PublicServer \<in> set st"
    by (rule run_bridge_running [OF assms(1) [unfolded ru]]) blast
  note sp = refresh_apply_spec [OF reg_ok_new f]
  have "RequestSync \<notin> set acts" using sp(8) by (simp add: new_bridge_def)
  moreover have "cs_rtsp_urls (br_src br) = (\<lambda>i. Option.bind (camera_of cams i) (stream_entry (start_config cfg hg)))"
    using sp(3) by (simp add: fun_eq_iff)
  moreover have "8 \<le> length (bo_consent_password (cf_bridge cfg))"
    using l by (auto simp: load_def validate_def split: sum.splits option.splits if_splits)
  moreover have "if bo_stream_token_secret (cf_bridge cfg) = [] then 32 \<le> length master
      else master = to_bytes (bo_stream_token_secret (cf_bridge cfg))"
    using m assms(2) by (fastforce simp: load_or_create_secret_def split: option.splits if_splits sum.splits prod.splits)
  moreover have "sys_ok (ru_rc ru) (ru_sys ru)" using sp(1) by (simp add: r start_servers_def sys_ok_def)
  moreover have p: "ru_config ru = cfg" "ru_session ru = c" "ru_bridge ru = br" "ru_rc ru = start_config cfg hg"
      "user_password (ru_oauth ru) = bo_consent_password (cf_bridge cfg)"
      "token_secret (ru_oauth ru) = oauth_key master" "ru_stream_key ru = stream_key master"
    by (simp_all add: r start_servers_def new_oauth_def oauth_key_def stream_key_def)
  ultimately show ?thesis
    unfolding ru outcome.case Let_def p
    by (intro conjI allI iffI exI [of _ ru] refl l bootstrap_logged_in [OF b] c st refresh_new_allowed [OF f] exI [of _ s]
        exI [of _ cams] exI [of _ upd] exI [of _ h] b exI [of _ master]) simp_all
next
  case False
  then show ?thesis using run_bridge_not_running [OF assms(1)] by (cases out) auto
qed

text \<open>A fresh installation whose controller takes any login and has no cameras.\<close>

definition ex_env :: "unit startup_env" where
  "ex_env =
     \<lparr>se_token = True, se_parse = (\<lambda>_. Inr ex_config), se_options = Inr [],
      se_controller = (\<lambda>u. ex_good_controller ex_credentials),
      se_keys = \<lparr>kp_pem = (\<lambda>_. None), kp_pkcs1 = (\<lambda>_. None), kp_pkcs8 = (\<lambda>_. Inl [])\<rparr>,
      se_account = (\<lambda>_. Inl []), se_secret_path = ''/data/stream_secret'', se_secret = None,
      se_random = Inr (replicate 32 7), se_write = (\<lambda>b. (None, Some b))\<rparr>"

lemma ex_env_simps [simp]:
  "se_token ex_env" "se_parse ex_env = (\<lambda>_. Inr ex_config)" "se_options ex_env = Inr []"
  "se_controller ex_env = (\<lambda>u. ex_good_controller ex_credentials)" "se_secret ex_env = None"
  "se_random ex_env = Inr (replicate 32 7)" "se_write ex_env = (\<lambda>b. (None, Some b))"
  by (simp_all add: ex_env_def)

lemma ex_env_starts: "\<exists>ru st acts. run_bridge ex_env = (Running ru, st @ [PublicServer], acts)"
proof -
  let ?cfg = "ex_config\<lparr>cf_bridge := with_defaults (cf_bridge ex_config)\<rparr>"
  let ?ctl = "ex_good_controller ex_credentials"
  have l: "load (\<lambda>_. Inr ex_config) (Inr []) = Inr ?cfg"
    by (simp add: load_def load_partial_def validate_def with_defaults_def) (simp add: ex_config_def)
  have g: "start_homegraph ex_env (cf_google ?cfg) = Inr None"
    by (simp add: start_homegraph_def new_home_graph_def) (simp add: ex_config_def, code_simp)
  have s: "bo_stream_token_secret (cf_bridge ?cfg) = []" by (simp add: with_defaults_def ex_config_def)
  obtain s where n: "unifi_login ?ctl (new_session, []) = (None, s)"
    by (simp add: unifi_login_def ex_good_controller_def)
  then have "\<exists>c h. bootstrap ?ctl s = (Inr ([], []), c, h) \<and> \<not> us_cloud_only c"
    by (auto simp: unifi_login_def ex_good_controller_def bootstrap_def unifi_do_def ensure_auth_def numeral_2_eq_2
        to_cameras_def)
  then obtain c h where b: "bootstrap ?ctl s = (Inr ([], []), c, h)" "\<not> us_cloud_only c" by blast
  show ?thesis
    unfolding run_bridge_def Let_def ex_env_simps l sum.case n prod.case option.case g b(1) s
    using b(2) by (auto simp: load_or_create_secret_def split: prod.splits)
qed

theorem public_only_when_ready_witness:
  "\<exists>ru st acts. run_bridge ex_env = (Running ru, st, acts) \<and> PublicServer \<in> set st \<and>
     us_logged_in (ru_session ru) \<and> RequestSync \<notin> set acts"
proof -
  obtain ru st acts where r: "run_bridge ex_env = (Running ru, st @ [PublicServer], acts)" using ex_env_starts by blast
  have "length b = 32" if "se_random ex_env = Inr b" for b using that by auto
  from public_only_when_ready [OF r this] r show ?thesis by (auto simp: Let_def)
qed

text \<open>
  C35: what is left behind at the end. However the run ends and whatever requests, refreshes and prunes come in
  between, at the end both servers refuse requests, and \<open>Close\<close> has run, once, on every muxer that a server had opened when
  its \<open>Shutdown\<close> came. A muxer can be opened after that only by a request that was between its test of
  \<open>closing\<close> and the lock of the table when \<open>Shutdown\<close> came, one at most by each; if there was none, the table is
  empty at the end. The exit code is 0 for a signal and 1 for a failed listener.
\<close>

theorem all_muxers_closed_at_exit:
  assumes "y = end_run rc es0 \<lparr>en_sys = new_sys exposed, en_held = []\<rparr>"
    and "finish_run rc e es es' es'' y = (code, at_mp4, at_hls, z)"
  shows "list_all (\<lambda>(sv, y1). ms_closing (table_of sv (en_sys z)) \<and> distinct (ms_closed (table_of sv (en_sys z))) \<and>
      {..< ms_next (table_of sv (en_sys y1))} \<subseteq> set (ms_closed (table_of sv (en_sys z))) \<and>
      ms_next (table_of sv (en_sys z)) + held_by sv z \<le> ms_next (table_of sv (en_sys y1)) + held_by sv y1 \<and>
      (held_by sv y1 = 0 \<longrightarrow> ms_muxers (table_of sv (en_sys z)) = [])) [(OnMp4, at_mp4), (OnHls, at_hls)] \<and>
    (code = 0 \<longleftrightarrow> e = SignalReceived)"
proof -
  have f: "code = exit_code e" "at_mp4 = end_run rc es y" "at_hls = end_run rc es' (end_step rc (Happens ShutdownMp4) at_mp4)"
    "z = end_run rc es'' (end_step rc (Happens ShutdownHls) at_hls)"
    using assms(2) by (auto simp: finish_run_def Let_def simp del: end_step.simps)
  have ok: "sys_ok rc (en_sys at_mp4)" unfolding f(2) assms(1) by (intro sys_ok_end_run) simp
  then have ok': "sys_ok rc (en_sys at_hls)" unfolding f(3) by (intro sys_ok_end_run sys_ok_end_step)
  have z: "z = end_run rc (es' @ Happens ShutdownHls # es'') (end_step rc (Happens ShutdownMp4) at_mp4)"
    using end_run_append by (simp add: f(3,4) del: end_step.simps)
  have "code = 0 \<longleftrightarrow> e = SignalReceived" by (simp add: f(1) exit_code_def split: run_end.split)
  with shut_to_end [OF ok _ z, of OnMp4] shut_to_end [OF ok' _ f(4), of OnHls] show ?thesis by simp
qed

text \<open>
  The listener fails while a player asks for the playlist: one request has been served, one is between its test and
  the lock when the server is shut down.
\<close>

definition ex_end :: "nat \<times> ending \<times> ending \<times> ending" where
  "ex_end =
     finish_run ex_rc (ListenFailed ''in use'') [Happens (HlsRequest ex_hls_request), PassesTest OnHls ex_hls_request] [] [TakesLock 0]
       (end_run ex_rc [Happens (Refreshed 0 [ex_uc ''a'' True True] ''u'')] \<lparr>en_sys = new_sys [], en_held = []\<rparr>)"

theorem all_muxers_closed_at_exit_witness:
  "case ex_end of (code, at_mp4, at_hls, z) \<Rightarrow>
     code = 1 \<and> 0 \<in> set (ms_closed (sys_hls (en_sys z))) \<and> ms_muxers (sys_mp4 (en_sys z)) = [] \<and>
     map (\<lambda>m. mx_obj (snd m)) (ms_muxers (sys_hls (en_sys z))) = [1]"
proof -
  obtain code at_mp4 at_hls z where r: "ex_end = (code, at_mp4, at_hls, z)" by (cases ex_end)
  have "fst ex_end = 1" "ms_next (sys_hls (en_sys (fst (snd (snd ex_end))))) = 1" "held_by OnMp4 (fst (snd ex_end)) = 0"
    "map (\<lambda>m. mx_obj (snd m)) (ms_muxers (sys_hls (en_sys (snd (snd (snd ex_end)))))) = [1]" by code_simp+
  with all_muxers_closed_at_exit [OF refl r [unfolded ex_end_def]] show ?thesis by (auto simp: r)
qed

end
