(* ===== verification/Discovery.thy ===== *)
theory Discovery
  imports Crypto
begin

text \<open>
  The discovery of consoles on the local network, \<open>internal/discovery/discovery.go\<close>: the parser of
  UBNT replies, the merging of what several replies say of one address, and the loop of \<open>Scan\<close> over
  what the socket delivers.
\<close>

section \<open>Devices\<close>

record disc_device =
  dd_source_ip :: string
  dd_hw_addr :: string
  dd_hostname :: string
  dd_platform :: string
  dd_model :: string
  dd_product_name :: string
  dd_version :: string
  dd_fw_version :: string
  dd_uptime :: u32

definition blank_device :: "string \<Rightarrow> disc_device" where
  "blank_device ip =
     \<lparr>dd_source_ip = ip, dd_hw_addr = [], dd_hostname = [], dd_platform = [], dd_model = [], dd_product_name = [],
      dd_version = [], dd_fw_version = [], dd_uptime = 0\<rparr>"

definition merge_device :: "disc_device \<Rightarrow> disc_device \<Rightarrow> disc_device" where
  "merge_device d other =
     d\<lparr>dd_hw_addr := (if dd_hw_addr d = [] then dd_hw_addr other else dd_hw_addr d),
       dd_hostname := (if dd_hostname d = [] then dd_hostname other else dd_hostname d),
       dd_platform := (if dd_platform d = [] then dd_platform other else dd_platform d),
       dd_model := (if dd_model d = [] then dd_model other else dd_model d),
       dd_product_name := (if dd_product_name d = [] then dd_product_name other else dd_product_name d),
       dd_version := (if dd_version d = [] then dd_version other else dd_version d),
       dd_fw_version := (if dd_fw_version d = [] then dd_fw_version other else dd_fw_version d),
       dd_uptime := (if dd_uptime d = 0 then dd_uptime other else dd_uptime d)\<rparr>"

section \<open>Replies\<close>

definition disc_port :: nat where "disc_port = 10001"

definition req_v1 :: bytes where "req_v1 = [0x01, 0x00, 0x00, 0x00]"
definition req_v2 :: bytes where "req_v2 = [0x02, 0x08, 0x00, 0x00]"

text \<open>\<open>binary.BigEndian.Uint16\<close>, as a Go \<open>int\<close>, and \<open>string(val)\<close>.\<close>

definition u16 :: "byte \<Rightarrow> byte \<Rightarrow> nat" where
  "u16 a b = 256 * unat a + unat b"

definition bytes_string :: "bytes \<Rightarrow> string" where
  "bytes_string bs = map (\<lambda>b. char_of (unat b)) bs"

text \<open>\<open>formatMAC\<close>: the loop writes a colon before every byte but the first.\<close>

fun mac_bytes :: "bool \<Rightarrow> bytes \<Rightarrow> string" where
  "mac_bytes first [] = []"
| "mac_bytes first (c # cs) =
     (if first then [] else '':'') @ [hex_digits ! unat (drop_bit 4 c), hex_digits ! unat (c AND 0x0f)] @ mac_bytes False cs"

definition format_mac :: "bytes \<Rightarrow> string" where
  "format_mac b = mac_bytes True b"

definition apply_field :: "byte \<Rightarrow> bytes \<Rightarrow> disc_device \<Rightarrow> disc_device" where
  "apply_field ft v d =
     (if ft = 0x01 \<or> ft = 0x05 then
        (if length v = 6 \<and> dd_hw_addr d = [] then d\<lparr>dd_hw_addr := format_mac v\<rparr> else d)
      else if ft = 0x02 then
        (if length v = 10 \<and> dd_hw_addr d = [] then d\<lparr>dd_hw_addr := format_mac (take 6 v)\<rparr> else d)
      else if ft = 0x03 then d\<lparr>dd_fw_version := bytes_string v\<rparr>
      else if ft = 0x0A then (if length v = 4 then d\<lparr>dd_uptime := from_be32 v\<rparr> else d)
      else if ft = 0x0B then d\<lparr>dd_hostname := bytes_string v\<rparr>
      else if ft = 0x0C then d\<lparr>dd_platform := bytes_string v\<rparr>
      else if ft = 0x14 then d\<lparr>dd_model := bytes_string v\<rparr>
      else if ft = 0x15 then d\<lparr>dd_product_name := bytes_string v\<rparr>
      else if ft = 0x16 then d\<lparr>dd_version := bytes_string v\<rparr>
      else d)"

text \<open>The loop over the fields: every turn takes at least three bytes off the body.\<close>

function parse_fields :: "bytes \<Rightarrow> disc_device \<Rightarrow> disc_device" where
  "parse_fields body d =
     (if length body < 3 then d
      else
        let ft = body ! 0; fl = u16 (body ! 1) (body ! 2) in
        if 3 + fl > length body then d
        else parse_fields (drop (3 + fl) body) (apply_field ft (take fl (drop 3 body)) d))"
  by pat_completeness auto
termination by (relation "measure (\<lambda>(body, d). length body)") (auto simp: Let_def)

declare parse_fields.simps [simp del]

text \<open>\<open>parseResponse\<close>: the reply's bytes and the address it came from.\<close>

definition parse_response :: "bytes \<Rightarrow> string \<Rightarrow> nat \<Rightarrow> disc_device option" where
  "parse_response payload ip port =
     (if length payload < 4 then None
      else if port \<noteq> disc_port \<and> payload ! 0 = 0x01 \<and> payload ! 1 = 0x00 then Some (blank_device ip)
      else
        let version = payload ! 0; command = payload ! 1; data_len = u16 (payload ! 2) (payload ! 3) in
        if version = 0x01 \<and> command = 0x00 \<or> version = 0x02 \<and> (command = 0x06 \<or> command = 0x09) \<or>
           version = 0x00 \<and> data_len > 0
        then
          let body = drop 4 payload;
              data_len = (if data_len > length body then length body else data_len)
          in Some (parse_fields (take data_len body) (blank_device ip))
        else None)"

section \<open>The scan\<close>

text \<open>
  A turn of the loop: whether the retry ticker has fired, and what the read gives: a packet with its
  sender, a timeout or another error; \<open>done\<close> says that the context is over by then.
\<close>

datatype disc_read = Packet bytes string nat | ReadTimeout | ReadError string

record disc_turn =
  dt_tick :: bool
  dt_read :: disc_read
  dt_done :: bool

text \<open>The devices in the order of their first reply; Go's map forgets that order.\<close>

definition add_device :: "disc_device \<Rightarrow> (string \<times> disc_device) list \<Rightarrow> (string \<times> disc_device) list" where
  "add_device d ds =
     (case map_of ds (dd_source_ip d) of
        Some e \<Rightarrow> AList.update (dd_source_ip d) (merge_device e d) ds
      | None \<Rightarrow> AList.update (dd_source_ip d) d ds)"

text \<open>The result, and how often the four requests were sent.\<close>

fun scan_loop ::
  "disc_turn list \<Rightarrow> (string \<times> disc_device) list \<Rightarrow> nat \<Rightarrow> (string + (string \<times> disc_device) list) \<times> nat" where
  "scan_loop [] ds sent = (Inr ds, sent)"
| "scan_loop (t # ts) ds sent =
     (let sent = (if dt_tick t then sent + 1 else sent) in
      case dt_read t of
        ReadTimeout \<Rightarrow> (Inr ds, sent)
      | ReadError e \<Rightarrow> (Inl (''read: '' @ e), sent)
      | Packet payload ip port \<Rightarrow>
          if dt_done t then (Inr ds, sent)
          else case parse_response payload ip port of
            None \<Rightarrow> scan_loop ts ds sent
          | Some d \<Rightarrow> scan_loop ts (add_device d ds) sent)"

definition scan :: "string option \<Rightarrow> disc_turn list \<Rightarrow> (string + disc_device list) \<times> nat" where
  "scan listen turns =
     (case listen of
        Some e \<Rightarrow> (Inl (''listen udp: '' @ e), 0)
      | None \<Rightarrow>
          (case scan_loop turns [] 1 of
             (Inl e, n) \<Rightarrow> (Inl e, n) | (Inr ds, n) \<Rightarrow> (Inr (map snd ds), n)))"

section \<open>Encoding, for the round trip\<close>

definition be16 :: "nat \<Rightarrow> bytes" where
  "be16 n = [word_of_nat (n div 256), word_of_nat (n mod 256)]"

definition encode_field :: "byte \<times> bytes \<Rightarrow> bytes" where
  "encode_field f = fst f # be16 (length (snd f)) @ snd f"

definition encode_reply :: "byte \<Rightarrow> byte \<Rightarrow> (byte \<times> bytes) list \<Rightarrow> bytes" where
  "encode_reply version command fs =
     [version, command] @ be16 (length (concat (map encode_field fs))) @ concat (map encode_field fs)"

text \<open>The fields of a device, as a console sends them.\<close>

definition device_fields :: "bytes \<Rightarrow> disc_device \<Rightarrow> (byte \<times> bytes) list" where
  "device_fields mac d =
     [(0x01, mac), (0x0B, to_bytes (dd_hostname d)), (0x0C, to_bytes (dd_platform d)), (0x14, to_bytes (dd_model d)),
      (0x15, to_bytes (dd_product_name d)), (0x16, to_bytes (dd_version d)), (0x03, to_bytes (dd_fw_version d)),
      (0x0A, be32 (dd_uptime d))]"

lemma u16_be16: "n < 65536 \<Longrightarrow> u16 (word_of_nat (n div 256)) (word_of_nat (n mod 256)) = n"
proof -
  assume "n < 65536"
  then have "n div 256 < 2 ^ 8" "n mod 256 < 2 ^ 8" by (simp_all add: less_mult_imp_div_less)
  then show ?thesis by (simp add: u16_def unat_of_nat take_bit_nat_eq_self)
qed

lemma bytes_string_to_bytes [simp]: "bytes_string (to_bytes s) = s"
proof -
  have "char_of (unat (of_char c :: byte)) = c" for c
  proof -
    have "unat (of_char c :: byte) = of_char c"
      by (simp add: of_nat_of_char [symmetric, where 'a = byte] unat_of_nat)
    then show ?thesis by simp
  qed
  then show ?thesis by (simp add: bytes_string_def to_bytes_def comp_def)
qed

lemma drop_field: "drop (3 + length v) (t # a # b # v @ r) = r"
  by (simp add: numeral_3_eq_3)

lemma parse_fields_encode:
  "list_all (\<lambda>f. length (snd f) < 65536) fs \<Longrightarrow>
   parse_fields (concat (map encode_field fs)) d = foldl (\<lambda>d f. apply_field (fst f) (snd f) d) d fs"
proof (induction fs arbitrary: d)
  case Nil
  then show ?case by (simp add: parse_fields.simps)
next
  case (Cons f fs)
  obtain t v where f: "f = (t, v)" by fastforce
  let ?r = "concat (map encode_field fs)"
  have e: "concat (map encode_field (f # fs)) = t # be16 (length v) @ v @ ?r" by (simp add: encode_field_def f)
  have u: "u16 (be16 (length v) ! 0) (be16 (length v) ! 1) = length v"
    using Cons.prems u16_be16 by (simp add: be16_def f)
  have "parse_fields (t # be16 (length v) @ v @ ?r) d = parse_fields ?r (apply_field t v d)"
    using u by (subst parse_fields.simps) (simp add: be16_def Let_def drop_field)
  then show ?case using Cons by (simp only: e) (simp add: f)
qed

lemma parse_response_encode:
  assumes "list_all (\<lambda>f. length (snd f) < 65536) fs" and "length (concat (map encode_field fs)) < 65536"
    and "version = 0x02 \<and> (command = 0x06 \<or> command = 0x09) \<or> version = 0x01 \<and> command = 0x00 \<and> port = disc_port"
  shows "parse_response (encode_reply version command fs) ip port =
    Some (foldl (\<lambda>d f. apply_field (fst f) (snd f) d) (blank_device ip) fs)"
proof -
  let ?b = "concat (map encode_field fs)"
  have e: "encode_reply version command fs = version # command # word_of_nat (length ?b div 256) # word_of_nat (length ?b mod 256) # ?b"
    by (simp add: encode_reply_def be16_def)
  show ?thesis
    using assms(3) u16_be16 [OF assms(2)] parse_fields_encode [OF assms(1), of "blank_device ip"] unfolding e parse_response_def
    by (auto simp: Let_def)
qed

section \<open>Merging\<close>

lemma merge_absorbs [simp]:
  "merge_device (merge_device d e) d = merge_device d e" "merge_device (merge_device d e) e = merge_device d e"
  "merge_device d d = d"
  by (simp_all add: merge_device_def)

lemma if_eq_else: "(if x = a then y else x) = x \<longleftrightarrow> (x = a \<longrightarrow> y = a)"
  by auto

lemma merge_eq_iff:
  "merge_device d e = d \<longleftrightarrow>
   (dd_hw_addr d = [] \<longrightarrow> dd_hw_addr e = []) \<and> (dd_hostname d = [] \<longrightarrow> dd_hostname e = []) \<and>
   (dd_platform d = [] \<longrightarrow> dd_platform e = []) \<and> (dd_model d = [] \<longrightarrow> dd_model e = []) \<and>
   (dd_product_name d = [] \<longrightarrow> dd_product_name e = []) \<and> (dd_version d = [] \<longrightarrow> dd_version e = []) \<and>
   (dd_fw_version d = [] \<longrightarrow> dd_fw_version e = []) \<and> (dd_uptime d = 0 \<longrightarrow> dd_uptime e = 0)"
  by (cases d) (simp only: merge_device_def disc_device.simps disc_device.ext_inject if_eq_else simp_thms)

lemma merge_keeps: "merge_device d e = d \<Longrightarrow> merge_device (merge_device d f) e = merge_device d f"
  by (simp add: merge_eq_iff) (simp add: merge_device_def)

lemma merge_ip [simp]: "dd_source_ip (merge_device d e) = dd_source_ip d"
  by (simp add: merge_device_def)

lemma map_of_add_device:
  "map_of (add_device d ds) ip =
   (if ip = dd_source_ip d then Some (case map_of ds ip of Some e \<Rightarrow> merge_device e d | None \<Rightarrow> d) else map_of ds ip)"
  by (simp add: add_device_def update_conv' split: option.split)

lemma distinct_add_device: "distinct (map fst ds) \<Longrightarrow> distinct (map fst (add_device d ds))"
  by (simp add: add_device_def distinct_update split: option.split)

definition add_devices :: "disc_device list \<Rightarrow> (string \<times> disc_device) list \<Rightarrow> (string \<times> disc_device) list" where
  "add_devices rs ds = foldl (\<lambda>ds r. add_device r ds) ds rs"

lemma add_devices_simps [simp]:
  "add_devices [] ds = ds" "add_devices (r # rs) ds = add_devices rs (add_device r ds)"
  "add_devices (rs @ rs') ds = add_devices rs' (add_devices rs ds)"
  by (simp_all add: add_devices_def)

lemma add_devices_absorb:
  "(\<exists>e. map_of ds (dd_source_ip r) = Some e \<and> merge_device e r = e) \<or> r \<in> set rs \<Longrightarrow>
   \<exists>e. map_of (add_devices rs ds) (dd_source_ip r) = Some e \<and> merge_device e r = e"
proof (induction rs arbitrary: ds)
  case (Cons q rs)
  have "(\<exists>e. map_of (add_device q ds) (dd_source_ip r) = Some e \<and> merge_device e r = e) \<or> r \<in> set rs"
    using Cons.prems
    by (auto simp: map_of_add_device merge_keeps split: option.splits if_splits)
  then show ?case using Cons.IH by simp
qed simp

lemma update_same: "map_of xs k = Some v \<Longrightarrow> AList.update k v xs = xs"
  by (induction xs) (auto split: if_splits)

text \<open>The replies of the turns that the loop gets to see, in order.\<close>

fun replies :: "disc_turn list \<Rightarrow> disc_device list" where
  "replies [] = []"
| "replies (t # ts) =
     (case dt_read t of
        Packet payload ip port \<Rightarrow>
          if dt_done t then []
          else (case parse_response payload ip port of None \<Rightarrow> [] | Some d \<Rightarrow> [d]) @ replies ts
      | _ \<Rightarrow> [])"

lemma scan_loop_devices: "scan_loop ts ds sent = (Inr ds', n) \<Longrightarrow> ds' = add_devices (replies ts) ds"
  by (induction ts ds sent rule: scan_loop.induct)
    (auto simp: Let_def split: disc_read.splits if_splits option.splits)

lemma distinct_add_devices: "distinct (map fst ds) \<Longrightarrow> distinct (map fst (add_devices rs ds))"
  by (induction rs arbitrary: ds) (simp_all add: distinct_add_device)

lemma ball_update: "\<forall>e \<in> set xs. P e \<Longrightarrow> P (k, v) \<Longrightarrow> \<forall>e \<in> set (AList.update k v xs). P e"
  by (induction xs) auto

lemma add_devices_keys:
  "\<forall>e \<in> set ds. dd_source_ip (snd e) = fst e \<Longrightarrow> \<forall>e \<in> set (add_devices rs ds). dd_source_ip (snd e) = fst e"
proof (induction rs arbitrary: ds)
  case (Cons r rs)
  have u: "\<forall>e \<in> set (AList.update (dd_source_ip r) v ds). dd_source_ip (snd e) = fst e" if "dd_source_ip v = dd_source_ip r" for v
    by (rule ball_update [OF Cons.prems]) (simp add: that)
  have "dd_source_ip e = dd_source_ip r" if "map_of ds (dd_source_ip r) = Some e" for e
    using map_of_SomeD [OF that] Cons.prems by fastforce
  then have "\<forall>e \<in> set (add_device r ds). dd_source_ip (snd e) = fst e"
    unfolding add_device_def by (cases "map_of ds (dd_source_ip r)") (simp_all only: option.case, (rule u; simp)+)
  then show ?case using Cons.IH by simp
qed simp

lemma replies_append:
  "list_all (\<lambda>t. \<not> dt_done t \<and> (\<exists>p i n. dt_read t = Packet p i n)) ts \<Longrightarrow> replies (ts @ us) = replies ts @ replies us"
  by (induction ts) auto

lemma scan_loop_timeout:
  "list_all (\<lambda>t. \<not> dt_done t \<and> (\<exists>p i n. dt_read t = Packet p i n)) ts \<Longrightarrow>
   fst (scan_loop (ts @ [\<lparr>dt_tick = b, dt_read = ReadTimeout, dt_done = c\<rparr>]) ds sent) = Inr (add_devices (replies ts) ds)"
  by (induction ts arbitrary: ds sent) (auto simp: Let_def split: option.splits)

section \<open>Properties\<close>

text \<open>
  A console's reply is read back in full. For a device with a six-byte hardware address, the
  packet of its fields, sent as a V2 response or, from the discovery port, as a V1 one, parses to that
  device at the sender's address, as long as the fields fit the packet's 16-bit lengths.
\<close>

theorem reply_roundtrip:
  assumes "length mac = 6" and "length (concat (map encode_field (device_fields mac d))) < 65536"
    and "version = 0x02 \<and> (command = 0x06 \<or> command = 0x09) \<or> version = 0x01 \<and> command = 0x00 \<and> port = disc_port"
  shows "parse_response (encode_reply version command (device_fields mac d)) (dd_source_ip d) port =
    Some (d\<lparr>dd_hw_addr := format_mac mac\<rparr>)"
proof -
  have "length (snd f) \<le> length (concat (map encode_field fs))" if "f \<in> set fs" for f fs
    using that by (induction fs) (auto simp: encode_field_def)
  then have "list_all (\<lambda>f. length (snd f) < 65536) (device_fields mac d)"
    using assms(2) unfolding list_all_iff by (meson le_less_trans)
  from parse_response_encode [OF this assms(2,3), of "dd_source_ip d"] show ?thesis
    using assms(1) by (simp add: device_fields_def apply_field_def blank_device_def)
qed

definition ex_device :: disc_device where
  "ex_device = (blank_device ''10.0.0.2'')\<lparr>dd_hostname := ''udm'', dd_uptime := 7\<rparr>"

theorem reply_roundtrip_witness:
  "parse_response (encode_reply 0x02 0x06 (device_fields [1, 2, 3, 4, 5, 6] ex_device)) ''10.0.0.2'' 5 =
   Some (ex_device\<lparr>dd_hw_addr := ''01:02:03:04:05:06''\<rparr>)"
proof -
  have "format_mac [1, 2, 3, 4, 5, 6] = ''01:02:03:04:05:06''" by code_simp
  moreover have "length (concat (map encode_field (device_fields [1, 2, 3, 4, 5, 6] ex_device))) < 65536"
    by (simp add: device_fields_def encode_field_def ex_device_def blank_device_def be16_def to_bytes_def)
  moreover have "dd_source_ip ex_device = ''10.0.0.2''" by (simp add: ex_device_def blank_device_def)
  ultimately show ?thesis using reply_roundtrip [of "[1, 2, 3, 4, 5, 6]" ex_device "0x02" "0x06" 5] by simp
qed

text \<open>
  A scan lists each address once and loses nothing. When the socket delivers packets until the
  deadline, every reply is absorbed by the one listed device of its address, which fills its empty
  fields and keeps the others; and a reply that is delivered a second time, as the retransmitted
  requests provoke, changes nothing in the result.
\<close>

theorem scan_merges_replies:
  assumes "list_all (\<lambda>t. \<not> dt_done t \<and> (\<exists>p i n. dt_read t = Packet p i n)) ts"
    and "end = \<lparr>dt_tick = b, dt_read = ReadTimeout, dt_done = c\<rparr>" and "t \<in> set ts"
  shows "\<exists>ds. fst (scan None (ts @ [end])) = Inr ds \<and> distinct (map dd_source_ip ds) \<and>
    list_all (\<lambda>r. list_ex (\<lambda>d. dd_source_ip d = dd_source_ip r \<and> merge_device d r = d) ds) (replies ts) \<and>
    fst (scan None (ts @ [t, end])) = Inr ds"
proof -
  define ds where "ds = add_devices (replies ts) []"
  have r: "fst (scan None (us @ [end])) = Inr (map snd (add_devices (replies us) []))"
    if "list_all (\<lambda>t. \<not> dt_done t \<and> (\<exists>p i n. dt_read t = Packet p i n)) us" for us
    using scan_loop_timeout [OF that, of b c "[]" 1] by (auto simp: scan_def assms(2) split: prod.splits sum.splits)
  have keys: "\<forall>e \<in> set ds. dd_source_ip (snd e) = fst e"
    using add_devices_keys [of "[]" "replies ts"] by (simp add: ds_def)
  then have "map dd_source_ip (map snd ds) = map fst ds" by simp
  moreover have "distinct (map fst ds)" unfolding ds_def by (rule distinct_add_devices) simp
  ultimately have d: "distinct (map dd_source_ip (map snd ds))" by (simp only:)
  have a: "\<exists>e. map_of ds (dd_source_ip q) = Some e \<and> merge_device e q = e" if "q \<in> set (replies ts)" for q
    using add_devices_absorb [of "[]" q "replies ts"] that by (simp add: ds_def)
  have l: "list_all (\<lambda>r. list_ex (\<lambda>d. dd_source_ip d = dd_source_ip r \<and> merge_device d r = d) (map snd ds)) (replies ts)"
    unfolding list_all_iff list_ex_iff
  proof
    fix q assume "q \<in> set (replies ts)"
    then obtain e where e: "map_of ds (dd_source_ip q) = Some e" "merge_device e q = e" using a by blast
    have m: "(dd_source_ip q, e) \<in> set ds" by (rule map_of_SomeD [OF e(1)])
    then have "e \<in> set (map snd ds)" by force
    moreover have "dd_source_ip e = dd_source_ip q" using bspec [OF keys m] by simp
    ultimately show "\<exists>d \<in> set (map snd ds). dd_source_ip d = dd_source_ip q \<and> merge_device d q = d" using e(2) by blast
  qed
  have t: "list_all (\<lambda>t. \<not> dt_done t \<and> (\<exists>p i n. dt_read t = Packet p i n)) (ts @ [t])"
    using assms(1,3) by (auto simp: list_all_iff)
  have sub: "set (replies [t]) \<subseteq> set (replies ts)"
  proof -
    obtain us vs where "ts = us @ [t] @ vs" using split_list [OF assms(3)] by auto
    then show ?thesis
      using assms(1) replies_append [of us "[t] @ vs"] replies_append [of "[t]" vs] by auto
  qed
  have same: "add_devices (replies [t]) ds = ds"
  proof (cases "replies [t]")
    case (Cons q qs)
    then have "qs = []" by (auto split: disc_read.splits option.splits if_splits)
    moreover obtain e where "map_of ds (dd_source_ip q) = Some e" "merge_device e q = e"
      using a [of q] subsetD [OF sub, of q] unfolding Cons by auto
    ultimately show ?thesis unfolding Cons by (simp add: add_device_def update_same)
  qed simp
  have "add_devices (replies (ts @ [t])) [] = ds"
    using replies_append [OF assms(1), of "[t]"] same by (simp add: ds_def)
  then show ?thesis using r [OF assms(1)] r [OF t] d l by (intro exI [of _ "map snd ds"]) (simp add: ds_def)
qed

theorem scan_merges_replies_witness:
  "\<exists>ds. fst (scan None ([\<lparr>dt_tick = False, dt_read = Packet [1, 0, 0, 0] ''10.0.0.2'' 10001, dt_done = False\<rparr>] @
      [\<lparr>dt_tick = False, dt_read = ReadTimeout, dt_done = False\<rparr>])) = Inr ds \<and> distinct (map dd_source_ip ds)"
proof -
  let ?t = "\<lparr>dt_tick = False, dt_read = Packet [1, 0, 0, 0] ''10.0.0.2'' 10001, dt_done = False\<rparr>"
  have "list_all (\<lambda>t. \<not> dt_done t \<and> (\<exists>p i n. dt_read t = Packet p i n)) [?t]" by simp
  from scan_merges_replies [OF this refl, of ?t False False] show ?thesis by auto
qed

text \<open>
  The requests are lost with nobody noticing: the retry ticker is looked at only before a read, and
  on a silent network the first read lasts until the deadline, so that they are sent once.
\<close>

theorem silent_scan_sends_once:
  "scan None (\<lparr>dt_tick = False, dt_read = ReadTimeout, dt_done = c\<rparr> # ts) = (Inr [], 1)"
  by (simp add: scan_def)

text \<open>
  The comment of \<open>parseResponse\<close> says that our own echoed request is not a recognised response. From
  any port but the discovery port it is one, and lists the sender, which is this host.
\<close>

theorem own_echo_is_listed:
  "port \<noteq> disc_port \<Longrightarrow> parse_response req_v1 ip port = Some (blank_device ip)"
  by (simp add: parse_response_def req_v1_def)

theorem own_echo_is_listed_witness: "parse_response req_v1 ''10.0.0.9'' 40000 = Some (blank_device ''10.0.0.9'')"
  by (rule own_echo_is_listed) (simp add: disc_port_def)

end
