(* ===== verification/SetupServer.thy ===== *)
theory SetupServer
  imports Setup Discovery
begin

text \<open>
  The setup server as a whole, \<open>internal/setup/server.go\<close>: its construction, the swappable providers
  of live state, every handler behind the gate and the routes of \<open>Setup\<close>, and the wiring to the
  running bridge by \<open>cmd/bridge/main.go\<close> (\<open>bridge.Status\<close>, \<open>bridge.CameraApplier\<close>,
  \<open>bridge.WSLogApplier\<close>). A request is a function on the live state and on what the Supervisor has
  been sent.
\<close>

section \<open>The server\<close>

text \<open>
  The providers are interfaces over the live state \<open>'w\<close>; each sits in an \<open>atomic.Value\<close>, empty until
  it is set.
\<close>

record 'w setup_server =
  su_supervisor_url :: string
  su_token :: string
  su_http_timeout :: duration
  su_scan_timeout :: duration
  su_status :: "('w \<Rightarrow> status_snapshot) option"
  su_applier :: "(string list \<Rightarrow> 'w \<Rightarrow> 'w) option"
  su_ws_applier :: "(string \<Rightarrow> 'w \<Rightarrow> 'w) option"

text \<open>\<open>New\<close> from the value of \<open>SUPERVISOR_TOKEN\<close>: nil when it is empty. The setters accept nil.\<close>

definition new_setup :: "string \<Rightarrow> 'w setup_server option" where
  "new_setup token =
     (if token = [] then None
      else Some \<lparr>su_supervisor_url = ''http://supervisor'', su_token = token, su_http_timeout = 15 * second,
                 su_scan_timeout = 5 * second, su_status = None, su_applier = None, su_ws_applier = None\<rparr>)"

definition set_status :: "('w \<Rightarrow> status_snapshot) option \<Rightarrow> 'w setup_server option \<Rightarrow> 'w setup_server option" where
  "set_status p s = map_option (\<lambda>s. s\<lparr>su_status := p\<rparr>) s"

definition set_camera_applier ::
  "(string list \<Rightarrow> 'w \<Rightarrow> 'w) option \<Rightarrow> 'w setup_server option \<Rightarrow> 'w setup_server option" where
  "set_camera_applier a s = map_option (\<lambda>s. s\<lparr>su_applier := a\<rparr>) s"

definition set_ws_log_applier ::
  "(string \<Rightarrow> 'w \<Rightarrow> 'w) option \<Rightarrow> 'w setup_server option \<Rightarrow> 'w setup_server option" where
  "set_ws_log_applier a s = map_option (\<lambda>s. s\<lparr>su_ws_applier := a\<rparr>) s"

section \<open>Documents\<close>

definition opt_num :: "string \<Rightarrow> int \<Rightarrow> jobject" where
  "opt_num k n = (if n = 0 then [] else [(k, JNum n)])"

definition device_json :: "disc_device \<Rightarrow> jobject" where
  "device_json d =
     [(''source_ip'', JStr (dd_source_ip d))] @ opt_str ''hw_addr'' (dd_hw_addr d) @ opt_str ''hostname'' (dd_hostname d) @
     opt_str ''platform'' (dd_platform d) @ opt_str ''model'' (dd_model d) @ opt_str ''product_name'' (dd_product_name d) @
     opt_str ''version'' (dd_version d) @ opt_str ''fw_version'' (dd_fw_version d) @ opt_num ''uptime'' (uint (dd_uptime d))"

definition camera_info_json :: "camera_info \<Rightarrow> jobject" where
  "camera_info_json c =
     [(''id'', JStr (ci_id c)), (''name'', JStr (ci_name c))] @ opt_str ''model'' (ci_model c) @
     [(''online'', JBool (ci_online c)), (''doorbell'', JBool (ci_doorbell c)), (''exposed'', JBool (ci_exposed c))]"

text \<open>The cameras of the zero snapshot are a nil slice, which encodes as null.\<close>

definition status_json :: "status_snapshot \<Rightarrow> jobject" where
  "status_json s =
     opt_str ''version'' (ss_version s) @
     [(''setup_mode'', JBool (ss_setup_mode s)),
      (''unifi'', JObj (opt_str ''host'' (ss_host s) @ [(''connected'', JBool (ss_connected s))] @
         opt_str ''nvr_mac'' (ss_nvr_mac s) @ opt_str ''nvr_version'' (ss_nvr_version s))),
      (''cameras'', if ss_setup_mode s then JNull else JList (map (\<lambda>c. JObj (camera_info_json c)) (ss_cameras s))),
      (''google'', JObj ([(''homegraph_enabled'', JBool (ss_homegraph_enabled s)),
         (''homegraph_configured'', JBool (ss_homegraph_configured s))] @ opt_str ''project_id'' (ss_project_id s) @
         opt_str ''service_account_email'' (ss_account_email s) @
         [(''project_id_mismatch'', JBool (ss_project_mismatch s)), (''oauth_configured'', JBool (ss_oauth_configured s))])),
      (''bridge'', JObj (opt_str ''public_base_url'' (ss_public_base_url s) @
         [(''public_url_set'', JBool (ss_public_url_set s))] @ opt_str ''agent_user_id'' (ss_agent_user_id s) @
         opt_str ''listen_addr'' (ss_listen_addr s) @ [(''sync_state_known'', JBool (ss_fingerprint s \<noteq> None))] @
         opt_str ''sync_fingerprint'' (case ss_fingerprint s of Some f \<Rightarrow> f | None \<Rightarrow> []) @
         opt_str ''ws_event_log'' (ss_ws_event_log s)))]"

section \<open>Handlers\<close>

text \<open>The embedded page is \<open>html\<close>; the scan is the listen error, or the turns of \<open>Discovery\<close>.\<close>

definition index_handler :: "string \<Rightarrow> string \<Rightarrow> http_response" where
  "index_handler html p =
     (if p \<noteq> ''/'' then http_error ''404 page not found'' 404 else \<lparr>status = 200, content = TextBody html\<rparr>)"

definition discover_handler :: "string option \<Rightarrow> disc_turn list \<Rightarrow> http_response" where
  "discover_handler listen turns =
     (case fst (scan listen turns) of
        Inl e \<Rightarrow> json_response 500 [(''error'', JStr e)]
      | Inr ds \<Rightarrow> json_response 200 [(''devices'', JList (map (\<lambda>d. JObj (device_json d)) ds))])"

text \<open>What \<open>json.NewDecoder\<close> makes of the body for each of the request types.\<close>

record setup_bodies =
  sb_validate :: "string + validate_request"
  sb_save :: "string + validate_request \<times> bool"
  sb_cameras :: "string + string list"
  sb_log :: "string + string"

text \<open>The surroundings of a request: address parser, controllers, Supervisor, decoder, page, network.\<close>

record setup_env =
  se_v6 :: "string \<Rightarrow> (int list \<times> string) option"
  se_ctl :: "validate_request \<Rightarrow> bootstrap_json option controller"
  se_supervisor :: supervisor
  se_decoder :: json_decoder
  se_html :: string
  se_scan :: "string option \<times> disc_turn list"

definition setup_serve ::
  "setup_env \<Rightarrow> 'w setup_server \<Rightarrow> http_request \<Rightarrow> setup_bodies \<Rightarrow> 'w \<times> sup_req list \<Rightarrow> http_response \<times> 'w \<times> sup_req list" where
  "setup_serve en s r b w =
     (case w of (live, h) \<Rightarrow>
      let m = req_method r; sv = se_supervisor en; dec = se_decoder en in
      case ingress_only (se_v6 en) (remote_addr r) (path r) of
        Inl resp \<Rightarrow> (resp, live, h)
      | Inr route \<Rightarrow>
          (case route of
             NotFoundRoute \<Rightarrow> (index_handler (se_html en) (path r), live, h)
           | IndexRoute \<Rightarrow> (index_handler (se_html en) (path r), live, h)
           | StatusRoute \<Rightarrow>
               (case status_handler sv dec (su_token s) (map_option (\<lambda>p. p live) (su_status s)) h of
                  (snap, h1) \<Rightarrow> (json_response 200 (status_json snap), live, h1))
           | DiscoverRoute \<Rightarrow> (discover_handler (fst (se_scan en)) (snd (se_scan en)), live, h)
           | ValidateRoute \<Rightarrow> (fst (validate_handler (se_ctl en) m (sb_validate b)), live, h)
           | SaveRoute \<Rightarrow>
               (case save_handler (se_ctl en) sv dec m (sb_save b) h of (resp, h1) \<Rightarrow> (resp, live, h1))
           | CamerasRoute \<Rightarrow>
               (case cameras_handler sv dec (su_applier s \<noteq> None) m (sb_cameras b) h of
                  (resp, h1, told) \<Rightarrow> (resp, case told of Some ids \<Rightarrow> the (su_applier s) ids live | None \<Rightarrow> live, h1))
           | LogSettingsRoute \<Rightarrow>
               (case log_settings_handler sv dec (su_ws_applier s \<noteq> None) m (sb_log b) h of
                  (resp, h1, told) \<Rightarrow>
                    (resp, case told of Some lvl \<Rightarrow> the (su_ws_applier s) lvl live | None \<Rightarrow> live, h1))))"

section \<open>The wiring\<close>

text \<open>
  \<open>run\<close> registers the three providers over the running bridge and the reconciler's log level;
  \<open>sync_ok\<close> says whether Home Graph accepts the SYNC request of the applier.
\<close>

type_synonym live = "bridge_sys \<times> ws_level"

definition wire_setup ::
  "reconciler_config \<Rightarrow> config \<Rightarrow> unifi_session \<Rightarrow> 'k home_graph option \<Rightarrow> string option \<Rightarrow> bool
   \<Rightarrow> live setup_server option \<Rightarrow> live setup_server option" where
  "wire_setup rc cfg uc hg fp sync_ok s =
     set_ws_log_applier (Some (\<lambda>lvl (y, l). (y, apply_ws_event_log lvl)))
       (set_camera_applier (Some (\<lambda>ids (y, l). (snd (sys_step rc (Apply sync_ok ids) y), l)))
         (set_status (Some (\<lambda>(y, l). bridge_status cfg uc (br_src (sys_bridge y)) hg l fp)) s))"

section \<open>Lemmas\<close>

lemma cameras_handler_told:
  "cameras_handler sv dec live m body h = (resp, h', Some ids) \<Longrightarrow>
   m = ''POST'' \<and> live \<and> status resp = 200 \<and> (\<exists>given. body = Inr given \<and> ids = normalise [] [] given) \<and>
   write_exposed_cameras ids sv dec h = (None, h')"
  by (auto simp: cameras_handler_def Let_def split: if_splits sum.splits option.splits prod.splits)

lemma log_settings_handler_told:
  "log_settings_handler sv dec live m body h = (resp, h', Some lvl) \<Longrightarrow>
   m = ''POST'' \<and> live \<and> status resp = 200 \<and> (\<exists>given. body = Inr given \<and> lvl = normalize_ws_event_log given) \<and>
   write_ws_event_log lvl sv dec h = (None, h')"
  by (auto simp: log_settings_handler_def Let_def split: if_splits sum.splits option.splits prod.splits)

lemma setup_serve_cases:
  assumes "setup_serve en s r b (live, h) = (resp, live', h')"
  shows "live' = live \<or>
    (\<exists>ids. ingress_only (se_v6 en) (remote_addr r) (path r) = Inr CamerasRoute \<and>
       cameras_handler (se_supervisor en) (se_decoder en) (su_applier s \<noteq> None) (req_method r) (sb_cameras b) h = (resp, h', Some ids) \<and>
       live' = the (su_applier s) ids live) \<or>
    (\<exists>lvl. ingress_only (se_v6 en) (remote_addr r) (path r) = Inr LogSettingsRoute \<and>
       log_settings_handler (se_supervisor en) (se_decoder en) (su_ws_applier s \<noteq> None) (req_method r) (sb_log b) h = (resp, h', Some lvl) \<and>
       live' = the (su_ws_applier s) lvl live)"
  using assms
  by (cases "ingress_only (se_v6 en) (remote_addr r) (path r)")
    (auto simp: setup_serve_def Let_def split: setup_route.splits prod.splits option.splits)

lemma ingress_only_Inr: "ingress_only v6 a p = Inr rt \<longleftrightarrow> from_ingress v6 a \<and> rt = setup_route_of p"
  by (auto simp: ingress_only_def)

text \<open>What an accepted POST has stored.\<close>

lemma cameras_stored:
  assumes "cameras_handler sv dec live m body h = (resp, h', Some ids)"
  shows "m = ''POST'' \<and> status resp = 200 \<and>
    (\<exists>opts. last h' = post_options opts \<and> get_list (sub_obj opts ''bridge'') ''exposed_cameras'' = Some (map JStr ids))"
proof -
  note t = cameras_handler_told [OF assms]
  then obtain opts where "h' = h @ [get_info, post_options (edit_bridge ''exposed_cameras'' (JList (map JStr ids)) opts)]"
    using save_options_cases [of "edit_bridge ''exposed_cameras'' (JList (map JStr ids))"] by (fastforce simp: write_exposed_cameras_def)
  then have "last h' = post_options (edit_bridge ''exposed_cameras'' (JList (map JStr ids)) opts)" by simp
  moreover have "get_list (sub_obj (edit_bridge ''exposed_cameras'' (JList (map JStr ids)) opts) ''bridge'') ''exposed_cameras'' =
      Some (map JStr ids)" by (simp add: get_list_def edit_bridge_inner)
  ultimately show ?thesis using t by blast
qed

lemma log_level_stored:
  assumes "log_settings_handler sv dec live m body h = (resp, h', Some l)"
  shows "m = ''POST'' \<and> status resp = 200 \<and>
    (\<exists>opts. last h' = post_options opts \<and> get_str (sub_obj opts ''bridge'') ''ws_event_log'' = Some l)"
proof -
  note t = log_settings_handler_told [OF assms]
  then obtain opts where "h' = h @ [get_info, post_options (edit_bridge ''ws_event_log'' (JStr l) opts)]"
    using save_options_cases [of "edit_bridge ''ws_event_log'' (JStr l)"] by (fastforce simp: write_ws_event_log_def)
  then have "last h' = post_options (edit_bridge ''ws_event_log'' (JStr l) opts)" by simp
  moreover have "get_str (sub_obj (edit_bridge ''ws_event_log'' (JStr l) opts) ''bridge'') ''ws_event_log'' = Some l"
    by (simp add: get_str_def edit_bridge_inner)
  ultimately show ?thesis using t by blast
qed

lemma applied_allows: "allowed_in (snd (sys_step rc (Apply ok ids) y)) = is_allowed (new_camera_source ids)"
proof -
  obtain acts z where z: "apply_exposed_cameras rc ok ids (sys_bridge y) = (acts, z)" by fastforce
  from apply_exposed_frame [OF z] show ?thesis
    by (simp add: z allowed_in_def fun_eq_iff new_camera_source_def is_allowed_def set_allowed_def)
qed

section \<open>Properties\<close>

text \<open>
  C21: the setup page and the running bridge, for every request: from anywhere but the ingress proxy or
  the host itself it is refused and changes nothing; and the live bridge is changed only together
  with the stored options. When a request changes it, the request was an accepted POST of cameras or
  of log settings, and the Supervisor has just taken options that say the same, so that a restart
  would come up with the very list and level that now apply.
\<close>

theorem live_follows_stored_options:
  assumes "setup_serve en s r b ((y, lvl), h) = (resp, (y', lvl'), h')" and "Some s = wire_setup rc cfg uc hg fp ok (new_setup token)"
  shows "(\<not> from_ingress (se_v6 en) (remote_addr r) \<longrightarrow> resp = http_error ''forbidden'' 403 \<and> (y', lvl') = (y, lvl) \<and> h' = h) \<and>
    ((y', lvl') \<noteq> (y, lvl) \<longrightarrow> req_method r = ''POST'' \<and> status resp = 200 \<and>
       (\<exists>opts. last h' = post_options opts \<and>
          ((\<exists>ids. get_list (sub_obj opts ''bridge'') ''exposed_cameras'' = Some (map JStr ids) \<and> lvl' = lvl \<and>
              allowed_in y' = is_allowed (new_camera_source ids)) \<or>
           (\<exists>l. get_str (sub_obj opts ''bridge'') ''ws_event_log'' = Some l \<and> y' = y \<and> lvl' = ws_level_from_string l))))"
proof -
  have s: "su_applier s = Some (\<lambda>ids (y, l). (snd (sys_step rc (Apply ok ids) y), l))"
    "su_ws_applier s = Some (\<lambda>lvl (y, l). (y, apply_ws_event_log lvl))"
    using assms(2) by (auto simp: wire_setup_def set_status_def set_camera_applier_def set_ws_log_applier_def new_setup_def split: if_splits)
  have "resp = http_error ''forbidden'' 403 \<and> (y', lvl') = (y, lvl) \<and> h' = h" if "\<not> from_ingress (se_v6 en) (remote_addr r)"
    using assms(1) that by (auto simp: setup_serve_def ingress_only_def)
  moreover have "req_method r = ''POST'' \<and> status resp = 200 \<and>
       (\<exists>opts. last h' = post_options opts \<and>
          ((\<exists>ids. get_list (sub_obj opts ''bridge'') ''exposed_cameras'' = Some (map JStr ids) \<and> lvl' = lvl \<and>
              allowed_in y' = is_allowed (new_camera_source ids)) \<or>
           (\<exists>l. get_str (sub_obj opts ''bridge'') ''ws_event_log'' = Some l \<and> y' = y \<and> lvl' = ws_level_from_string l)))"
    if ch: "(y', lvl') \<noteq> (y, lvl)"
  proof -
    consider ids where "cameras_handler (se_supervisor en) (se_decoder en) True (req_method r) (sb_cameras b) h = (resp, h', Some ids)"
        "(y', lvl') = (snd (sys_step rc (Apply ok ids) y), lvl)"
      | l where "log_settings_handler (se_supervisor en) (se_decoder en) True (req_method r) (sb_log b) h = (resp, h', Some l)"
        "(y', lvl') = (y, apply_ws_event_log l)"
      using setup_serve_cases [OF assms(1)] ch by (auto simp: s)
    then show ?thesis
    proof cases
      case 1
      from cameras_stored [OF 1(1)] 1(2) applied_allows show ?thesis by blast
    next
      case 2
      from log_level_stored [OF 2(1)] 2(2) show ?thesis by (auto simp: apply_ws_event_log_def)
    qed
  qed
  ultimately show ?thesis by blast
qed

section \<open>Witness\<close>

definition ex_setup_env :: setup_env where
  "ex_setup_env =
     \<lparr>se_v6 = (\<lambda>_. None), se_ctl = ex_good_controller, se_supervisor = ex_supervisor, se_decoder = ex_decode,
      se_html = ''<html>'', se_scan = (None, [])\<rparr>"

definition ex_setup_server :: "live setup_server" where
  "ex_setup_server = the (wire_setup ex_rc ex_config new_session (None :: unit home_graph option) None True (new_setup ''tok''))"

definition ex_cameras_post :: http_request where
  "ex_cameras_post =
     \<lparr>req_method = ''POST'', path = ''/api/cameras'', raw_query = [], header = (\<lambda>_. []), remote_addr = ''172.30.32.2:4000'',
      basic_auth = None, form = None, body_json = None\<rparr>"

definition ex_setup_bodies :: setup_bodies where
  "ex_setup_bodies = \<lparr>sb_validate = Inl [], sb_save = Inl [], sb_cameras = Inr [''a'', ''a''], sb_log = Inl []\<rparr>"

theorem live_follows_stored_options_witness:
  "\<exists>y' h' opts. setup_serve ex_setup_env ex_setup_server ex_cameras_post ex_setup_bodies ((new_sys [], WsAll), []) =
       (json_response 200 (ok_json True []), (y', WsAll), h') \<and>
     last h' = post_options opts \<and> \<not> allowed_in y' ''z''"
proof -
  define y' where "y' = snd (sys_step ex_rc (Apply True [''a'']) (new_sys []))"
  have srv: "Some ex_setup_server = wire_setup ex_rc ex_config new_session (None :: unit home_graph option) None True (new_setup ''tok'')"
    by (simp add: ex_setup_server_def wire_setup_def set_status_def set_camera_applier_def set_ws_log_applier_def new_setup_def)
  have g: "ingress_only (\<lambda>_. None) ''172.30.32.2:4000'' ''/api/cameras'' = Inr CamerasRoute" by code_simp
  obtain h' where "write_exposed_cameras [''a''] ex_supervisor ex_decode [] = (None, h')"
    using ex_save by (metis write_exposed_cameras_def)
  then have "cameras_handler ex_supervisor ex_decode True ''POST'' (Inr [''a'', ''a'']) [] =
      (json_response 200 (ok_json True []), h', Some [''a''])"
    by (simp add: cameras_handler_def)
  then have r: "setup_serve ex_setup_env ex_setup_server ex_cameras_post ex_setup_bodies ((new_sys [], WsAll), []) =
      (json_response 200 (ok_json True []), (y', WsAll), h')"
    by (simp add: y'_def setup_serve_def ex_setup_env_def ex_cameras_post_def ex_setup_bodies_def g ex_setup_server_def
        wire_setup_def set_status_def set_camera_applier_def set_ws_log_applier_def new_setup_def del: sys_step.simps)
  have z: "\<not> allowed_in y' ''z''"
    by (simp add: y'_def allowed_in_def apply_exposed_cameras_def Let_def is_allowed_def set_allowed_def)
  have "allowed_in (new_sys []) ''z''"
    by (simp add: allowed_in_def new_sys_def new_bridge_def new_camera_source_def is_allowed_def set_allowed_def)
  with z have "y' \<noteq> new_sys []" by (intro notI) simp
  then have "(y', WsAll) \<noteq> (new_sys [], WsAll)" by simp
  from mp [OF live_follows_stored_options [OF r srv, THEN conjunct2] this]
  obtain opts where "last h' = post_options opts" by (elim conjE exE) (rule that)
  with r z show ?thesis by (intro exI conjI)
qed

end
