(* ===== verification/Wiring.thy ===== *)
theory Wiring
  imports Startup SetupServer
begin

text \<open>
  The setup page while the bridge is starting, \<open>run\<close> of \<open>cmd/bridge/main.go\<close> again: the page listens
  before the options are read, and \<open>run\<close> hands it the appliers, the camera source its callback and the
  public listener its servers one after the other, while requests to the page, the poll loop and in
  the end viewers are served. The theorems say what the order of these steps guarantees, and what it
  leaves open.
\<close>

section \<open>The stages of the start\<close>

text \<open>
  The page listens; the options have been read and the source built from them; the page has its
  appliers and the poll loop runs; the source has its callback over both stream servers; the public
  listener is up.
\<close>

datatype stage = Listening | Loaded | PageWired | CallbackSet | Serving

instantiation stage :: linorder
begin

fun stage_no :: "stage \<Rightarrow> nat" where
  "stage_no Listening = 0"
| "stage_no Loaded = 1"
| "stage_no PageWired = 2"
| "stage_no CallbackSet = 3"
| "stage_no Serving = 4"

definition less_eq_stage :: "stage \<Rightarrow> stage \<Rightarrow> bool" where "a \<le> b \<longleftrightarrow> stage_no a \<le> stage_no b"
definition less_stage :: "stage \<Rightarrow> stage \<Rightarrow> bool" where "a < b \<longleftrightarrow> stage_no a < stage_no b"

instance
proof
  fix a b :: stage
  show "a \<le> b \<Longrightarrow> b \<le> a \<Longrightarrow> a = b" by (cases a; cases b) (simp_all add: less_eq_stage_def)
qed (auto simp: less_eq_stage_def less_stage_def)

end

lemmas stage_order = less_eq_stage_def less_stage_def

fun next_stage :: "stage \<Rightarrow> stage" where
  "next_stage Listening = Loaded"
| "next_stage Loaded = PageWired"
| "next_stage PageWired = CallbackSet"
| "next_stage _ = Serving"

text \<open>
  The exposure list of the options; the live bridge (from \<open>Loaded\<close> on); the requests to \<open>/api/cameras\<close>
  that have stored their list and not yet looked for the applier, and the saves of credentials that have read
  the options and not yet written them back (with the list they read); how many changes of the streams have not yet called
  \<open>notifyStreamsChanged\<close>, and how many callbacks are about to prune the HLS and the MP4 server. Two ghosts: the
  last list was stored after the options were read and has not been applied; and requests that change the options
  have overlapped since it was stored.
\<close>

record boot =
  bt_stage :: stage
  bt_stored :: "string list"
  bt_sys :: bridge_sys
  bt_posts :: "string list list"
  bt_saves :: "string list list"
  bt_notify :: nat
  bt_hls :: nat
  bt_mp4 :: nat
  bt_missed :: bool
  bt_mixed :: bool

definition boot0 :: "string list \<Rightarrow> boot" where
  "boot0 ids =
     \<lparr>bt_stage = Listening, bt_stored = ids, bt_sys = new_sys [], bt_posts = [], bt_saves = [], bt_notify = 0, bt_hls = 0,
      bt_mp4 = 0, bt_missed = False, bt_mixed = False\<rparr>"

text \<open>
  \<open>run\<close> goes on; \<open>camerasHandler\<close> has stored a list, then takes the applier if there is one (with Home Graph's answer to
  its SYNC request); a save of credentials reads the options, then writes them; something happens at
  the bridge: refreshes from the first one on, events once the poll loop runs, requests when the listener is up; and the three
  steps of \<open>notifyStreamsChanged\<close>: the look at the callback, the HLS server's \<open>Prune\<close> and the MP4 server's.
\<close>

datatype boot_event =
    Advance
  | Stored "string list"
  | Applied nat bool
  | SaveReads
  | SaveWrites nat
  | AtBridge sys_event
  | Notify
  | CallbackHls
  | CallbackMp4

fun happens_at :: "stage \<Rightarrow> sys_event \<Rightarrow> bool" where
  "happens_at st (Refreshed _ _ _) \<longleftrightarrow> Loaded \<le> st"
| "happens_at st (Event _) \<longleftrightarrow> PageWired \<le> st"
| "happens_at st (HlsRequest _) \<longleftrightarrow> Serving \<le> st"
| "happens_at st (Mp4Request _) \<longleftrightarrow> Serving \<le> st"
| "happens_at st _ \<longleftrightarrow> False"

text \<open>Something happens at the bridge; if it changes the streams, a notification is due.\<close>

definition at_bridge :: "reconciler_config \<Rightarrow> sys_event \<Rightarrow> boot \<Rightarrow> boot" where
  "at_bridge rc e b =
     (case sys_step rc e (bt_sys b) of (acts, y) \<Rightarrow>
        b\<lparr>bt_sys := y, bt_notify := bt_notify b + (if StreamsChanged \<in> set acts then 1 else 0)\<rparr>)"

definition without :: "nat \<Rightarrow> 'a list \<Rightarrow> 'a list" where
  "without k xs = take k xs @ drop (Suc k) xs"

text \<open>The two halves of \<open>camerasHandler\<close>: \<open>writeExposedCameras\<close> has succeeded; \<open>loadApplier\<close> and what it returns.\<close>

definition list_stored :: "string list \<Rightarrow> boot \<Rightarrow> boot" where
  [simp]: "list_stored ids b =
     b\<lparr>bt_stored := ids, bt_posts := bt_posts b @ [ids], bt_missed := (bt_stage b \<noteq> Listening), bt_mixed := (bt_posts b \<noteq> [])\<rparr>"

definition list_applied :: "reconciler_config \<Rightarrow> nat \<Rightarrow> bool \<Rightarrow> boot \<Rightarrow> boot" where
  [simp]: "list_applied rc k ok b =
     (if k < length (bt_posts b)
      then let b1 = b\<lparr>bt_posts := without k (bt_posts b)\<rparr>
           in if PageWired \<le> bt_stage b then (at_bridge rc (Apply ok (bt_posts b ! k)) b1)\<lparr>bt_missed := False\<rparr> else b1
      else b)"

text \<open>\<open>notifyStreamsChanged\<close> looks at the callback; and the callback's two calls.\<close>

definition notify_streams :: "boot \<Rightarrow> boot" where
  [simp]: "notify_streams b =
     (if bt_notify b > 0
      then b\<lparr>bt_notify := bt_notify b - 1, bt_hls := bt_hls b + (if CallbackSet \<le> bt_stage b then 1 else 0)\<rparr> else b)"

definition callback_hls :: "reconciler_config \<Rightarrow> boot \<Rightarrow> boot" where
  [simp]: "callback_hls rc b =
     (if bt_hls b > 0
      then b\<lparr>bt_sys := snd (sys_step rc PruneHls (bt_sys b)), bt_hls := bt_hls b - 1, bt_mp4 := bt_mp4 b + 1\<rparr> else b)"

definition callback_mp4 :: "reconciler_config \<Rightarrow> boot \<Rightarrow> boot" where
  [simp]: "callback_mp4 rc b =
     (if bt_mp4 b > 0 then b\<lparr>bt_sys := snd (sys_step rc PruneMp4 (bt_sys b)), bt_mp4 := bt_mp4 b - 1\<rparr> else b)"

fun boot_step :: "reconciler_config \<Rightarrow> boot_event \<Rightarrow> boot \<Rightarrow> boot" where
  "boot_step rc Advance b =
     (if bt_stage b = Listening
      then b\<lparr>bt_stage := Loaded, bt_sys := new_sys (bt_stored b), bt_missed := False\<rparr>
      else b\<lparr>bt_stage := next_stage (bt_stage b)\<rparr>)"
| "boot_step rc (Stored ids) b = list_stored ids b"
| "boot_step rc (Applied k ok) b = list_applied rc k ok b"
| "boot_step rc SaveReads b = b\<lparr>bt_saves := bt_saves b @ [bt_stored b]\<rparr>"
| "boot_step rc (SaveWrites k) b =
     (if k < length (bt_saves b)
      then b\<lparr>bt_stored := bt_saves b ! k, bt_saves := without k (bt_saves b),
             bt_mixed := (bt_mixed b \<or> bt_saves b ! k \<noteq> bt_stored b)\<rparr>
      else b)"
| "boot_step rc (AtBridge e) b = (if happens_at (bt_stage b) e then at_bridge rc e b else b)"
| "boot_step rc Notify b = notify_streams b"
| "boot_step rc CallbackHls b = callback_hls rc b"
| "boot_step rc CallbackMp4 b = callback_mp4 rc b"

definition boot_run :: "reconciler_config \<Rightarrow> boot_event list \<Rightarrow> boot \<Rightarrow> boot" where
  "boot_run rc es b = fold (boot_step rc) es b"

section \<open>The invariant\<close>

definition lookup_in :: "bridge_sys \<Rightarrow> string \<Rightarrow> (string \<times> bool) option" where
  "lookup_in y = rtsp_url_of (br_src (sys_bridge y))"

text \<open>
  Before the callback is there, there is no muxer it could have to close; from then on, when no
  notification is under way, every muxer in the tables is of an exposed camera with its present URL.
\<close>

definition tables_ok :: "boot \<Rightarrow> bool" where
  "tables_ok b \<longleftrightarrow>
     (let l = lookup_in (bt_sys b); h = sys_hls (bt_sys b); m = sys_mp4 (bt_sys b) in
      (bt_notify b = 0 \<and> bt_hls b = 0 \<longrightarrow> agrees l h) \<and>
      (bt_notify b = 0 \<and> bt_hls b = 0 \<and> bt_mp4 b = 0 \<longrightarrow> agrees l m) \<and>
      (bt_stage b < CallbackSet \<longrightarrow> ms_muxers h = [] \<and> ms_muxers m = []))"

definition exposure_ok :: "boot \<Rightarrow> bool" where
  "exposure_ok b \<longleftrightarrow>
     (\<not> bt_mixed b \<longrightarrow> set (bt_posts b) \<subseteq> {bt_stored b}) \<and>
     (Loaded \<le> bt_stage b \<and> \<not> bt_missed b \<and> \<not> bt_mixed b \<longrightarrow>
        allowed_in (bt_sys b) = is_allowed (new_camera_source (bt_stored b)))"

definition boot_ok :: "reconciler_config \<Rightarrow> boot \<Rightarrow> bool" where
  "boot_ok rc b \<longleftrightarrow> sys_ok rc (bt_sys b) \<and> tables_ok b \<and> exposure_ok b"

lemma agrees_empty: "ms_muxers m = [] \<Longrightarrow> agrees l m"
  by (simp add: agrees_def)

lemma agrees_served:
  assumes "mux_ok s" and "agrees l s" and "served l s x s'"
  shows "agrees l s'"
  using assms(3) unfolding served_def
proof
  assume "\<exists>cam m. muxer_for l cam s = (m, s') \<and> \<not> ms_closing s \<and> (\<forall>y. x = Inr y \<longrightarrow> m = Some (fst y))"
  then obtain cam m where f: "muxer_for l cam s = (m, s')" by blast
  have ok: "mux_ok s'" by (rule mux_ok_muxer_for [OF assms(1) f])
  show ?thesis
    unfolding agrees_def
  proof clarify
    fix c y assume "(c, y) \<in> set (ms_muxers s')"
    then have y: "map_of (ms_muxers s') c = Some y" using ok by (simp add: mux_ok_def)
    show "l c = Some (mx_url y, mx_verify y)"
    proof (cases "c = cam")
      case True
      then show ?thesis using muxer_for_result [OF f] y by (cases m) auto
    next
      case False
      then have "map_of (ms_muxers s) c = Some y" using muxer_for_result [OF f] y by simp
      then show ?thesis using assms(2) by (auto simp: agrees_def dest!: map_of_SomeD)
    qed
  qed
qed (use assms(2) in auto)

lemma rtsp_url_of_cong: "cs_allowed a = cs_allowed b \<Longrightarrow> cs_rtsp_urls a = cs_rtsp_urls b \<Longrightarrow> rtsp_url_of a = rtsp_url_of b"
  by (intro ext) (simp add: rtsp_url_of_def split: option.split)

text \<open>Whatever changes the lookup announces it.\<close>

lemma lookup_announced:
  assumes "sys_ok rc y" and "sys_step rc e y = (acts, y')" and "StreamsChanged \<notin> set acts"
  shows "lookup_in y' = lookup_in y"
proof (cases e)
  case (Apply ok ids)
  then show ?thesis using assms(2,3) by (auto simp: apply_exposed_cameras_def Let_def split: if_splits)
next
  case (Refreshed gen cams upd)
  obtain s where s: "refresh_apply rc gen cams upd (sys_bridge y) = (acts, s)" "y' = y\<lparr>sys_bridge := s\<rparr>"
    using assms(2) Refreshed by (auto split: prod.splits)
  have "reg_ok rc (sys_bridge y)" using assms(1) by (simp add: sys_ok_def)
  note sp = refresh_apply_spec(4,10) [OF this s(1)]
  have "cs_rtsp_urls (br_src s) = cs_rtsp_urls (br_src (sys_bridge y))" using sp(2) assms(3) by blast
  with sp(1) have "rtsp_url_of (br_src s) = rtsp_url_of (br_src (sys_bridge y))" by (intro rtsp_url_of_cong)
  then show ?thesis by (simp add: lookup_in_def s(2))
next
  case (Event ev)
  obtain f s where s: "handle_event rc ev (sys_bridge y) = (acts, f, s)" "y' = y\<lparr>sys_bridge := s\<rparr>"
    using assms(2) Event by (auto split: prod.splits)
  have "rtsp_url_of (br_src s) = rtsp_url_of (br_src (sys_bridge y))"
    using handle_event_frame [OF s(1)] by (intro rtsp_url_of_cong) auto
  then show ?thesis by (simp add: lookup_in_def s(2))
qed (use assms(2) in \<open>auto simp: lookup_in_def\<close>)

text \<open>An event that announces nothing leaves each table in agreement.\<close>

lemma quiet_event:
  assumes "sys_ok rc y" and "sys_step rc e y = (acts, y')" and "StreamsChanged \<notin> set acts"
    and "happens_at st e \<or> (\<exists>ok ids. e = Apply ok ids)"
  shows "(agrees (lookup_in y) (sys_hls y) \<longrightarrow> agrees (lookup_in y') (sys_hls y')) \<and>
    (agrees (lookup_in y) (sys_mp4 y) \<longrightarrow> agrees (lookup_in y') (sys_mp4 y'))"
proof -
  note l = lookup_announced [OF assms(1-3)]
  have ok: "mux_ok (sys_hls y)" "mux_ok (sys_mp4 y)" using assms(1) by (simp_all add: sys_ok_def)
  show ?thesis
    using assms(2,4) agrees_served [OF ok(1) _ hls_serve_cases [OF prod.collapse [symmetric]]]
      agrees_served [OF ok(2) _ mp4_serve_cases [OF prod.collapse [symmetric]]]
    unfolding l by (cases e) (auto simp: lookup_in_def split: prod.splits)
qed

lemma no_muxers_yet:
  assumes "sys_step rc e y = (acts, y')" and "happens_at st e \<or> (\<exists>ok ids. e = Apply ok ids)" and "st < CallbackSet"
  shows "sys_hls y' = sys_hls y \<and> sys_mp4 y' = sys_mp4 y"
  using assms by (cases e) (auto simp: stage_order split: prod.splits)

lemma at_bridge_ok:
  assumes "sys_ok rc (bt_sys b)" and "tables_ok b" and "happens_at (bt_stage b) e \<or> (\<exists>ok ids. e = Apply ok ids)"
  shows "sys_ok rc (bt_sys (at_bridge rc e b)) \<and> tables_ok (at_bridge rc e b)"
proof -
  obtain acts y where y: "sys_step rc e (bt_sys b) = (acts, y)" by fastforce
  have "sys_ok rc y" using sys_ok_step [OF assms(1), of e] y by simp
  moreover have "tables_ok (at_bridge rc e b)"
    using assms(2) no_muxers_yet [OF y assms(3)] quiet_event [OF assms(1) y _ assms(3)]
    by (cases "StreamsChanged \<in> set acts") (auto simp: at_bridge_def y tables_ok_def Let_def)
  ultimately show ?thesis by (simp add: at_bridge_def y)
qed

lemma at_bridge_fields [simp]:
  "bt_stage (at_bridge rc e b) = bt_stage b" "bt_stored (at_bridge rc e b) = bt_stored b" "bt_posts (at_bridge rc e b) = bt_posts b"
  "bt_missed (at_bridge rc e b) = bt_missed b" "bt_mixed (at_bridge rc e b) = bt_mixed b"
  "bt_sys (at_bridge rc e b) = snd (sys_step rc e (bt_sys b))"
  by (simp_all add: at_bridge_def split: prod.split)

lemma set_without: "set (without k xs) \<subseteq> set xs"
  using set_take_subset [of k xs] set_drop_subset [of "Suc k" xs] by (auto simp: without_def)

lemma allowed_new: "allowed_in (new_sys ids) = is_allowed (new_camera_source ids)"
  by (simp add: allowed_in_def new_sys_def new_bridge_def)

lemma boot_ok_step:
  assumes "boot_ok rc b"
  shows "boot_ok rc (boot_step rc e b)"
proof -
  have ok: "sys_ok rc (bt_sys b)" and t: "tables_ok b" and x: "exposure_ok b" using assms by (simp_all add: boot_ok_def)
  show ?thesis
  proof (cases e)
    case Advance
    have "tables_ok (b\<lparr>bt_stage := Loaded, bt_sys := new_sys (bt_stored b), bt_missed := False\<rparr>)"
      by (simp add: tables_ok_def Let_def) (simp add: new_sys_def new_mux_server_def agrees_empty)
    moreover have "tables_ok (b\<lparr>bt_stage := next_stage (bt_stage b)\<rparr>)"
      using t by (cases "bt_stage b") (simp_all add: tables_ok_def Let_def stage_order)
    moreover have "bt_stage b \<noteq> Listening \<Longrightarrow> Loaded \<le> bt_stage b" by (cases "bt_stage b") (simp_all add: stage_order)
    ultimately show ?thesis using ok x by (auto simp: Advance boot_ok_def exposure_ok_def allowed_new)
  next
    case (Stored ids)
    then show ?thesis using ok t by (auto simp: boot_ok_def exposure_ok_def tables_ok_def Let_def stage_order)
  next
    case (Applied k post)
    show ?thesis
    proof (cases "k < length (bt_posts b)")
      case True
      let ?b1 = "b\<lparr>bt_posts := without k (bt_posts b)\<rparr>"
      have t1: "tables_ok ?b1" using t by (simp add: tables_ok_def)
      have s: "\<not> bt_mixed b \<Longrightarrow> set (bt_posts b) \<subseteq> {bt_stored b}" using x by (simp add: exposure_ok_def)
      have p: "\<not> bt_mixed b \<Longrightarrow> bt_posts b ! k = bt_stored b" "\<not> bt_mixed b \<Longrightarrow> set (without k (bt_posts b)) \<subseteq> {bt_stored b}"
        using subsetD [OF s nth_mem [OF True]] subset_trans [OF set_without s] by blast+
      show ?thesis
      proof (cases "PageWired \<le> bt_stage b")
        case wired: True
        let ?b2 = "at_bridge rc (Apply post (bt_posts b ! k)) ?b1"
        have "sys_ok rc (bt_sys ?b1)" using ok by simp
        from at_bridge_ok [OF this t1, of "Apply post (bt_posts b ! k)"] have "sys_ok rc (bt_sys ?b2)" "tables_ok ?b2" by blast+
        moreover have "tables_ok (?b2\<lparr>bt_missed := False\<rparr>) = tables_ok ?b2" by (simp add: tables_ok_def)
        moreover have "exposure_ok (?b2\<lparr>bt_missed := False\<rparr>)"
          using p applied_allows [of rc post "bt_posts b ! k" "bt_sys b"] by (auto simp: exposure_ok_def simp del: sys_step.simps)
        ultimately show ?thesis by (simp add: Applied True wired boot_ok_def del: sys_step.simps)
      next
        case False
        then show ?thesis using ok t1 x p by (auto simp: Applied True boot_ok_def exposure_ok_def)
      qed
    qed (use assms in \<open>simp add: Applied\<close>)
  next
    case SaveReads
    then show ?thesis using assms by (simp add: boot_ok_def exposure_ok_def tables_ok_def Let_def)
  next
    case (SaveWrites k)
    then show ?thesis using assms by (auto simp: boot_ok_def exposure_ok_def tables_ok_def Let_def)
  next
    case (AtBridge f)
    have "allowed_in (snd (sys_step rc f (bt_sys b))) = allowed_in (bt_sys b)" if "happens_at (bt_stage b) f"
      using that ok allowed_step [of rc "bt_sys b" f] by (cases f) auto
    then show ?thesis
      using assms at_bridge_ok [OF ok t, of f] by (auto simp: AtBridge boot_ok_def exposure_ok_def simp del: sys_step.simps)
  next
    case Notify
    then show ?thesis
      using assms by (auto simp: boot_ok_def exposure_ok_def tables_ok_def Let_def agrees_empty not_le)
  next
    case CallbackHls
    have "mux_ok (sys_hls (bt_sys b))" using ok by (simp add: sys_ok_def)
    note p = prune_spec [OF this] prune_agrees [OF this]
    show ?thesis
      using ok t x p by (auto simp: CallbackHls boot_ok_def exposure_ok_def tables_ok_def Let_def sys_ok_def lookup_in_def allowed_in_def)
  next
    case CallbackMp4
    have "mux_ok (sys_mp4 (bt_sys b))" using ok by (simp add: sys_ok_def)
    note p = prune_spec [OF this] prune_agrees [OF this]
    show ?thesis
      using ok t x p by (auto simp: CallbackMp4 boot_ok_def exposure_ok_def tables_ok_def Let_def sys_ok_def lookup_in_def allowed_in_def)
  qed
qed

lemma boot_ok_run: "boot_ok rc b \<Longrightarrow> boot_ok rc (boot_run rc es b)"
  by (induction es arbitrary: b) (simp_all add: boot_run_def boot_ok_step del: boot_step.simps)

lemma boot_ok_0: "boot_ok rc (boot0 ids)"
  by (simp add: boot_ok_def boot0_def tables_ok_def exposure_ok_def Let_def stage_order)
    (simp add: new_sys_def new_mux_server_def agrees_empty)

section \<open>Properties\<close>

text \<open>
  C18: the order of the start is safe. However requests to the setup page, refreshes, events and viewers
  interleave with it and with each other, whenever no notification is under way each muxer of the two stream servers is of
  an exposed camera and dials its present URL, although for a while lists are applied with no callback set. From
  the reading of the options on, the exposure in force is that of the stored options, but for three cases: the
  last list was stored after that reading and has not been applied (yet); it was stored while another request was
  between storing and applying; or a save of credentials has since written an older list back.
\<close>

theorem start_keeps_exposure:
  assumes "b = boot_run rc es (boot0 ids)"
  shows "(bt_notify b = 0 \<and> bt_hls b = 0 \<longrightarrow> agrees (rtsp_url_of (br_src (sys_bridge (bt_sys b)))) (sys_hls (bt_sys b))) \<and>
    (bt_notify b = 0 \<and> bt_hls b = 0 \<and> bt_mp4 b = 0 \<longrightarrow>
      agrees (rtsp_url_of (br_src (sys_bridge (bt_sys b)))) (sys_mp4 (bt_sys b))) \<and>
    (Loaded \<le> bt_stage b \<and> \<not> bt_missed b \<and> \<not> bt_mixed b \<longrightarrow>
      allowed_in (bt_sys b) = is_allowed (new_camera_source (bt_stored b)))"
  using boot_ok_run [OF boot_ok_0, of rc es ids]
  unfolding assms boot_ok_def tables_ok_def exposure_ok_def lookup_in_def Let_def by blast

text \<open>A start in which one list comes before the options are read, and one while a viewer is there.\<close>

definition ex_boot :: "boot_event list" where
  "ex_boot =
     [Stored [], Applied 0 True, Advance, AtBridge (Refreshed 0 [ex_uc ''a'' True True] ''u''), Notify, Advance, Advance, Advance,
      AtBridge (HlsRequest ex_hls_request), Stored [''z''], Applied 0 True, Notify, CallbackHls, AtBridge (HlsRequest ex_hls_request),
      CallbackMp4]"

theorem start_keeps_exposure_witness:
  "ms_closed (sys_hls (bt_sys (boot_run ex_rc ex_boot (boot0 [''b''])))) = [0] \<and>
   \<not> allowed_in (bt_sys (boot_run ex_rc ex_boot (boot0 [''b'']))) ''a'' \<and>
   agrees (rtsp_url_of (br_src (sys_bridge (bt_sys (boot_run ex_rc ex_boot (boot0 [''b'']))))))
     (sys_hls (bt_sys (boot_run ex_rc ex_boot (boot0 [''b'']))))"
proof -
  let ?b = "boot_run ex_rc ex_boot (boot0 [''b''])"
  have e: "bt_stage ?b = Serving" "\<not> bt_missed ?b" "\<not> bt_mixed ?b" "bt_stored ?b = [''z'']" "ms_closed (sys_hls (bt_sys ?b)) = [0]"
    "bt_notify ?b = 0" "bt_hls ?b = 0" by code_simp+
  moreover have "\<not> is_allowed (new_camera_source [''z'']) ''a''" by code_simp
  ultimately show ?thesis using start_keeps_exposure [of ?b ex_rc ex_boot "[''b'']", OF refl] by (simp add: stage_order)
qed

text \<open>
  A defect: a list that the page accepts after \<open>run\<close> has read the options and before \<open>SetCameraApplier\<close>
  (a slow login to the controller lies in between) is stored and answered with success, but never
  applied. The bridge runs with the list it has read: a camera that the owner has hidden is served.
\<close>

theorem list_posted_while_starting_is_not_applied:
  "setup_serve ex_setup_env (the (new_setup ''tok'')) ex_cameras_post ex_setup_bodies (live, []) =
     (json_response 200 (ok_json True []), live,
      snd (write_exposed_cameras [''a''] ex_supervisor ex_decode [])) \<and>
   bt_stored (boot_run rc [Advance, Stored [''a''], Applied 0 ok, Advance, Advance, Advance] (boot0 [])) = [''a''] \<and>
   bt_stage (boot_run rc [Advance, Stored [''a''], Applied 0 ok, Advance, Advance, Advance] (boot0 [])) = Serving \<and>
   allowed_in (bt_sys (boot_run rc [Advance, Stored [''a''], Applied 0 ok, Advance, Advance, Advance] (boot0 []))) cam"
proof -
  have g: "ingress_only (\<lambda>_. None) ''172.30.32.2:4000'' ''/api/cameras'' = Inr CamerasRoute" by code_simp
  have n: "normalise [] [] [''a'', ''a''] = [''a'']" by code_simp
  obtain h' where "write_exposed_cameras [''a''] ex_supervisor ex_decode [] = (None, h')"
    using ex_save by (metis write_exposed_cameras_def)
  then have "setup_serve ex_setup_env (the (new_setup ''tok'')) ex_cameras_post ex_setup_bodies (live, []) =
     (json_response 200 (ok_json True []), live, snd (write_exposed_cameras [''a''] ex_supervisor ex_decode []))"
    by (simp add: setup_serve_def ex_setup_env_def ex_cameras_post_def ex_setup_bodies_def g new_setup_def cameras_handler_def n)
  moreover have "allowed_in (new_sys []) cam"
    by (simp add: allowed_in_def new_sys_def new_bridge_def new_camera_source_def is_allowed_def set_allowed_def)
  ultimately show ?thesis by (simp add: boot_run_def boot0_def stage_order)
qed

text \<open>
  A defect: storing a list and applying it are two steps without a lock. Two overlapping requests
  can store one list last and apply the other one last, so the bridge runs with a list that the next
  start does not know.
\<close>

theorem overlapping_lists_diverge:
  assumes "write_exposed_cameras ids sv dec h = (None, h1)" and "write_exposed_cameras ids' sv dec h1 = (None, h2)"
  shows "(\<exists>opts. last h2 = post_options opts \<and> get_list (sub_obj opts ''bridge'') ''exposed_cameras'' = Some (map JStr ids')) \<and>
    allowed_in (snd (sys_step rc (Apply ok ids) (snd (sys_step rc (Apply ok' ids') y)))) = is_allowed (new_camera_source ids)"
proof -
  obtain opts where "h2 = h1 @ [get_info, post_options (edit_bridge ''exposed_cameras'' (JList (map JStr ids')) opts)]"
    using save_options_cases [of "edit_bridge ''exposed_cameras'' (JList (map JStr ids'))"] assms(2)
    by (fastforce simp: write_exposed_cameras_def)
  then have "last h2 = post_options (edit_bridge ''exposed_cameras'' (JList (map JStr ids')) opts)" by simp
  moreover have "get_list (sub_obj (edit_bridge ''exposed_cameras'' (JList (map JStr ids')) opts) ''bridge'') ''exposed_cameras'' =
      Some (map JStr ids')" by (simp add: get_list_def edit_bridge_inner)
  ultimately show ?thesis using applied_allows by blast
qed

end
