(* ===== verification/Events.thy ===== *)
theory Events
  imports Watch "HOL-Library.Sublist"
begin

text \<open>
  The event stream from the controller's updates WebSocket to the reconciler: the read loop of one
  connection with its pings and read deadline (\<open>SubscribeEvents\<close> of \<open>internal/unifi/events.go\<close>), and
  \<open>watchEvents\<close> of \<open>internal/bridge/reconciler.go\<close> around it, turn by turn: dial with the last
  update id, handle every event, wait, dial again. Shown: no event is lost or handled twice over
  disconnects when the controller resumes where it is told to; a peer that answers pings is never
  cut off and a silent one is within a minute.
\<close>

section \<open>One connection\<close>

definition pong_wait :: duration where "pong_wait = 60 * second"

definition ping_period :: duration where "ping_period = 25 * second"

text \<open>What arrives on the socket. Control frames other than pongs are the library's business.\<close>

datatype ws_frame = PongFrame | BinaryFrame bytes | TextFrame | PeerGone

text \<open>
  The reads of a connection from its deadline and its arrivals in time: the pong handler moves the
  deadline while \<open>ReadMessage\<close> waits, and a read past the deadline fails. The result is what
  \<open>ReadMessage\<close> returns, and when it failed.
\<close>

fun conn_reads :: "instant \<Rightarrow> (instant \<times> ws_frame) list \<Rightarrow> ws_message list \<times> instant" where
  "conn_reads deadline [] = ([ReadError], deadline)"
| "conn_reads deadline ((t, f) # fs) =
     (if t > deadline then ([ReadError], deadline)
      else
        case f of
          PongFrame \<Rightarrow> conn_reads (t + pong_wait) fs
        | PeerGone \<Rightarrow> ([ReadError], t)
        | BinaryFrame b \<Rightarrow> (case conn_reads deadline fs of (ms, e) \<Rightarrow> (BinaryMessage b True # ms, e))
        | TextFrame \<Rightarrow> (case conn_reads deadline fs of (ms, e) \<Rightarrow> (OtherMessage # ms, e)))"

text \<open>The time of ping number \<open>k\<close> of the connection: the ticker's first tick is one period after the start.\<close>

definition ping_time :: "instant \<Rightarrow> nat \<Rightarrow> instant" where
  "ping_time start k = start + (int k + 1) * ping_period"

section \<open>The loop\<close>

text \<open>
  A turn of \<open>watchEvents\<close> as its surroundings have it: the controller, the outcome of the dial, when
  it connected, the arrivals on that connection, how long the events still in the channel took after
  the read loop ended, the level of the event log, and what other goroutines (refreshes, requests)
  do to the bridge before each event.
\<close>

record 'b turn =
  tn_srv :: "'b controller"
  tn_dial :: "ws_dial \<Rightarrow> dial_result"
  tn_at :: instant
  tn_frames :: "ws_dial \<Rightarrow> (instant \<times> ws_frame) list"
  tn_lag :: duration
  tn_level :: ws_level
  tn_others :: "unifi_event \<Rightarrow> bridge_state \<Rightarrow> bridge_state"

text \<open>The loop's locals and what it works on; then what it did: events handled and logged, calls of \<open>fire\<close>, actions, waits.\<close>

record watch =
  wt_backoff :: duration
  wt_last :: string
  wt_unifi :: "unifi_session \<times> unifi_req list"
  wt_bridge :: bridge_state
  wt_handled :: "unifi_event list"
  wt_logged :: "unifi_event list"
  wt_fires :: nat
  wt_actions :: "bridge_action list"
  wt_waits :: "duration list"

definition watch0 :: "unifi_session \<times> unifi_req list \<Rightarrow> bridge_state \<Rightarrow> watch" where
  "watch0 u s =
     \<lparr>wt_backoff = second, wt_last = cs_last_update (br_src s), wt_unifi = u, wt_bridge = s, wt_handled = [],
      wt_logged = [], wt_fires = 0, wt_actions = [], wt_waits = []\<rparr>"

definition watch_event :: "reconciler_config \<Rightarrow> 'b turn \<Rightarrow> unifi_event \<Rightarrow> watch \<Rightarrow> watch" where
  "watch_event rc tn ev w =
     (case handle_event rc ev (tn_others tn ev (wt_bridge w)) of (acts, fire, s) \<Rightarrow>
        w\<lparr>wt_last := (if ev_new_update ev \<noteq> [] then ev_new_update ev else wt_last w), wt_bridge := s,
          wt_handled := wt_handled w @ [ev],
          wt_logged := wt_logged w @ (if ws_logs (tn_level tn) ev then [ev] else []),
          wt_fires := wt_fires w + (if fire then 1 else 0), wt_actions := wt_actions w @ acts\<rparr>)"

definition watch_wait :: "watch \<Rightarrow> watch" where
  "watch_wait w = w\<lparr>wt_waits := wt_waits w @ [wt_backoff w], wt_backoff := ws_next_backoff (wt_backoff w)\<rparr>"

definition turn_events ::
  "(bytes \<Rightarrow> json option) \<Rightarrow> (bytes \<Rightarrow> bytes option) \<Rightarrow> 'b turn \<Rightarrow> ws_dial \<Rightarrow> unifi_event list" where
  "turn_events parse inflate tn d = event_pump parse inflate (fst (conn_reads (tn_at tn + pong_wait) (tn_frames tn d)))"

definition watch_turn ::
  "reconciler_config \<Rightarrow> (bytes \<Rightarrow> json option) \<Rightarrow> (bytes \<Rightarrow> bytes option) \<Rightarrow> 'b turn \<Rightarrow> watch \<Rightarrow> watch" where
  "watch_turn rc parse inflate tn w =
     (case subscribe_events (tn_srv tn) (tn_dial tn) (wt_last w) (wt_unifi w) of
        (Some e, u) \<Rightarrow> watch_wait (w\<lparr>wt_unifi := u\<rparr>)
      | (None, u) \<Rightarrow>
          let d = subscribe_dial (fst u) (wt_last w);
              over = snd (conn_reads (tn_at tn + pong_wait) (tn_frames tn d)) + tn_lag tn;
              w1 = fold (watch_event rc tn) (turn_events parse inflate tn d) (w\<lparr>wt_unifi := u\<rparr>)
          in watch_wait (if over - tn_at tn > 30 * second then w1\<lparr>wt_backoff := second\<rparr> else w1))"

text \<open>The turns before the context is cancelled.\<close>

definition watch_run ::
  "reconciler_config \<Rightarrow> (bytes \<Rightarrow> json option) \<Rightarrow> (bytes \<Rightarrow> bytes option) \<Rightarrow> 'b turn list \<Rightarrow> watch \<Rightarrow> watch" where
  "watch_run rc parse inflate tns w = fold (watch_turn rc parse inflate) tns w"

section \<open>Specifications\<close>

text \<open>The events that call for a refresh.\<close>

definition wants_refresh :: "unifi_event \<Rightarrow> bool" where
  "wants_refresh ev \<longleftrightarrow> ev_model_key ev = ''camera'' \<and>
     (ev_action ev = ''update'' \<longrightarrow> list_ex (has_field (ev_fields ev)) [''state'', ''isConnected'', ''name'', ''channels''])"

text \<open>The controller's log after the update id \<open>i\<close>; \<open>i0\<close> is the id of the bootstrap, before all events.\<close>

fun after_id :: "string \<Rightarrow> unifi_event list \<Rightarrow> unifi_event list" where
  "after_id i [] = []"
| "after_id i (e # es) = (if ev_new_update e = i then es else after_id i es)"

definition since :: "string \<Rightarrow> unifi_event list \<Rightarrow> string \<Rightarrow> unifi_event list" where
  "since i0 log i = (if i = i0 then log else after_id i log)"

text \<open>
  What the updates protocol promises of \<open>lastUpdateId\<close>: a connection dialed with an id carries the
  events after it, in order, up to the point where the connection is lost.
\<close>

definition resumes ::
  "(bytes \<Rightarrow> json option) \<Rightarrow> (bytes \<Rightarrow> bytes option) \<Rightarrow> string \<Rightarrow> unifi_event list \<Rightarrow> 'b turn \<Rightarrow> bool" where
  "resumes parse inflate i0 log tn \<longleftrightarrow>
     (\<forall>d i. dl_last d = Some i \<longrightarrow> prefix (turn_events parse inflate tn d) (since i0 log i))"

section \<open>Lemmas\<close>

lemma handle_event_fire: "handle_event rc ev s = (acts, fire, s') \<Longrightarrow> fire \<longleftrightarrow> wants_refresh ev"
  by (auto simp: handle_event_def wants_refresh_def Let_def split: if_splits option.splits prod.splits)

lemma since_take:
  assumes "distinct (i0 # map ev_new_update log)" and "n \<le> length log"
  shows "since i0 log (last (i0 # map ev_new_update (take n log))) = drop n log"
proof (cases n)
  case (Suc m)
  have after: "after_id (ev_new_update (es ! k)) es = drop (Suc k) es"
    if "distinct (map ev_new_update es)" "k < length es" for es k
    using that
  proof (induction es arbitrary: k)
    case (Cons e es)
    show ?case
    proof (cases k)
      case (Suc j)
      then have "ev_new_update e \<noteq> ev_new_update (es ! j)" using Cons.prems by (auto simp: image_iff)
      then show ?thesis using Cons Suc by simp
    qed simp
  qed simp
  have m: "m < length log" using Suc assms(2) by simp
  then have "last (i0 # map ev_new_update (take n log)) = ev_new_update (log ! m)"
    by (simp add: Suc take_Suc_conv_app_nth)
  moreover have "ev_new_update (log ! m) \<noteq> i0" using assms(1) m by auto
  ultimately show ?thesis using after [of log m] assms(1) m by (simp add: since_def Suc)
qed (simp add: since_def)

text \<open>The loop is at event \<open>n\<close> of the log.\<close>

definition at_event :: "string \<Rightarrow> unifi_event list \<Rightarrow> nat \<Rightarrow> watch \<Rightarrow> bool" where
  "at_event i0 log n w \<longleftrightarrow> n \<le> length log \<and> wt_handled w = take n log \<and>
     wt_last w = last (i0 # map ev_new_update (take n log)) \<and>
     wt_fires w = length (filter wants_refresh (take n log))"

lemma at_event_one:
  assumes "at_event i0 log n w" and "n < length log" and "[] \<notin> set (map ev_new_update log)"
  shows "at_event i0 log (Suc n) (watch_event rc tn (log ! n) w)"
proof -
  obtain acts fire s where h: "handle_event rc (log ! n) (tn_others tn (log ! n) (wt_bridge w)) = (acts, fire, s)"
    by (metis prod.collapse)
  have "ev_new_update (log ! n) \<noteq> []" using assms(2,3) by (metis image_eqI nth_mem set_map)
  then show ?thesis
    using assms(1,2) handle_event_fire [OF h]
    by (simp add: at_event_def watch_event_def h take_Suc_conv_app_nth)
qed

lemma at_event_fold:
  assumes "at_event i0 log n w" and "prefix evs (drop n log)" and "[] \<notin> set (map ev_new_update log)"
  shows "at_event i0 log (n + length evs) (fold (watch_event rc tn) evs w)"
  using assms(1,2)
proof (induction evs arbitrary: n w)
  case (Cons ev evs)
  then obtain zs where z: "drop n log = ev # evs @ zs" by (auto simp: prefix_def)
  then have n: "n < length log" by (metis drop_all list.distinct(1) not_le_imp_less)
  with z have ev: "ev = log ! n" "prefix evs (drop (Suc n) log)" by (simp_all add: Cons_nth_drop_Suc [symmetric])
  from Cons.IH [OF at_event_one [OF Cons.prems(1) n assms(3), of rc tn] ev(2)] show ?case by (simp add: ev(1))
qed simp

lemma at_event_fields:
  "at_event i0 log n (w\<lparr>wt_unifi := u\<rparr>) = at_event i0 log n w"
  "at_event i0 log n (watch_wait w) = at_event i0 log n w"
  "at_event i0 log n (w\<lparr>wt_backoff := b\<rparr>) = at_event i0 log n w"
  by (simp_all add: at_event_def watch_wait_def)

lemma at_event_turn:
  assumes "at_event i0 log n w" and "resumes parse inflate i0 log tn"
    and "distinct (i0 # map ev_new_update log)" and "[] \<notin> set (i0 # map ev_new_update log)"
  shows "\<exists>m. at_event i0 log m (watch_turn rc parse inflate tn w)"
proof -
  obtain r u where su: "subscribe_events (tn_srv tn) (tn_dial tn) (wt_last w) (wt_unifi w) = (r, u)"
    by (metis prod.collapse)
  show ?thesis
  proof (cases r)
    case None
    have l: "wt_last w = last (i0 # map ev_new_update (take n log))" "n \<le> length log"
      using assms(1) by (simp_all add: at_event_def)
    have "wt_last w \<in> set (i0 # map ev_new_update log)"
      unfolding l(1) by (rule subsetD [OF _ last_in_set]) (auto dest: in_set_takeD)
    then have "wt_last w \<noteq> []" using assms(4) by metis
    then have "dl_last (subscribe_dial (fst u) (wt_last w)) = Some (wt_last w)" by (simp add: subscribe_dial_def)
    moreover have "since i0 log (wt_last w) = drop n log" unfolding l(1) by (rule since_take [OF assms(3) l(2)])
    ultimately have "prefix (turn_events parse inflate tn (subscribe_dial (fst u) (wt_last w))) (drop n log)"
      using assms(2) unfolding resumes_def by metis
    from at_event_fold [OF _ this, of i0 "w\<lparr>wt_unifi := u\<rparr>" rc tn] show ?thesis
      using assms(1,4) su None
      by (intro exI) (simp add: watch_turn_def Let_def at_event_fields)
  qed (use assms(1) su in \<open>auto simp: watch_turn_def at_event_fields\<close>)
qed


lemma watch_wait_range:
  "second \<le> wt_backoff w \<and> wt_backoff w \<le> 30 * second \<Longrightarrow>
   second \<le> wt_backoff (watch_wait w) \<and> wt_backoff (watch_wait w) \<le> 30 * second \<and>
   wt_waits (watch_wait w) = wt_waits w @ [wt_backoff w]"
  using ws_next_backoff_range by (simp add: watch_wait_def)

lemma watch_event_frame: "wt_backoff (watch_event rc tn ev w) = wt_backoff w" "wt_waits (watch_event rc tn ev w) = wt_waits w"
  by (simp_all add: watch_event_def split: prod.split)

lemma watch_events_frame:
  "wt_backoff (fold (watch_event rc tn) evs w) = wt_backoff w" "wt_waits (fold (watch_event rc tn) evs w) = wt_waits w"
  by (induction evs arbitrary: w) (simp_all add: watch_event_frame)

lemma watch_turn_waits:
  assumes "second \<le> wt_backoff w \<and> wt_backoff w \<le> 30 * second"
  shows "\<exists>b. second \<le> b \<and> b \<le> 30 * second \<and> wt_waits (watch_turn rc parse inflate tn w) = wt_waits w @ [b] \<and>
    second \<le> wt_backoff (watch_turn rc parse inflate tn w) \<and> wt_backoff (watch_turn rc parse inflate tn w) \<le> 30 * second"
proof -
  have s: "second \<le> 30 * second" by (simp add: second_def)
  have "\<exists>w1. watch_turn rc parse inflate tn w = watch_wait w1 \<and> wt_waits w1 = wt_waits w \<and>
      second \<le> wt_backoff w1 \<and> wt_backoff w1 \<le> 30 * second"
    using assms s by (auto simp: watch_turn_def Let_def watch_events_frame split: prod.splits option.splits)
  then show ?thesis using watch_wait_range by metis
qed

lemma watch_run_waits:
  "second \<le> wt_backoff w \<and> wt_backoff w \<le> 30 * second \<Longrightarrow>
   \<exists>bs. wt_waits (watch_run rc parse inflate tns w) = wt_waits w @ bs \<and> length bs = length tns \<and>
     set bs \<subseteq> {second .. 30 * second}"
proof (induction tns arbitrary: w)
  case (Cons tn tns)
  from watch_turn_waits [OF Cons.prems] obtain b where b: "second \<le> b" "b \<le> 30 * second"
    "wt_waits (watch_turn rc parse inflate tn w) = wt_waits w @ [b]"
    and w: "second \<le> wt_backoff (watch_turn rc parse inflate tn w) \<and> wt_backoff (watch_turn rc parse inflate tn w) \<le> 30 * second"
    by metis
  from Cons.IH [OF w] obtain bs where "wt_waits (watch_run rc parse inflate tns (watch_turn rc parse inflate tn w)) =
      wt_waits w @ b # bs" "length bs = length tns" "set bs \<subseteq> {second .. 30 * second}"
    by (auto simp: b(3))
  then show ?case using b by (intro exI [of _ "b # bs"]) (simp add: watch_run_def)
qed (simp add: watch_run_def)

lemma at_event_run:
  assumes "\<forall>tn \<in> set tns. resumes parse inflate i0 log tn"
    and "distinct (i0 # map ev_new_update log)" and "[] \<notin> set (i0 # map ev_new_update log)" and "at_event i0 log n w"
  shows "\<exists>m. at_event i0 log m (watch_run rc parse inflate tns w)"
  using assms(1,4)
proof (induction tns arbitrary: n w)
  case (Cons tn tns)
  then obtain m where "at_event i0 log m (watch_turn rc parse inflate tn w)"
    using at_event_turn [OF Cons.prems(2) _ assms(2,3)] by fastforce
  then show ?case using Cons by (simp add: watch_run_def)
qed (auto simp: watch_run_def)

subsection \<open>Pings\<close>

text \<open>The deadline after some arrivals is a minute after the last pong.\<close>

fun last_pong :: "instant \<Rightarrow> (instant \<times> ws_frame) list \<Rightarrow> instant" where
  "last_pong p [] = p"
| "last_pong p ((t, f) # fs) = last_pong (if f = PongFrame then t else p) fs"

fun frame_messages :: "ws_frame list \<Rightarrow> ws_message list" where
  "frame_messages [] = []"
| "frame_messages (BinaryFrame b # fs) = BinaryMessage b True # frame_messages fs"
| "frame_messages (TextFrame # fs) = OtherMessage # frame_messages fs"
| "frame_messages (f # fs) = frame_messages fs"

text \<open>The peer answers every ping within 35 seconds, as long as anything arrives after that.\<close>

definition answers_pings :: "instant \<Rightarrow> (instant \<times> ws_frame) list \<Rightarrow> bool" where
  "answers_pings start fs \<longleftrightarrow>
     (\<forall>k. (\<exists>f \<in> set fs. ping_time start k + 35 * second < fst f) \<longrightarrow>
        (\<exists>t. (t, PongFrame) \<in> set fs \<and> ping_time start k \<le> t \<and> t \<le> ping_time start k + 35 * second))"

lemma ping_after:
  assumes "start \<le> p"
  obtains k where "p < ping_time start k" and "ping_time start k \<le> p + ping_period"
proof
  let ?q = "(p - start) div ping_period"
  have pos: "0 < ping_period" by (simp add: ping_period_def second_def)
  then have "int (nat ?q) = ?q" using assms by (simp add: pos_imp_zdiv_nonneg_iff)
  then have t: "ping_time start (nat ?q) = start + ?q * ping_period + ping_period"
    by (simp add: ping_time_def distrib_right)
  have "?q * ping_period + (p - start) mod ping_period = p - start" by simp
  moreover have "0 \<le> (p - start) mod ping_period" "(p - start) mod ping_period < ping_period" using pos by simp_all
  ultimately show "p < ping_time start (nat ?q)" "ping_time start (nat ?q) \<le> p + ping_period"
    unfolding t by linarith+
qed

lemma conn_reads_live:
  assumes "answers_pings start (pre @ rest)" and "sorted (map fst (pre @ rest))"
    and "\<forall>t. (t, PongFrame) \<in> set pre \<longrightarrow> t \<le> p" and "start \<le> p" and "PeerGone \<notin> snd ` set rest"
    and "\<forall>f \<in> set rest. start \<le> fst f"
  shows "conn_reads (p + pong_wait) rest = (frame_messages (map snd rest) @ [ReadError], last_pong p rest + pong_wait)"
  using assms
proof (induction rest arbitrary: pre p)
  case (Cons e rest)
  obtain t f where e: "e = (t, f)" by fastforce
  have in_time: "t \<le> p + pong_wait"
  proof (rule ccontr)
    assume "\<not> t \<le> p + pong_wait"
    moreover obtain k where k: "p < ping_time start k" "ping_time start k \<le> p + ping_period"
      using ping_after [OF Cons.prems(4)] .
    ultimately have "ping_time start k + 35 * second < t" by (simp add: pong_wait_def ping_period_def second_def)
    then obtain t' where t': "(t', PongFrame) \<in> set (pre @ e # rest)" "ping_time start k \<le> t'" "t' < t"
      using Cons.prems(1) unfolding answers_pings_def e by fastforce
    then have "(t', PongFrame) \<in> set pre" using Cons.prems(2) by (auto simp: e sorted_append)
    then show False using Cons.prems(3) t'(2) k(1) by force
  qed
  let ?p = "if f = PongFrame then t else p"
  have ih: "conn_reads (?p + pong_wait) rest = (frame_messages (map snd rest) @ [ReadError], last_pong ?p rest + pong_wait)"
    by (rule Cons.IH [of "pre @ [e]"])
      (use Cons.prems in \<open>auto simp: e sorted_append intro: order_trans\<close>)
  have "f \<noteq> PeerGone" using Cons.prems(5) by (auto simp: e)
  with in_time ih show ?case by (cases f) (simp_all add: e)
qed simp

lemma conn_reads_end:
  "\<forall>t. (t, PongFrame) \<in> set fs \<longrightarrow> t \<le> q \<Longrightarrow> dl \<le> q + pong_wait \<Longrightarrow> snd (conn_reads dl fs) \<le> q + pong_wait"
  by (induction dl fs rule: conn_reads.induct) (auto split: ws_frame.split prod.split dest: sym)

section \<open>Properties\<close>

text \<open>
  C20: no event is lost and none is handled twice, however often the connection drops, a dial fails, or
  the session has to be opened again, and whatever other goroutines do to the bridge meanwhile: when
  the controller resumes after the id it is given, what has been handled is always a prefix of its
  log, and \<open>fire\<close> has been called once for each event of it that calls for a refresh. And the loop
  never spins: every turn ends with a wait of one to thirty seconds.
\<close>

theorem events_handled_exactly_once:
  assumes "\<forall>tn \<in> set tns. resumes parse inflate i0 log tn"
    and "distinct (i0 # map ev_new_update log)" and "[] \<notin> set (i0 # map ev_new_update log)"
    and "cs_last_update (br_src s) = i0" and "w = watch_run rc parse inflate tns (watch0 u s)"
  shows "\<exists>n \<le> length log. wt_handled w = take n log \<and> wt_last w = last (i0 # map ev_new_update (take n log)) \<and>
      wt_fires w = length (filter wants_refresh (take n log)) \<and>
      length (wt_waits w) = length tns \<and> set (wt_waits w) \<subseteq> {second .. 30 * second}"
proof -
  have "at_event i0 log 0 (watch0 u s)" by (simp add: at_event_def watch0_def assms(4))
  from at_event_run [OF assms(1,2,3) this, of rc] obtain n where "at_event i0 log n w" unfolding assms(5) by blast
  moreover have "second \<le> 30 * second" by (simp add: second_def)
  then have "second \<le> wt_backoff (watch0 u s) \<and> wt_backoff (watch0 u s) \<le> 30 * second" by (simp add: watch0_def)
  from watch_run_waits [OF this, of rc parse inflate tns]
  have "length (wt_waits w) = length tns \<and> set (wt_waits w) \<subseteq> {second .. 30 * second}"
    by (auto simp: assms(5) watch0_def)
  ultimately show ?thesis unfolding at_event_def by blast
qed

text \<open>A controller with one event: the first connection drops at once, the second dial is refused.\<close>

definition ex_event :: unifi_event where
  "ex_event = \<lparr>ev_action = ''update'', ev_model_key = ''camera'', ev_id = ''c1'', ev_new_update = ''u7'',
     ev_fields = [(''state'', JStr ''DISCONNECTED'')]\<rparr>"

definition ex_turn :: "dial_result \<Rightarrow> (instant \<times> ws_frame) list \<Rightarrow> unit turn" where
  "ex_turn r fs =
     \<lparr>tn_srv = ex_controller, tn_dial = (\<lambda>d. if dl_csrf d = Some ''tok1'' then r else DialConn), tn_at = 0,
      tn_frames = (\<lambda>d. if dl_last d = Some ''u0'' then fs else [(1, PeerGone)]), tn_lag = 0, tn_level = WsInteresting,
      tn_others = (\<lambda>ev s. s)\<rparr>"

definition ex_turns :: "unit turn list" where
  "ex_turns =
     [ex_turn DialConn [(1, PeerGone)], ex_turn (DialRefused 401 []) [],
      ex_turn DialConn [(1, BinaryFrame (packet 1 False [123, 1] @ packet 2 False [123, 2])), (2, PongFrame), (3, PeerGone)],
      ex_turn DialConn []]"

lemma ex_frame: "decode_event ex_parse (\<lambda>_. None) (packet 1 False [123, 1] @ packet 2 False [123, 2]) = Inr (Some ex_event)"
  by code_simp

lemma ex_resumes: "\<forall>tn \<in> set ex_turns. resumes ex_parse (\<lambda>_. None) ''u0'' [ex_event] tn"
  by (auto simp: ex_turns_def ex_turn_def resumes_def turn_events_def since_def ex_frame ex_event_def pong_wait_def second_def)

theorem events_handled_exactly_once_witness:
  "let s = (new_bridge [])\<lparr>br_src := set_last_update ''u0'' (new_camera_source [])\<rparr>;
       w = watch_run \<lparr>rc_host = ''h'', rc_verify = False, rc_homegraph = True\<rparr> ex_parse (\<lambda>_. None) ex_turns
             (watch0 (new_session\<lparr>us_logged_in := True, us_csrf := ''tok1''\<rparr>, []) s)
   in wt_handled w = [ex_event] \<and> wt_fires w = 1 \<and> wt_last w = ''u7'' \<and> snd (wt_unifi w) = [login_req] \<and>
      wt_waits w = [second, 2 * second, 4 * second, 8 * second]"
proof -
  let ?s = "(new_bridge [])\<lparr>br_src := set_last_update ''u0'' (new_camera_source [])\<rparr>"
  let ?w = "watch_run \<lparr>rc_host = ''h'', rc_verify = False, rc_homegraph = True\<rparr> ex_parse (\<lambda>_. None) ex_turns
      (watch0 (new_session\<lparr>us_logged_in := True, us_csrf := ''tok1''\<rparr>, []) ?s)"
  have "cs_last_update (br_src ?s) = ''u0''" by (simp add: set_last_update_def)
  moreover have "distinct (''u0'' # map ev_new_update [ex_event])" "[] \<notin> set (''u0'' # map ev_new_update [ex_event])"
    by (simp_all add: ex_event_def)
  ultimately have "\<exists>n \<le> length [ex_event]. wt_handled ?w = take n [ex_event] \<and>
      wt_last ?w = last (''u0'' # map ev_new_update (take n [ex_event])) \<and>
      wt_fires ?w = length (filter wants_refresh (take n [ex_event])) \<and>
      length (wt_waits ?w) = length ex_turns \<and> set (wt_waits ?w) \<subseteq> {second .. 30 * second}"
    using events_handled_exactly_once [OF ex_resumes _ _ _ refl] by blast
  then obtain n where n: "n \<le> 1" "wt_handled ?w = take n [ex_event]" "wt_fires ?w = length (filter wants_refresh (take n [ex_event]))"
    "wt_last ?w = last (''u0'' # map ev_new_update (take n [ex_event]))"
    by auto
  have c: "wt_last ?w = ''u7''" "snd (wt_unifi ?w) = [login_req]" "wt_waits ?w = [second, 2 * second, 4 * second, 8 * second]"
    by code_simp+
  then have "n = 1" using n(1,4) by (cases n) (auto simp: ex_event_def)
  then show ?thesis using n c by (simp add: Let_def wants_refresh_def ex_event_def has_field_def)
qed

text \<open>
  The read deadline does what pings are for. When the peer answers every ping within 35 seconds, all
  that arrives is read and the connection lives on until a minute after its last pong; and whatever
  the peer does, the read loop ends at the latest a minute after the last pong that arrived.
\<close>

theorem pings_keep_connection:
  assumes "sorted (map fst fs)" and "\<forall>f \<in> set fs. start \<le> fst f" and "PeerGone \<notin> snd ` set fs"
    and "answers_pings start fs"
  shows "conn_reads (start + pong_wait) fs = (frame_messages (map snd fs) @ [ReadError], last_pong start fs + pong_wait)"
  using conn_reads_live [of start "[]" fs start] assms by simp

theorem silent_peer_dropped:
  assumes "\<forall>t. (t, PongFrame) \<in> set fs \<longrightarrow> t \<le> q" and "start \<le> q"
  shows "snd (conn_reads (start + pong_wait) fs) \<le> q + 60 * second"
  using conn_reads_end [OF assms(1), of "start + pong_wait"] assms(2) by (simp add: pong_wait_def)

theorem pings_keep_connection_witness:
  "conn_reads (0 + pong_wait) [(ping_time 0 0, PongFrame), (70 * second, TextFrame)] =
     ([OtherMessage, ReadError], 85 * second)"
proof -
  let ?fs = "[(ping_time 0 0, PongFrame), (70 * second, TextFrame)]"
  have "answers_pings 0 ?fs"
  proof (unfold answers_pings_def, intro allI impI)
    fix k assume "\<exists>f \<in> set ?fs. ping_time 0 k + 35 * second < fst f"
    then have "k = 0" by (cases k) (auto simp: ping_time_def ping_period_def second_def)
    then show "\<exists>t. (t, PongFrame) \<in> set ?fs \<and> ping_time 0 k \<le> t \<and> t \<le> ping_time 0 k + 35 * second"
      by (intro exI [of _ "ping_time 0 0"]) (simp add: second_def)
  qed
  from pings_keep_connection [OF _ _ _ this] show ?thesis
    by (simp add: ping_time_def ping_period_def second_def pong_wait_def)
qed

end
