(* ===== verification/Converge.thy ===== *)
theory Converge
  imports Events Bridge
begin

text \<open>
  The control plane around a controller that changes: \<open>Poll\<close>, the goroutine of \<open>watchEvents\<close> and the
  timer's goroutine of \<open>internal/bridge/reconciler.go\<close> in any interleaving, with the refreshes one after
  the other under \<open>refreshMu\<close> and the request of a bootstrap apart from its answer and from the moment
  it is applied. The theorems say that the bridge ends up with what the controller has.
\<close>

section \<open>The state\<close>

text \<open>
  The refresh that holds \<open>refreshMu\<close>: it has sampled the online generation and asked for the
  bootstrap, or it has the answer.
\<close>

datatype refreshing = NoRefresh | Asked nat | Answered nat "string + unifi_camera list \<times> string"

text \<open>
  What the controller would answer now, and its events that \<open>watchEvents\<close> has not handled; the poll
  loop; how many refreshes wait for the lock and the one that has it; the bridge; whether the last
  refresh that ended got no answer; and, for the statements only, whether the controller has changed
  without \<open>watchEvents\<close> getting a word of it since it last answered a bootstrap. The ticker's refresh runs on the poll loop itself, which takes no
  other step until it is over; here it may, so the runs include those of the code.
\<close>

record control =
  cv_now :: "unifi_camera list \<times> string"
  cv_queue :: "unifi_event list"
  cv_poll :: poll
  cv_waiting :: nat
  cv_refresh :: refreshing
  cv_bridge :: bridge_state
  cv_failed :: bool
  cv_missed :: bool

text \<open>The bridge as it starts: the first refresh has been called, nothing has arrived yet.\<close>

definition control0 :: "unifi_camera list \<times> string \<Rightarrow> string list \<Rightarrow> control" where
  "control0 now exposed =
     \<lparr>cv_now = now, cv_queue = [], cv_poll = poll0, cv_waiting = 1, cv_refresh = NoRefresh,
      cv_bridge = new_bridge exposed, cv_failed = False, cv_missed = False\<rparr>"

text \<open>
  The controller changes what it answers and an event of it that calls for a refresh is on its way; or it changes and the
  bridge is not told (the event is lost with its connection, skipped as undecodable, about a field
  the bridge does not watch, or never sent); or it sends some other event; the exposure list is applied; \<open>watchEvents\<close> handles an event; the poll loop takes
  a step, the timer and the ticker calling \<open>Refresh\<close>; and the three parts of a refresh.
\<close>

datatype control_event =
    Changes "unifi_camera list \<times> string" unifi_event
  | ChangesUnseen "unifi_camera list \<times> string"
  | Notifies unifi_event
  | Exposes "string list"
  | Handles
  | Polls poll_event
  | Asks
  | Answers "string option"
  | Installs

inductive control_step :: "reconciler_config \<Rightarrow> control_event \<Rightarrow> control \<Rightarrow> control \<Rightarrow> bool" for rc where
  changes: "wants_refresh ev \<Longrightarrow>
    control_step rc (Changes now ev) y (y\<lparr>cv_now := now, cv_queue := cv_queue y @ [ev]\<rparr>)"
| unseen: "control_step rc (ChangesUnseen now) y (y\<lparr>cv_now := now, cv_missed := True\<rparr>)"
| notifies: "control_step rc (Notifies ev) y (y\<lparr>cv_queue := cv_queue y @ [ev]\<rparr>)"
| exposes: "control_step rc (Exposes ids) y
    (y\<lparr>cv_bridge := (cv_bridge y)\<lparr>br_src := set_allowed ids (br_src (cv_bridge y))\<rparr>\<rparr>)"
| handles: "cv_queue y = ev # evs \<Longrightarrow> handle_event rc ev (cv_bridge y) = (acts, fire, s) \<Longrightarrow>
    (if fire then poll_step (cv_poll y) Fire p else p = cv_poll y) \<Longrightarrow>
    control_step rc Handles y (y\<lparr>cv_queue := evs, cv_poll := p, cv_bridge := s\<rparr>)"
| receives: "poll_step (cv_poll y) Receive p \<Longrightarrow> control_step rc (Polls Receive) y (y\<lparr>cv_poll := p\<rparr>)"
| calls: "e \<in> {TimerExpires, SafetyTick} \<Longrightarrow> poll_step (cv_poll y) e p \<Longrightarrow>
    control_step rc (Polls e) y (y\<lparr>cv_poll := p, cv_waiting := cv_waiting y + 1\<rparr>)"
| asks: "cv_waiting y = Suc n \<Longrightarrow> cv_refresh y = NoRefresh \<Longrightarrow>
    control_step rc Asks y
      (y\<lparr>cv_waiting := n, cv_refresh := Asked (online_generation (br_src (cv_bridge y)))\<rparr>)"
| answers: "cv_refresh y = Asked gen \<Longrightarrow>
    control_step rc (Answers err) y
      (y\<lparr>cv_refresh := Answered gen (case err of Some e \<Rightarrow> Inl e | None \<Rightarrow> Inr (cv_now y)),
        cv_missed := (cv_missed y \<and> err \<noteq> None)\<rparr>)"
| installs: "cv_refresh y = Answered gen ans \<Longrightarrow> refresh rc gen ans (cv_bridge y) = (r, acts, s) \<Longrightarrow>
    control_step rc Installs y (y\<lparr>cv_refresh := NoRefresh, cv_bridge := s, cv_failed := isl ans\<rparr>)"

inductive control_run :: "reconciler_config \<Rightarrow> control_event list \<Rightarrow> control \<Rightarrow> control \<Rightarrow> bool" for rc where
  stay: "control_run rc [] y y"
| move: "control_step rc e y y1 \<Longrightarrow> control_run rc es y1 y2 \<Longrightarrow> control_run rc (e # es) y y2"

inductive_cases control_stepE: "control_step rc e y y'"

text \<open>The specification: the snapshot, the URL table and the registry are those of the bootstrap.\<close>

definition camera_view :: "unifi_camera \<Rightarrow> camera" where
  "camera_view c =
     \<lparr>cam_id = uc_id c, cam_name = uc_name c, cam_manufacturer = ''Ubiquiti'', cam_model = uc_model c,
      cam_online = uc_online c\<rparr>"

definition mirrors :: "reconciler_config \<Rightarrow> unifi_camera list \<Rightarrow> bridge_state \<Rightarrow> bool" where
  "mirrors rc cams s \<longleftrightarrow>
     cs_cameras (br_src s) = map camera_view cams \<and>
     cs_rtsp_urls (br_src s) = (\<lambda>i. Option.bind (camera_of cams i) (stream_entry rc)) \<and>
     set (reg_names (br_reg s)) = {i. \<exists>c. camera_of cams i = Some c \<and> best_rtsp_channel c \<noteq> None}"

section \<open>Nothing is forgotten\<close>

text \<open>No online flag has changed since a generation.\<close>

definition unflipped :: "camera_source \<Rightarrow> nat \<Rightarrow> bool" where
  "unflipped src g \<longleftrightarrow> (\<forall>i. \<not> online_changed_since src i g)"

text \<open>A refresh is going to begin, on account of an event.\<close>

definition due :: "control \<Rightarrow> bool" where
  "due y \<longleftrightarrow> list_ex wants_refresh (cv_queue y) \<or> po_trigger (cv_poll y) \<or> po_armed (cv_poll y) \<or> cv_waiting y > 0"

text \<open>
  The invariant: a refresh is due, or the one that runs will bring what the controller has now, or the
  bridge has it already, or the last refresh failed, or a change was not seen.
\<close>

definition control_ok :: "reconciler_config \<Rightarrow> control \<Rightarrow> bool" where
  "control_ok rc y \<longleftrightarrow>
     reg_ok rc (cv_bridge y) \<and> gens_ok (br_src (cv_bridge y)) \<and>
     (due y \<or>
      (case cv_refresh y of
         NoRefresh \<Rightarrow> cv_failed y \<or> cv_missed y \<or> mirrors rc (fst (cv_now y)) (cv_bridge y)
       | Asked g \<Rightarrow> unflipped (br_src (cv_bridge y)) g
       | Answered g ans \<Rightarrow> isl ans \<or> cv_missed y \<or> ans = Inr (cv_now y) \<and> unflipped (br_src (cv_bridge y)) g))"

lemma control_ok_new [simp]: "control_ok rc (control0 now exposed)"
  by (simp add: control_ok_def control0_def due_def new_bridge_def [of exposed, symmetric]) (simp add: new_bridge_def)

text \<open>An event that does not call for a refresh changes no camera.\<close>

lemma handle_event_silent:
  assumes "handle_event rc ev s = (acts, False, s')"
  shows "cs_cameras (br_src s') = cs_cameras (br_src s) \<and> cs_online_gen (br_src s') = cs_online_gen (br_src s)"
  using assms
  by (auto simp: handle_event_def Let_def decode_online_def has_field_def set_last_update_def
      split: if_splits prod.splits option.splits)

lemma handle_event_gens:
  assumes "handle_event rc ev s = (acts, fire, s')" and "gens_ok (br_src s)"
  shows "gens_ok (br_src s')"
proof -
  obtain s0 where s0: "s0 = s\<lparr>br_src := set_last_update (ev_new_update ev) (br_src s)\<rparr>"
    and c: "s' = s0 \<or> (\<exists>i b a. handle_state_change rc i b s0 = (a, s'))" by (rule handle_event_cases [OF assms(1)])
  have "gens_ok (br_src s0)" using assms(2) by (simp add: s0 gens_ok_def set_last_update_def)
  moreover have "gens_ok (br_src t)" if "handle_state_change rc i b s0 = (a, t)" for i b a t
    using that set_online_gen(1) [OF calculation, of i b]
    by (auto simp: handle_state_change_def Let_def split: prod.splits if_splits)
  ultimately show ?thesis using c by auto
qed

lemma unflipped_now: "gens_ok src \<Longrightarrow> unflipped src (online_generation src)"
  by (simp add: unflipped_def online_changed_since_def online_generation_def gens_ok_def not_less)

lemma merge_view: "unflipped src g \<Longrightarrow> merge_camera prev src g c = camera_view c"
  by (simp add: merge_camera_def unflipped_def camera_view_def Let_def split: option.split)

lemma refresh_mirrors:
  assumes "reg_ok rc s" and "unflipped (br_src s) g" and "refresh rc g (Inr ans) s = (r, acts, s')"
  shows "mirrors rc (fst ans) s'"
proof -
  have "refresh_apply rc g (fst ans) (snd ans) s = (acts, s')" using assms(3) by (cases ans) (simp add: refresh_def)
  note sp = refresh_apply_spec [OF assms(1) this]
  have t: "cs_rtsp_urls (br_src s') = (\<lambda>i. Option.bind (camera_of (fst ans) i) (stream_entry rc))"
    using sp(3) by (simp add: fun_eq_iff)
  have "set (reg_names (br_reg s')) = {i. \<exists>c. camera_of (fst ans) i = Some c \<and> best_rtsp_channel c \<noteq> None}"
    using reg_ok_names [OF sp(1)]
    by (auto simp: t dom_def stream_entry_def Option.bind_eq_Some_conv split: option.splits)
  then show ?thesis using sp(2) t by (simp add: mirrors_def merge_view [OF assms(2)])
qed

lemma refresh_keeps:
  assumes "reg_ok rc s" and "gens_ok (br_src s)" and "refresh rc g ans s = (r, acts, s')"
  shows "reg_ok rc s' \<and> gens_ok (br_src s')"
proof (cases ans)
  case (Inr b)
  then have "refresh_apply rc g (fst b) (snd b) s = (acts, s')" using assms(3) by (cases b) (simp add: refresh_def)
  from refresh_apply_spec(1,6,7) [OF assms(1) this] assms(2) show ?thesis by (simp add: gens_ok_def)
qed (use assms in \<open>simp add: refresh_def\<close>)

lemma control_ok_handles:
  assumes "control_ok rc y" and "cv_queue y = ev # evs" and h: "handle_event rc ev (cv_bridge y) = (acts, fire, s)"
    and p: "if fire then poll_step (cv_poll y) Fire p else p = cv_poll y"
  shows "control_ok rc (y\<lparr>cv_queue := evs, cv_poll := p, cv_bridge := s\<rparr>)"
proof -
  have k: "reg_ok rc s" "gens_ok (br_src s)"
    using handle_event_frame [OF h] handle_event_gens [OF h] assms(1) reg_ok_frame [of rc "cv_bridge y" s]
    by (simp_all add: control_ok_def)
  show ?thesis
  proof (cases fire)
    case True
    then have "po_trigger p" using p by (simp add: poll_step_simps)
    then show ?thesis using k by (simp add: control_ok_def due_def)
  next
    case False
    then have w: "\<not> wants_refresh ev" using handle_event_fire [OF h] by simp
    have "handle_event rc ev (cv_bridge y) = (acts, False, s)" using h False by simp
    note q = handle_event_silent [OF this]
    have "unflipped (br_src s) g = unflipped (br_src (cv_bridge y)) g" for g
      using q by (simp add: unflipped_def online_changed_since_def)
    moreover have "mirrors rc c s = mirrors rc c (cv_bridge y)" for c
      using q handle_event_frame [OF h] by (simp add: mirrors_def)
    moreover have "due (y\<lparr>cv_queue := evs, cv_poll := p, cv_bridge := s\<rparr>) = due y"
      using assms(2) p w False by (simp add: due_def)
    ultimately show ?thesis using assms(1) k by (cases "cv_refresh y") (simp_all add: control_ok_def)
  qed
qed

lemma control_ok_installs:
  assumes "control_ok rc y" and "cv_refresh y = Answered g ans" and r: "refresh rc g ans (cv_bridge y) = (r, acts, s)"
  shows "control_ok rc (y\<lparr>cv_refresh := NoRefresh, cv_bridge := s, cv_failed := isl ans\<rparr>)"
proof -
  have "mirrors rc (fst (cv_now y)) s" if "ans = Inr (cv_now y)" "unflipped (br_src (cv_bridge y)) g"
    using refresh_mirrors [OF _ that(2)] r that(1) assms(1) by (auto simp: control_ok_def)
  with refresh_keeps [OF _ _ r] assms show ?thesis by (auto simp: control_ok_def due_def)
qed

lemma control_ok_step:
  assumes "control_step rc e y y'" and "control_ok rc y"
  shows "control_ok rc y'"
  using assms
proof (cases rule: control_step.cases)
  case (exposes ids)
  let ?s = "(cv_bridge y)\<lparr>br_src := set_allowed ids (br_src (cv_bridge y))\<rparr>"
  have "reg_ok rc ?s" using assms(2) reg_ok_frame [of rc "cv_bridge y" ?s] by (simp add: control_ok_def set_allowed_def)
  moreover have "unflipped (set_allowed ids src) = unflipped src" "gens_ok (set_allowed ids src) = gens_ok src" for src
    by (simp_all add: fun_eq_iff unflipped_def online_changed_since_def set_allowed_def gens_ok_def)
  moreover have "mirrors rc c ?s = mirrors rc c (cv_bridge y)" for c by (simp add: mirrors_def set_allowed_def)
  ultimately show ?thesis using assms(2) unfolding exposes by (cases "cv_refresh y") (simp_all add: control_ok_def due_def)
next
  case (unseen now)
  then show ?thesis using assms(2) by (cases "cv_refresh y") (simp_all add: control_ok_def due_def)
next
  case (asks n)
  then show ?thesis using assms(2) unflipped_now by (simp add: control_ok_def)
next
  case (answers gen err)
  then show ?thesis using assms(2) by (auto simp: control_ok_def due_def split: option.split)
next
  case (receives p)
  then show ?thesis using assms(2) by (simp add: control_ok_def due_def poll_step_simps)
next
  case (handles ev evs acts fire s p)
  show ?thesis unfolding handles(2) by (rule control_ok_handles [OF assms(2) handles(3-5)])
next
  case (installs gen ans r acts s)
  show ?thesis unfolding installs(2) by (rule control_ok_installs [OF assms(2) installs(3,4)])
next
  case (notifies ev)
  then show ?thesis using assms(2) by (cases "cv_refresh y") (auto simp: control_ok_def due_def)
qed (use assms(2) in \<open>simp_all add: control_ok_def due_def\<close>)

lemma control_ok_run: "control_run rc es y y' \<Longrightarrow> control_ok rc y \<Longrightarrow> control_ok rc y'"
  by (induction rule: control_run.induct) (use control_ok_step in blast)+

section \<open>The work that is left\<close>

text \<open>What the bridge does on its own, with a controller that answers.\<close>

fun inner :: "control_event \<Rightarrow> bool" where
  "inner Handles \<longleftrightarrow> True"
| "inner (Polls e) \<longleftrightarrow> e = Receive \<or> e = TimerExpires"
| "inner Asks \<longleftrightarrow> True"
| "inner (Answers err) \<longleftrightarrow> err = None"
| "inner Installs \<longleftrightarrow> True"
| "inner _ \<longleftrightarrow> False"

definition settled :: "control \<Rightarrow> bool" where
  "settled y \<longleftrightarrow> cv_queue y = [] \<and> \<not> po_trigger (cv_poll y) \<and> \<not> po_armed (cv_poll y) \<and> cv_waiting y = 0 \<and> cv_refresh y = NoRefresh"

text \<open>An upper bound on the steps left: an event takes six, from its handling to the end of its refresh.\<close>

definition work :: "control \<Rightarrow> nat" where
  "work y = 6 * length (cv_queue y) + (if po_trigger (cv_poll y) then 5 else 0) + (if po_armed (cv_poll y) then 4 else 0) +
     3 * cv_waiting y + (case cv_refresh y of NoRefresh \<Rightarrow> 0 | Asked _ \<Rightarrow> 2 | Answered _ _ \<Rightarrow> 1)"

lemma work_step: "control_step rc e y y' \<Longrightarrow> inner e \<Longrightarrow> work y' < work y"
  by (erule control_step.cases)
    (auto simp: work_def poll_step_simps begin_refresh_def split: if_splits option.splits)

lemma work_run: "control_run rc es y y' \<Longrightarrow> list_all inner es \<Longrightarrow> length es + work y' \<le> work y"
proof (induction rule: control_run.induct)
  case (move e y y1 es y2)
  then show ?case using work_step [OF move.hyps(1)] by simp
qed simp

lemma inner_now: "control_run rc es y y' \<Longrightarrow> list_all inner es \<Longrightarrow> cv_now y' = cv_now y"
proof (induction rule: control_run.induct)
  case (move e y y1 es y2)
  have "cv_now y1 = cv_now y" using move.hyps(1) move.prems by cases auto
  then show ?case using move by simp
qed simp

lemma inner_progress:
  assumes "\<not> settled y"
  obtains e y' where "inner e" and "control_step rc e y y'"
proof (cases "cv_refresh y")
  case (Asked g)
  then show thesis using that [OF _ control_step.answers [OF Asked, of rc None]] by simp
next
  case (Answered g ans)
  obtain r acts s where "refresh rc g ans (cv_bridge y) = (r, acts, s)" by (metis prod.collapse)
  then show thesis using that [OF _ control_step.installs [OF Answered]] by simp
next
  case NoRefresh
  consider (w) n where "cv_waiting y = Suc n" | (t) "po_trigger (cv_poll y)" | (a) "po_armed (cv_poll y)"
    | (q) ev evs where "cv_queue y = ev # evs"
    using assms NoRefresh by (cases "cv_waiting y"; cases "cv_queue y") (auto simp: settled_def)
  then show thesis
  proof cases
    case w
    then show thesis using that [OF _ control_step.asks [OF w NoRefresh]] by simp
  next
    case t
    then show thesis using that [OF _ control_step.receives [OF poll_step.receive]] by simp
  next
    case a
    then show thesis using that [OF _ control_step.calls [OF _ poll_step.expire]] by simp
  next
    case q
    obtain acts fire s where h: "handle_event rc ev (cv_bridge y) = (acts, fire, s)" by (metis prod.collapse)
    have "\<exists>p. if fire then poll_step (cv_poll y) Fire p else p = cv_poll y" by (cases fire) (simp_all add: poll_step_simps)
    then show thesis using that [OF _ control_step.handles [OF q h]] by auto
  qed
qed

text \<open>A refresh that still gets its answer makes up for the failures and the unseen changes before it.\<close>

definition making_up :: "control \<Rightarrow> bool" where
  "making_up y \<longleftrightarrow> cv_waiting y > 0 \<or>
     (case cv_refresh y of NoRefresh \<Rightarrow> \<not> cv_failed y \<and> \<not> cv_missed y | Asked _ \<Rightarrow> True | Answered _ ans \<Rightarrow> \<not> isl ans \<and> \<not> cv_missed y)"

lemma making_up_step: "control_step rc e y y' \<Longrightarrow> inner e \<Longrightarrow> making_up y \<Longrightarrow> making_up y'"
  by (erule control_step.cases) (auto simp: making_up_def split: refreshing.splits)

lemma making_up_run: "control_run rc es y y' \<Longrightarrow> list_all inner es \<Longrightarrow> making_up y \<Longrightarrow> making_up y'"
  by (induction rule: control_run.induct) (use making_up_step in auto)

lemma settled_mirrors:
  "control_ok rc y \<Longrightarrow> settled y \<Longrightarrow> \<not> cv_failed y \<Longrightarrow> \<not> cv_missed y \<Longrightarrow> mirrors rc (fst (cv_now y)) (cv_bridge y)"
  by (simp add: control_ok_def settled_def due_def)

section \<open>Properties\<close>

text \<open>
  C16: no change that the bridge is told of is forgotten. Whatever cameras come, go and change, and however their
  events, the debounce timer, safety ticks, slow and failing bootstraps and changes of the exposure
  list interleave: when nothing is under way, the last refresh got its answer and no change without an event has come since the
  last answered bootstrap, the snapshot, the URL table and the stream registry are those of the controller's present
  bootstrap, online flags included. So a change without an event is forgotten no longer than until the next
  bootstrap that is answered.
\<close>

theorem settled_bridge_mirrors:
  assumes "control_run rc es (control0 now exposed) y" and "settled y" and "\<not> cv_failed y" and "\<not> cv_missed y"
  shows "mirrors rc (fst (cv_now y)) (cv_bridge y)"
  using control_ok_run [OF assms(1)] settled_mirrors assms(2-4) by simp

text \<open>
  C17: the bridge catches up. From any moment of any run, after a tick of the safety net and with a
  controller that from then on keeps still and answers, every order of the bridge's own steps comes to an end
  after at most \<open>work\<close> steps, not before nothing is under way, and then the bridge mirrors the
  controller, whatever failed and whichever changes went unseen before.
\<close>

theorem bridge_converges:
  assumes "control_run rc es (control0 now exposed) y" and "control_step rc (Polls SafetyTick) y y1"
    and "control_run rc es' y1 y2" and "list_all inner es'"
  shows "length es' \<le> work y1 \<and> cv_now y2 = cv_now y \<and>
    (if settled y2 then mirrors rc (fst (cv_now y)) (cv_bridge y2)
     else \<exists>e y3. inner e \<and> control_step rc e y2 y3)"
proof -
  have y1: "cv_waiting y1 > 0" "cv_now y1 = cv_now y" using assms(2) by (cases; simp)+
  have ok: "control_ok rc y2"
    using control_ok_run [OF assms(3)] control_ok_step [OF assms(2)] control_ok_run [OF assms(1)] by simp
  have "making_up y2" using making_up_run [OF assms(3,4)] y1 by (simp add: making_up_def)
  moreover have n: "cv_now y2 = cv_now y" using inner_now [OF assms(3,4)] y1 by simp
  ultimately have "mirrors rc (fst (cv_now y)) (cv_bridge y2)" if "settled y2"
    using settled_mirrors [OF ok that] that by (simp add: settled_def making_up_def)
  moreover have "\<exists>e y3. inner e \<and> control_step rc e y2 y3" if "\<not> settled y2"
    by (rule inner_progress [OF that]) blast
  ultimately show ?thesis using work_run [OF assms(3,4)] n by auto
qed

section \<open>Witnesses\<close>

text \<open>The steps computed, where they are possible.\<close>

fun control_do :: "reconciler_config \<Rightarrow> control_event \<Rightarrow> control \<Rightarrow> control option" where
  "control_do rc (Changes now ev) y =
     (if wants_refresh ev then Some (y\<lparr>cv_now := now, cv_queue := cv_queue y @ [ev]\<rparr>) else None)"
| "control_do rc (ChangesUnseen now) y = Some (y\<lparr>cv_now := now, cv_missed := True\<rparr>)"
| "control_do rc Handles y =
     (case cv_queue y of
        [] \<Rightarrow> None
      | ev # evs \<Rightarrow> (case handle_event rc ev (cv_bridge y) of (acts, fire, s) \<Rightarrow>
          Some (y\<lparr>cv_queue := evs,
            cv_poll := (if fire then (cv_poll y)\<lparr>po_trigger := True, po_behind := True\<rparr> else cv_poll y), cv_bridge := s\<rparr>)))"
| "control_do rc (Polls Receive) y =
     (if po_trigger (cv_poll y) then Some (y\<lparr>cv_poll := (cv_poll y)\<lparr>po_trigger := False, po_armed := True\<rparr>\<rparr>) else None)"
| "control_do rc (Polls TimerExpires) y =
     (if po_armed (cv_poll y)
      then Some (y\<lparr>cv_poll := begin_refresh ((cv_poll y)\<lparr>po_armed := False\<rparr>), cv_waiting := cv_waiting y + 1\<rparr>) else None)"
| "control_do rc (Polls SafetyTick) y = Some (y\<lparr>cv_poll := begin_refresh (cv_poll y), cv_waiting := cv_waiting y + 1\<rparr>)"
| "control_do rc Asks y =
     (if cv_waiting y > 0 \<and> cv_refresh y = NoRefresh
      then Some (y\<lparr>cv_waiting := cv_waiting y - 1, cv_refresh := Asked (online_generation (br_src (cv_bridge y)))\<rparr>) else None)"
| "control_do rc (Answers err) y =
     (case cv_refresh y of
        Asked gen \<Rightarrow> Some (y\<lparr>cv_refresh := Answered gen (case err of Some e \<Rightarrow> Inl e | None \<Rightarrow> Inr (cv_now y)),
          cv_missed := (cv_missed y \<and> err \<noteq> None)\<rparr>)
      | _ \<Rightarrow> None)"
| "control_do rc Installs y =
     (case cv_refresh y of
        Answered gen ans \<Rightarrow> (case refresh rc gen ans (cv_bridge y) of (r, acts, s) \<Rightarrow>
          Some (y\<lparr>cv_refresh := NoRefresh, cv_bridge := s, cv_failed := isl ans\<rparr>))
      | _ \<Rightarrow> None)"
| "control_do rc _ y = None"

lemma control_do_step: "control_do rc e y = Some y' \<Longrightarrow> control_step rc e y y'"
proof (induction rc e y rule: control_do.induct)
  case (3 rc y)
  then show ?case
    by (auto split: list.splits prod.splits intro!: control_step.handles simp: poll_step_simps)
next
  case (5 rc y)
  then show ?case using control_step.calls [OF _ poll_step.expire, where y = y and rc = rc] by (auto split: if_splits)
next
  case (6 rc y)
  then show ?case using control_step.calls [OF _ poll_step.tick, where y = y and rc = rc] by auto
next
  case (7 rc y)
  then show ?case
    using control_step.asks [where y = y and n = "cv_waiting y - 1" and rc = rc] by (auto split: if_splits)
qed (auto simp del: not_None_eq split: if_splits refreshing.splits prod.splits intro: control_step.intros poll_step.intros)

fun control_does :: "reconciler_config \<Rightarrow> control_event list \<Rightarrow> control \<Rightarrow> control option" where
  "control_does rc [] y = Some y"
| "control_does rc (e # es) y = Option.bind (control_do rc e y) (control_does rc es)"

lemma control_does_run: "control_does rc es y = Some y' \<Longrightarrow> control_run rc es y y'"
  by (induction es arbitrary: y)
    (auto simp: bind_eq_Some_conv intro: control_run.intros control_do_step)

text \<open>
  A controller with camera \<open>a\<close> that gets a second one, \<open>b\<close>, while the first bootstrap is on its way; and
  the same when the bridge is not told while the first bootstrap is on its way, and every bootstrap since then has failed.
\<close>

definition ex_one :: "unifi_camera list \<times> string" where "ex_one = ([ex_uc ''a'' True True], ''u'')"

definition ex_two :: "unifi_camera list \<times> string" where
  "ex_two = ([ex_uc ''a'' False True, ex_uc ''b'' True True], ''v'')"

definition ex_added :: unifi_event where
  "ex_added = \<lparr>ev_action = ''add'', ev_model_key = ''camera'', ev_id = ''b'', ev_new_update = ''v'', ev_fields = []\<rparr>"

definition ex_steps :: "control_event list" where
  "ex_steps =
     [Asks, Answers None, Changes ex_two ex_added, Installs, Handles, Polls Receive, Polls TimerExpires, Asks, Answers None,
      Installs]"

definition ex_missed_steps :: "control_event list" where
  "ex_missed_steps =
     [Asks, Answers None, ChangesUnseen ex_two, Installs, Polls SafetyTick, Asks, Answers (Some ''timeout''), Installs]"

definition ex_control :: control where
  "ex_control = the (control_does ex_rc ex_steps (control0 ex_one []))"

definition ex_missed :: control where
  "ex_missed = the (control_does ex_rc ex_missed_steps (control0 ex_one []))"

lemma ex_control_run:
  "control_run ex_rc ex_steps (control0 ex_one []) ex_control"
  "control_run ex_rc ex_missed_steps (control0 ex_one []) ex_missed"
proof -
  have "control_does ex_rc ex_steps (control0 ex_one []) \<noteq> None"
    "control_does ex_rc ex_missed_steps (control0 ex_one []) \<noteq> None" by code_simp+
  then show "control_run ex_rc ex_steps (control0 ex_one []) ex_control"
    "control_run ex_rc ex_missed_steps (control0 ex_one []) ex_missed"
    using control_does_run by (auto simp: ex_control_def ex_missed_def)
qed

theorem settled_bridge_mirrors_witness:
  "mirrors ex_rc [ex_uc ''a'' False True, ex_uc ''b'' True True] (cv_bridge ex_control)"
proof -
  have "settled ex_control" "\<not> cv_failed ex_control" "\<not> cv_missed ex_control" by code_simp+
  note m = settled_bridge_mirrors [OF ex_control_run(1) this]
  have "fst (cv_now ex_control) = [ex_uc ''a'' False True, ex_uc ''b'' True True]" by code_simp
  then show ?thesis using m by (simp only:)
qed

definition ex_ticked :: control where
  "ex_ticked = the (control_do ex_rc (Polls SafetyTick) ex_missed)"

definition ex_caught_up :: control where
  "ex_caught_up = the (control_does ex_rc [Asks, Answers None, Installs] ex_ticked)"

theorem bridge_converges_witness:
  "map cam_id (cs_cameras (br_src (cv_bridge ex_missed))) = [''a''] \<and> settled ex_missed \<and>
   mirrors ex_rc [ex_uc ''a'' False True, ex_uc ''b'' True True] (cv_bridge ex_caught_up)"
proof -
  have t: "control_step ex_rc (Polls SafetyTick) ex_missed ex_ticked"
    by (rule control_do_step) (simp add: ex_ticked_def)
  have "control_does ex_rc [Asks, Answers None, Installs] ex_ticked \<noteq> None" by code_simp
  then have r: "control_run ex_rc [Asks, Answers None, Installs] ex_ticked ex_caught_up"
    using control_does_run by (auto simp: ex_caught_up_def)
  have e: "settled ex_caught_up" "map cam_id (cs_cameras (br_src (cv_bridge ex_missed))) = [''a'']"
    "settled ex_missed" by code_simp+
  have n: "fst (cv_now ex_missed) = [ex_uc ''a'' False True, ex_uc ''b'' True True]" by code_simp
  have "list_all inner [Asks, Answers None, Installs]" by simp
  from bridge_converges [OF ex_control_run(2) t r this] e n show ?thesis by (simp only: if_True simp_thms)
qed

end
