(* ===== verification/TestCamera.thy ===== *)
theory TestCamera
  imports HlsSession Demux
begin

text \<open>
  The fake camera of the integration tests, \<open>internal/rtsptest/camera.go\<close>, and what the two muxers
  make of its feed: the parameter sets, the frames and time stamps of the streaming loop, the PLAY
  counter, and theorems that the MP4 demultiplexer and the HLS callback deliver the feed frame by
  frame, for any length of the test. The RTSP server and TLS are gortsplib's and Go's.
\<close>

section \<open>The camera\<close>

definition test_sps :: bytes where
  "test_sps =
     [0x67, 0x42, 0xc0, 0x28, 0xd9, 0x00, 0x78, 0x02, 0x27, 0xe5, 0x84, 0x00, 0x00, 0x03, 0x00, 0x04,
      0x00, 0x00, 0x03, 0x00, 0xf0, 0x3c, 0x60, 0xc9, 0x20]"

definition test_pps :: bytes where "test_pps = [0x68, 0xce, 0x3c, 0x80]"

record test_camera =
  tc_url :: string
  tc_plays :: nat

text \<open>\<open>OnDescribe\<close> and \<open>OnSetup\<close> answer OK with the one stream; \<open>OnPlay\<close> counts.\<close>

definition on_describe :: "test_camera \<Rightarrow> rtsp_format list list" where
  "on_describe c = [[H264Format test_sps test_pps]]"

definition on_play :: "test_camera \<Rightarrow> test_camera" where
  "on_play c = c\<lparr>tc_plays := tc_plays c + 1\<rparr>"

text \<open>A client that dials it: every call is answered, as \<open>Start\<close> has set the server up.\<close>

definition dial_camera :: "test_camera \<Rightarrow> rtsp_io \<times> test_camera" where
  "dial_camera c =
     (\<lparr>io_parse = None, io_start = None, io_describe = Inr (on_describe c), io_setup = None, io_decoder = None,
       io_play = None, io_track = None\<rparr>, on_play c)"

text \<open>
  The streaming loop: frame \<open>k\<close> and its time stamp; \<open>b\<close> is what the RTP encoder puts into the
  packets before \<open>p.Timestamp += ts\<close>.
\<close>

definition test_au :: "nat \<Rightarrow> bytes list" where
  "test_au k =
     (if k mod 15 = 0 then [test_sps, test_pps, [0x65, 0x88, 0x84, word_of_nat k]]
      else [[0x41, 0x9a, word_of_nat k]])"

definition test_ts :: "nat \<Rightarrow> u32" where "test_ts k = word_of_nat (k * 3000)"

definition test_feed :: "u32 \<Rightarrow> nat \<Rightarrow> timed_au list" where
  "test_feed b n = map (\<lambda>k. \<lparr>tau_ts = b + test_ts k, tau_au = test_au k\<rparr>) [0 ..< n]"

section \<open>Lemmas\<close>

lemma test_units [simp]:
  "is_sps test_sps" "is_pps test_pps" "\<not> is_pps test_sps" "\<not> is_sps test_pps" "\<not> is_idr test_sps" "\<not> is_idr test_pps"
  "test_sps \<noteq> []" "test_pps \<noteq> []"
  by (simp_all add: is_sps_def is_pps_def is_idr_def nalu_type_def test_sps_def test_pps_def)

lemma test_slices [simp]:
  "is_idr [0x65, 0x88, 0x84, x]" "\<not> is_sps [0x65, 0x88, 0x84, x]" "\<not> is_pps [0x65, 0x88, 0x84, x]"
  "\<not> is_idr [0x41, 0x9a, x]" "\<not> is_sps [0x41, 0x9a, x]" "\<not> is_pps [0x41, 0x9a, x]"
  by (simp_all add: is_sps_def is_pps_def is_idr_def nalu_type_def)

lemma test_au_idr [simp]: "contains_idr (test_au k) \<longleftrightarrow> k mod 15 = 0"
  by (simp add: contains_idr_iff test_au_def)

lemma inject_test_au [simp]: "inject_mp4 (test_au k) test_sps test_pps = test_au k"
  "inject_hls (test_au k) test_sps test_pps = test_au k"
  by (simp_all add: inject_mp4_def inject_hls_def scan_types_eq test_au_def)

lemma test_feed_stable: "stable_sets test_sps test_pps (test_feed b n)"
  by (auto simp: stable_sets_def test_feed_def test_au_def split: if_splits)

text \<open>A steady feed: every fragment lasts one tick.\<close>

definition steady :: "u32 \<Rightarrow> u32 list \<Rightarrow> bool" where
  "steady d ts \<longleftrightarrow> successively (\<lambda>a b. b - a = d) ts"

lemma demux_step_steady:
  assumes "pending_inv d" and "demux_step spare init_ok d t = (d', as)" and "held d \<noteq> None \<Longrightarrow> tau_ts t - last_raw_ts (clock d) = \<delta>"
    and "0 < sint \<delta>"
  shows "last_raw_ts (clock d') = tau_ts t \<and> list_all (\<lambda>f. frag_duration f = \<delta>) (fragments as)"
proof (cases "held d")
  case None
  with assms(2) show ?thesis by (auto simp: demux_step_def Let_def rtp_tick_def split: prod.splits if_splits)
next
  case (Some p)
  with assms(1) have p: "pending_pts p = pts (clock d)" "have_first (clock d)" "init_built d"
    by (auto simp: pending_inv_def)
  have g: "gap_duration (pts (rtp_tick (clock d) (tau_ts t))) (pts (clock d)) = sint \<delta>"
    using p(2) assms(3,4) Some by (simp add: gap_duration_def rtp_tick_def Let_def sint_scast_32)
  show ?thesis
    using assms(2) Some p g by (auto simp: demux_step_def Let_def rtp_tick_def split: prod.splits if_splits)
qed

lemma demux_run_steady:
  assumes "demux_run spare init_ok d taus = (d', as)" and "pending_inv d"
    and "steady \<delta> (map tau_ts taus)" and "taus \<noteq> [] \<Longrightarrow> held d \<noteq> None \<Longrightarrow> tau_ts (hd taus) - last_raw_ts (clock d) = \<delta>"
    and "0 < sint \<delta>"
  shows "list_all (\<lambda>f. frag_duration f = \<delta>) (fragments as)"
  using assms
proof (induction taus arbitrary: d as)
  case (Cons t taus)
  obtain d1 as1 where step: "demux_step spare init_ok d t = (d1, as1)" by fastforce
  obtain as2 where run: "demux_run spare init_ok d1 taus = (d', as2)" and as: "as = as1 @ as2"
    using Cons.prems(1) step by (auto split: prod.splits)
  have "held d \<noteq> None \<Longrightarrow> tau_ts t - last_raw_ts (clock d) = \<delta>" using Cons.prems(4) by simp
  note s = demux_step_steady [OF Cons.prems(2) step this Cons.prems(5)]
  have "list_all (\<lambda>f. frag_duration f = \<delta>) (fragments as2)"
  proof (rule Cons.IH [OF run])
    show "pending_inv d1" using demux_step_timeline [OF Cons.prems(2) step] by blast
    show "steady \<delta> (map tau_ts taus)" using Cons.prems(3) by (cases taus) (auto simp: steady_def)
    show "tau_ts (hd taus) - last_raw_ts (clock d1) = \<delta>" if "taus \<noteq> []"
      using Cons.prems(3) s that by (cases taus) (auto simp: steady_def)
  qed (rule Cons.prems(5))
  with s show ?case by (simp add: as)
qed simp

lemma test_feed_steady: "steady 3000 (map tau_ts (test_feed b n))"
proof (induction n)
  case (Suc n)
  have "test_ts (Suc m) - test_ts m = 3000" for m by (simp add: test_ts_def)
  then show ?case
    using Suc by (cases n) (simp_all add: steady_def test_feed_def successively_append_iff last_map)
qed (simp add: steady_def test_feed_def)

text \<open>A time line of equal durations.\<close>

lemma timeline_equal:
  "timeline b k fs \<Longrightarrow> list_all (\<lambda>f. frag_duration f = d) fs \<Longrightarrow>
   i < length fs \<Longrightarrow> frag_base (fs ! i) = b + of_nat i * ucast d \<and> frag_seq (fs ! i) = k + of_nat i + 1"
  by (induction b k fs arbitrary: i rule: timeline.induct) (auto simp: nth_Cons algebra_simps split: nat.split)

lemma butlast_upt: "butlast [0 ..< n] = [0 ..< n - 1]"
  by (cases n) simp_all

definition ex_camera :: test_camera where
  "ex_camera = \<lparr>tc_url = ''rtsps://127.0.0.1:8554/cam'', tc_plays = 0\<rparr>"

lemma dial_camera_connects:
  "connect (fst (dial_camera c)) = (Inr (test_sps, test_pps), [Opened]) \<and> tc_plays (snd (dial_camera c)) = tc_plays c + 1"
  by (simp add: connect_def dial_camera_def on_describe_def on_play_def)

section \<open>Properties\<close>

text \<open>
  What the integration tests look for, for feeds of any length. A client that dials the test camera
  stays connected, with the camera's parameter sets, and is counted. From \<open>n\<close> frames the MP4
  demultiplexer then publishes the init segment of those sets first and after it fragment
  number \<open>k + 1\<close> for each frame \<open>k\<close> but the last: the frame as it was sent, a sync sample for every
  fifteenth, starting at \<open>3000 * k\<close> ticks and lasting 3000, however often the 32-bit time stamps
  wrap on the way.
\<close>

theorem test_feed_fragments:
  assumes "connect (fst (dial_camera c)) = (Inr (sps, pps), evs)" and "init_ok sps pps" and "0 < n"
    and "as = snd (demux_run spare init_ok (demux0 spare sps pps) (test_feed b n))"
  shows "left_open evs \<and> tc_plays (snd (dial_camera c)) = tc_plays c + 1 \<and>
    as = PublishInit test_sps test_pps # map Emit (fragments as) \<and>
    fragments as = map (\<lambda>k. \<lparr>frag_au = test_au k, frag_base = 3000 * of_nat k, frag_seq = of_nat k + 1,
      frag_duration = 3000, frag_is_idr = (k mod 15 = 0)\<rparr>) [0 ..< n - 1]"
proof -
  have dial: "sps = test_sps" "pps = test_pps" "evs = [Opened]" "tc_plays (snd (dial_camera c)) = tc_plays c + 1"
    using assms(1) dial_camera_connects [of c] by simp_all
  note as = assms(2-4) [unfolded dial(1,2)]
  obtain d where run: "demux_run spare init_ok (demux0 spare test_sps test_pps) (test_feed b n) = (d, as)"
    using as(3) by (metis prod.collapse)
  have ne: "test_feed b n \<noteq> []" using as(2) by (simp add: test_feed_def)
  note em = demux_emits [OF test_units(7,8) as(1) test_feed_stable ne as(3)]
  have "pending_inv (demux0 spare test_sps test_pps)" by (simp add: pending_inv_def demux0_def)
  from timeline_run [OF run this] demux_run_steady [OF run this test_feed_steady]
  have tl: "timeline 0 0 (fragments as)" "list_all (\<lambda>f. frag_duration f = 3000) (fragments as)"
    by (simp_all add: demux0_def)
  have "map g (butlast (test_feed b n)) = map (\<lambda>k. g \<lparr>tau_ts = b + test_ts k, tau_au = test_au k\<rparr>) [0 ..< n - 1]" for g :: "timed_au \<Rightarrow> 'x"
    by (simp add: test_feed_def map_butlast [symmetric] butlast_upt)
  from em [unfolded this]
  have f: "map frag_au (fragments as) = map test_au [0 ..< n - 1]"
    "map frag_is_idr (fragments as) = map (\<lambda>k. k mod 15 = 0) [0 ..< n - 1]" by simp_all
  have l: "length (fragments as) = n - 1" using arg_cong [OF f(1), of length] by simp
  have "fragments as = map (\<lambda>k. \<lparr>frag_au = test_au k, frag_base = 3000 * of_nat k, frag_seq = of_nat k + 1,
      frag_duration = 3000, frag_is_idr = (k mod 15 = 0)\<rparr>) [0 ..< n - 1]"
  proof (rule nth_equalityI)
    fix i assume i: "i < length (fragments as)"
    have "frag_au (fragments as ! i) = test_au i" "frag_is_idr (fragments as ! i) = (i mod 15 = 0)"
      using arg_cong [OF f(1), of "\<lambda>xs. xs ! i"] arg_cong [OF f(2), of "\<lambda>xs. xs ! i"] i l by simp_all
    moreover have "frag_duration (fragments as ! i) = 3000" using tl(2) i by (simp add: list_all_length)
    ultimately show "fragments as ! i = map (\<lambda>k. \<lparr>frag_au = test_au k, frag_base = 3000 * of_nat k, frag_seq = of_nat k + 1,
      frag_duration = 3000, frag_is_idr = (k mod 15 = 0)\<rparr>) [0 ..< n - 1] ! i"
      using timeline_equal [OF tl i] i l by (intro fragment.equality) simp_all
  qed (simp add: l)
  then show ?thesis using em dial(3,4) by (simp add: left_open_def)
qed

theorem test_feed_fragments_witness:
  "map (\<lambda>f. (frag_seq f, frag_base f, frag_is_idr f, frag_au f)) (fragments (snd (demux_run (\<lambda>_. 0) (\<lambda>_ _. True)
     (demux0 (\<lambda>_. 0) test_sps test_pps) (test_feed 0xffffff00 3)))) =
   [(1, 0, True, [test_sps, test_pps, [0x65, 0x88, 0x84, 0]]), (2, 3000, False, [[0x41, 0x9a, 1]])]"
proof -
  have u: "[0 ..< 3 - 1] = [0, 1 :: nat]" and i: "test_au 0 = [test_sps, test_pps, [0x65, 0x88, 0x84, 0]]" "test_au 1 = [[0x41, 0x9a, 1]]"
    by (simp_all add: upt_rec test_au_def)
  note f = test_feed_fragments [where c = ex_camera and n = 3 and spare = "\<lambda>_. 0" and b = "0xffffff00" and init_ok = "\<lambda>_ _. True",
    OF dial_camera_connects [THEN conjunct1] TrueI _ refl, THEN conjunct2, THEN conjunct2, THEN conjunct2, unfolded u]
  show ?thesis by (subst f) (simp_all add: i [simplified])
qed

text \<open>
  The HLS callback on the same feed: every frame is written as it was sent, at \<open>3000 * k\<close> ticks.
\<close>

theorem test_feed_on_hls:
  assumes "3000 * int n < 2 ^ 63" and "0 < n"
  shows "map (apfst sint) (hls_packets test_sps test_pps (map (\<lambda>t. (tau_ts t, Some (tau_au t))) (test_feed b n)) rtp_clock0) =
    map (\<lambda>k. (3000 * int k, test_au k)) [0 ..< n]"
proof -
  let ?ps = "map (\<lambda>k. (uint b + 3000 * int k, Some (test_au k))) [1 ..< n]"
  have feed: "map (\<lambda>t. (tau_ts t, Some (tau_au t))) (test_feed b n) =
      (b, Some (test_au 0)) # map (apfst word_of_int) ?ps"
    using assms(2) by (simp add: test_feed_def upt_conv_Cons test_ts_def mult.commute of_nat_mult del: upt_Suc)
  let ?c = "rtp_tick rtp_clock0 (word_of_int (uint b))"
  have c: "have_first ?c" "last_raw_ts ?c = word_of_int (uint b)" "pts ?c = word_of_int (uint b - uint b)"
    by (simp_all add: rtp_tick_def rtp_clock0_def)
  have flt: "[t. (t, Some au) \<leftarrow> ?ps] = map (\<lambda>k. uint b + 3000 * int k) [1 ..< n]"
    and aus: "[(t - uint b, inject_hls au test_sps test_pps). (t, Some au) \<leftarrow> ?ps] = map (\<lambda>k. (3000 * int k, test_au k)) [1 ..< n]"
    by (induction n) simp_all
  have "successively (\<lambda>a b. - (2 ^ 31) \<le> b - a \<and> b - a < 2 ^ 31) (map (\<lambda>k. uint b + 3000 * int k) [i ..< n])" for i
    by (simp add: successively_map successively_conv_nth)
  from this [of 0] have ss: "small_steps (uint b # [t. (t, Some au) \<leftarrow> ?ps])"
    unfolding flt small_steps_def using assms(2) by (simp add: upt_conv_Cons [of 0] del: upt_Suc)
  have "list_all (\<lambda>(t, dec). - (2 ^ 63) \<le> t - uint b \<and> t - uint b < 2 ^ 63) ?ps"
    using assms(1) by (auto simp: list_all_iff)
  note timed = hls_packets_timed [OF this ss c, of test_sps test_pps]
  have tail: "map (apfst sint) (hls_packets test_sps test_pps (map (apfst word_of_int) ?ps) ?c) =
      map (\<lambda>k. (3000 * int k, test_au k)) [1 ..< n]"
    using timed unfolding aus .
  have head: "hls_packet test_sps test_pps (b, Some (test_au 0)) rtp_clock0 = (Some (0, test_au 0), ?c)"
    by (simp add: hls_packet_def rtp_tick_def rtp_clock0_def)
  show ?thesis
    unfolding feed using tail head assms(2)
    by (simp add: upt_conv_Cons [of 0] del: upt_Suc)
qed

end
