(* ===== verification/Spec2Isabelle.thy ===== *)
theory Spec2Isabelle
  imports PublicServer ConsentPage Mp4Server HlsServer RtspFeed Wiring Converge TestCamera Discovery
begin

text \<open>
  A verification library of the UniFi Protect to Google Home bridge, the Go program under
  \<open>src/unifi-protect-google-home\<close>. The bridge logs in to a UniFi Protect controller, offers its cameras
  to Google Home as Smart Home devices, and serves their video to Google's players as WebRTC, HLS and
  progressive MP4. File names below are relative to that directory.

  \<^bold>\<open>Parts, and where they are modelled.\<close>

  \<^item> Basics. \<open>Prelude\<close> (types, collections of facts, generic lemmas), \<open>GoStrings\<close> and \<open>Http\<close> (what the
    code calls of \<open>strings\<close>, \<open>strconv\<close>, \<open>net/http\<close>, \<open>net/url\<close> and of decoded JSON), \<open>Crypto\<close> (SHA-256,
    HMAC, base64url, hex, and the keys of \<open>internal/bridge/secrets.go\<close>).
  \<^item> Credentials. \<open>Tokens\<close>: the contract of an expiring credential (locale \<open>expiring_credential\<close>) and the
    signed stream URLs of \<open>internal/api/server.go\<close>. \<open>OAuth\<close>: \<open>internal/oauth/server.go\<close>, the consent
    page with its failure tables, the codes and the bearer tokens; \<open>ConsentPage\<close>: the text of that page
    and, as a specification, what a browser makes of it.
  \<^item> The public API. \<open>Api\<close>: routes, signaling, HLS and MP4 handlers of \<open>internal/api/server.go\<close>;
    \<open>PublicServer\<close>: the listener as a whole, over everything behind it. \<open>Intents\<close>: SYNC, QUERY and
    EXECUTE of \<open>internal/ghome/intents.go\<close> over a source of cameras (locale \<open>camera_feed\<close>: what an
    unexposed camera must not get).
  \<^item> The cameras. \<open>CameraSource\<close>: the snapshot, the allow-list and the RTSP table of
    \<open>internal/bridge/source.go\<close>. \<open>Unifi\<close>: the client of \<open>internal/unifi\<close>. \<open>Reconciler\<close>: \<open>Refresh\<close> and
    the WebSocket events of \<open>internal/bridge/reconciler.go\<close>; \<open>Watch\<close>: its loops; \<open>Events\<close>: the loop over
    one connection of the event stream, with the pings of \<open>internal/unifi/events.go\<close>; \<open>Converge\<close>: all of
    these in any interleaving with a controller that changes. \<open>Discovery\<close>: \<open>internal/discovery\<close>.
  \<^item> The media paths. \<open>Streams\<close>: the reference-counted streams of \<open>internal/streams\<close> over a producer (a
    locale). \<open>Rtsp\<close>: the producer of \<open>internal/rtsp/client.go\<close>, which is interpreted as one. \<open>WebRtc\<close>:
    sessions of \<open>internal/webrtc\<close>. \<open>H264\<close>: parameter sets, Annex-B and RTP time, shared by all paths.
    \<open>MuxServer\<close>: the muxer tables of \<open>internal/hls/server.go\<close> and \<open>internal/mp4/muxer.go\<close> over a lookup
    of streams (locale \<open>stream_lookup\<close>), and what servers over such a table share (locale
    \<open>muxer_fleet\<close>). \<open>HlsSession\<close> and \<open>Mp4Session\<close>: one muxer's life. \<open>Demux\<close>: the fragments of an MP4
    session; \<open>Mp4Live\<close>: their way through the bounded channels of the demultiplexer and of the viewers
    (locale \<open>lossy_channel\<close>); \<open>Mp4Server\<close> and \<open>HlsServer\<close>: the tables over the muxers and the requests
    between their locks. \<open>RtspFeed\<close>: from the packets of the camera to the samples of the WebRTC track.
    \<open>TestCamera\<close>: the feed of \<open>internal/rtsptest\<close> through both muxers.
  \<^item> Home Graph. \<open>HomeGraph\<close>: \<open>internal/ghome/homegraph.go\<close> and the startup SYNC of
    \<open>internal/bridge/setupglue.go\<close>.
  \<^item> Configuration. \<open>Config\<close>: \<open>internal/config\<close> and the persisted secret. \<open>Setup\<close>: the page behind Home
    Assistant's ingress, \<open>internal/setup\<close>, with the appliers and the status of \<open>setupglue.go\<close>;
    \<open>SetupServer\<close>: the server as a whole, its routes, status page and late wiring.
  \<^item> The whole. \<open>Bridge\<close>: source, reconciler and stream servers as \<open>cmd/bridge/main.go\<close> wires them, in
    runs of events in any order; \<open>System\<close>: the same with signaling handlers under way and WebRTC
    sessions. \<open>Startup\<close>: \<open>run\<close>, from the options to the exit code, with the requests that \<open>Shutdown\<close>
    catches; \<open>Wiring\<close>: the order in which it wires the parts, while the setup page is served. This
    theory: the way from an EXECUTE answer to a muxer.

  \<^bold>\<open>How the code is modelled.\<close> A struct is a record, a handler a function from the request and the state
  to the response and the state, an error a value of a sum or option type. Where goroutines interleave,
  an inductive relation or a list of events has a step for each critical section of a mutex:
  \<open>consent_step\<close>, \<open>rtsp_step\<close>, \<open>mp4_step\<close>, \<open>hls_step\<close>, \<open>live_step\<close>, \<open>server_step\<close>, \<open>hls_server_step\<close>,
  \<open>poll_step\<close>, \<open>control_step\<close>, \<open>watch_turn\<close>, \<open>whole_step\<close> (for signaling), \<open>end_step\<close> and \<open>boot_step\<close>
  (for the setup page and the callback). Elsewhere a step is larger than a critical section:

  \<^item> \<open>oauth_run\<close> takes a request to the account linking in one step; \<open>consent_step\<close> has the two critical
    sections of the consent page apart, for \<open>consent_budget_race\<close>.
  \<^item> \<open>sys_step\<close> takes a request to a stream server in one step, from the test of \<open>closing\<close> to \<open>muxerFor\<close>;
    \<open>end_step\<close> has them apart where it matters, at the shutdown, and \<open>server_step\<close> and \<open>hls_server_step\<close>
    have the rest of a request apart, with the muxer that a request in flight starts again.
  \<^item> \<open>refresh_apply\<close> applies a bootstrap in one step, although \<open>Refresh\<close> writes the registry and the URL
    table in critical sections of their own; in between, a stream may be registered whose URL is not yet
    in the table.
  \<^item> \<open>negotiate\<close> is one step; \<open>public_serve\<close> takes a request to the public listener in one go.
  \<^item> \<open>unifi_do\<close> counts the calls of \<open>http.Client.Do\<close>, not the redirects that one of them may follow.

  A call that leaves the program (Home Graph, the RTSP client, the Supervisor) is a value the operation
  emits or a parameter that answers. Time is an \<open>int\<close> of nanoseconds, RTP time a 32-bit word and its
  unwrapped form a 64-bit word; the OAuth expiry and token lifetimes are 64-bit seconds, with the wrap
  written out.

  \<^bold>\<open>Parameters.\<close> gortsplib, gohlslib, mediacommon and pion, the controller, Google and the Supervisor,
  JSON and URL parsing, zlib, RSA, PEM and the file system are arguments of the definitions that use
  them. A decoded JSON object is an association list whose keys are matched exactly and once.

  \<^bold>\<open>What is shown.\<close> Safety of credentials: the consent page's budget for requests one after the other,
  single use of codes, a page whose markup no request can change, what a token is and opens, keys of one
  secret, and what a request from the internet can reach at all. Exposure: a hidden camera is invisible,
  its muxers are closed and its viewers drain, every muxer handed out belongs to an exposed camera and
  dials the URL of the table, and a WebRTC session is opened only by a handler that found the camera
  exposed. The control plane: a refresh mirrors the controller, and what it reports is stated exactly;
  every event is handled once, no change the bridge is told of is forgotten and it catches up with the
  others within a computed number of steps after a safety tick; pings keep a live connection and drop a
  silent one, a late answer does not undo a newer event, and the loops back off. Sessions: clients and
  muxers are open exactly while somebody needs them and closed at exit, but for a request that
  \<open>Shutdown\<close> catches in between; channels are used safely, every frame arrives in order and at its time
  on all three paths, and a viewer that stalls loses its own fragments only. The setup page: who reaches
  it, what it stores, and when the live bridge and a restarted one agree. Robustness: requests, retries
  and waits are bounded, and starting fails before anything is public.

  \<^bold>\<open>Bounds and fuel.\<close> No definition uses fuel. \<open>wait_init\<close> and \<open>parse_fields\<close> recurse on a measure (the
  time to the deadline, the length of the rest); loops that may run forever are step relations.

  \<^bold>\<open>Defects found.\<close> Each is a theorem beside the component: \<open>consent_budget_race\<close>,
  \<open>pending_unit_gets_next_sps\<close>, \<open>rtsp_backoff_bound\<close>, \<open>stale_read_loop_stops_new_session\<close>,
  \<open>removed_camera_without_stream_not_synced\<close>, \<open>refresh_loses_late_flip\<close>, \<open>muxer_opened_after_shutdown\<close>,
  \<open>overlapping_saves_lose_one\<close>, \<open>silent_scan_sends_once\<close>, \<open>own_echo_is_listed\<close>,
  \<open>ws_level_parsers_disagree\<close>, \<open>waiting_viewer_mixes_sessions\<close>, \<open>bridge_ends_no_session\<close>,
  \<open>request_in_flight_outlives_prune\<close>, \<open>list_posted_while_starting_is_not_applied\<close>,
  \<open>overlapping_lists_diverge\<close>.

  \<^bold>\<open>Not modelled.\<close> Log lines, CORS and security headers, write deadlines, response body limits (except
  where a limit decides a result), the setup page's HTML, flags, the grace period of the HTTP servers'
  shutdown, the marshalling of fMP4 boxes, and the certificate of the test camera.
\<close>

section \<open>From the intent to the stream\<close>

lemma muxer_for_stream:
  assumes "mux_ok s" and "muxer_for lookup cam s = (Some x, s')"
  shows "mx_stream x = cam"
proof -
  have "map_of (ms_muxers s') cam = Some x" using muxer_for_result [OF assms(2)] by simp
  then have "(cam, x) \<in> set (ms_muxers s')" by (rule map_of_SomeD)
  then show ?thesis using mux_ok_muxer_for [OF assms] by (auto simp: mux_ok_def)
qed

lemma hls_serve_file:
  assumes "mux_ok s" and "\<not> ms_closing s" and "req_method r = ''GET''" and "path r = ''/'' @ cam @ ''/'' @ fname"
    and "cam \<noteq> []" and "CHR ''/'' \<notin> set cam"
  shows "case lookup cam of
      None \<Rightarrow> fst (hls_serve lookup r s) = Inl (http_error ''unknown camera'' 404)
    | Some e \<Rightarrow> \<exists>x. fst (hls_serve lookup r s) = Inr (x, ''/'' @ fname) \<and> mx_stream x = cam \<and>
        (mx_url x, mx_verify x) = e"
proof -
  have "cut (trim_prefix (path r) ''/'') CHR ''/'' = (cam, fname, True)"
    using assms(4,6) trim_prefix_append [of "''/''" "cam @ ''/'' @ fname"] by simp
  moreover obtain q s' where m: "muxer_for lookup cam s = (q, s')" by fastforce
  ultimately show ?thesis
    using assms(2,3,5) muxer_for_result [OF m] muxer_for_stream [OF assms(1), of lookup cam _ s']
    by (auto simp: hls_serve_def split: option.splits)
qed

text \<open>
  C12: what EXECUTE hands out plays. A player given an HLS URL for a camera, whose id has no slash,
  reaches with any file next to the playlist, within the hour and in whatever state the bridge is then,
  the muxer of that very camera, dialing the URL the registry has for it at that moment; and when the
  camera has been hidden or has lost its stream since, it gets 404 and no muxer.
\<close>

theorem executed_hls_stream_plays:
  assumes "stream_for (source_of base key now src) HLS i = StreamHLS i' u"
    and "i \<noteq> []" and "CHR ''/'' \<notin> set i" and "sane_clock now" and "unix t \<le> unix now + 3600"
    and "y = sys_run rc es (new_sys exposed)" and "\<not> ms_closing (sys_hls y)" and "req_method r = ''GET''"
    and "lookup = rtsp_url_of (br_src (sys_bridge y))"
  shows "i' = i \<and> is_allowed src i \<and>
    (\<exists>dir. u = trim_right base CHR ''/'' @ ''/hls/'' @ dir @ ''index.m3u8'' \<and>
      (\<forall>fname. \<exists>r'. hls_handler key t (r\<lparr>path := ''/hls/'' @ dir @ fname\<rparr>) = Inr r' \<and>
        (case lookup i of
           None \<Rightarrow> fst (hls_serve lookup r' (sys_hls y)) = Inl (http_error ''unknown camera'' 404)
         | Some e \<Rightarrow> \<exists>x. fst (hls_serve lookup r' (sys_hls y)) = Inr (x, ''/'' @ fname) \<and> mx_stream x = i \<and>
             (mx_url x, mx_verify x) = e)))"
proof -
  have i: "i' = i" "is_allowed src i" "u = hls_url base key now i"
    using assms(1) by (auto simp: source_of_def split: sum.splits if_splits)
  have ok: "mux_ok (sys_hls y)" using sys_ok_run [OF sys_ok_new, of rc es exposed] by (simp add: assms(6) sys_ok_def)
  obtain dir where d: "hls_url base key now i = trim_right base CHR ''/'' @ ''/hls/'' @ dir @ ''index.m3u8''"
    and h: "\<And>fname. hls_handler key t (r\<lparr>path := ''/hls/'' @ dir @ fname\<rparr>) = Inr (r\<lparr>path := ''/'' @ i @ ''/'' @ fname\<rparr>)"
    using hls_url_served [OF assms(3,4), of base key t r] assms(5) by auto
  have *: "case lookup i of
           None \<Rightarrow> fst (hls_serve lookup (r\<lparr>path := ''/'' @ i @ ''/'' @ fname\<rparr>) (sys_hls y)) =
             Inl (http_error ''unknown camera'' 404)
         | Some e \<Rightarrow> \<exists>x. fst (hls_serve lookup (r\<lparr>path := ''/'' @ i @ ''/'' @ fname\<rparr>) (sys_hls y)) = Inr (x, ''/'' @ fname) \<and>
             mx_stream x = i \<and> (mx_url x, mx_verify x) = e" for fname
    by (rule hls_serve_file) (use assms(2,3,7,8) ok in simp_all)
  have u: "u = trim_right base CHR ''/'' @ ''/hls/'' @ dir @ ''index.m3u8''" using i(3) d by simp
  show ?thesis by (intro conjI exI allI) (rule i u h *)+
qed

theorem executed_hls_stream_plays_witness:
  "\<exists>u dir x. stream_for (source_of ''https://b'' [1] 0 (new_camera_source [])) HLS ''a'' = StreamHLS ''a'' u \<and>
     u = ''https://b/hls/'' @ dir @ ''index.m3u8'' \<and>
     (\<exists>r'. hls_handler [1] 0 ((ex_get [])\<lparr>path := ''/hls/'' @ dir @ ''seg0.ts''\<rparr>) = Inr r' \<and>
       fst (hls_serve (rtsp_url_of (br_src (sys_bridge (sys_run ex_rc ex_events (new_sys []))))) r'
         (sys_hls (sys_run ex_rc ex_events (new_sys [])))) = Inr (x, ''/seg0.ts''))"
proof -
  let ?y = "sys_run ex_rc ex_events (new_sys [])"
  let ?l = "rtsp_url_of (br_src (sys_bridge ?y))"
  obtain u where u: "stream_for (source_of ''https://b'' [1] 0 (new_camera_source [])) HLS ''a'' = StreamHLS ''a'' u"
    by (simp add: source_of_def new_camera_source_def set_allowed_def is_allowed_def)
  have c: "\<not> ms_closing (sys_hls ?y)" by code_simp
  have "?l ''a'' \<noteq> None" by code_simp
  then obtain e where e: "?l ''a'' = Some e" by blast
  have b: "trim_right ''https://b'' CHR ''/'' = ''https://b''" by code_simp
  have "sane_clock 0" "unix 0 \<le> unix 0 + 3600" by (simp_all add: sane_clock_def)
  from executed_hls_stream_plays [OF u _ _ this refl c _ refl, of "ex_get []"] b u e show ?thesis
    by (fastforce simp: ex_get_def)
qed

end
